(* ===== verification/C_Prelude.thy ===== *)
theory C_Prelude
  imports Main "HOL-Library.Word" "HOL-Library.Signed_Division"
begin

text \<open>
  Shared vocabulary of the development: what the sources use of the C language and of the C
  library's string functions, and the generic lemmas the component theories rest on.

  \<^item> A byte is a \<open>char\<close>; a fixed-size character array is a list of bytes of that length, and
    the C string stored in it is its prefix before the first NUL (\<open>c_str\<close>).
  \<^item> C integers are \<open>int\<close>; where a conversion or an overflow can change a value it is written
    with \<open>take_bit\<close> (unsigned) and \<open>signed_take_bit\<close> (two's complement). \<open>/\<close> and \<open>%\<close> are
    \<open>sdiv\<close> and \<open>smod\<close>, which truncate towards zero.
  \<^item> \<open>strcmp\<close> and its relatives return the difference of the first two bytes that differ, so the
    sign the callers test is the C one.
\<close>

named_theorems c_string \<open>equations that evaluate the C string functions\<close>

section \<open>Bytes and characters\<close>

abbreviation (input) NUL :: char where "NUL \<equiv> CHR 0x00"
abbreviation (input) LF :: char where "LF \<equiv> CHR 0x0A"
abbreviation (input) CR :: char where "CR \<equiv> CHR 0x0D"
abbreviation (input) TAB :: char where "TAB \<equiv> CHR 0x09"

definition uchar :: "char \<Rightarrow> int" where
  "uchar c = int (of_char c)"

text \<open>\<open>char\<close> is signed on the platform the program is built for.\<close>

definition schar :: "char \<Rightarrow> int" where
  "schar c = signed_take_bit 7 (int (of_char c))"

definition isspace :: "char \<Rightarrow> bool" where
  "isspace c \<longleftrightarrow> c = CHR '' '' \<or> c = TAB \<or> c = LF \<or> c = CHR 0x0B \<or> c = CHR 0x0C \<or> c = CR"

definition isdigit :: "char \<Rightarrow> bool" where
  "isdigit c \<longleftrightarrow> 48 \<le> uchar c \<and> uchar c \<le> 57"

definition digit_val :: "char \<Rightarrow> int" where
  "digit_val c = uchar c - 48"

definition tolower :: "char \<Rightarrow> int" where
  "tolower c = (if 65 \<le> uchar c \<and> uchar c \<le> 90 then uchar c + 32 else uchar c)"

lemma uchar_eq_iff [simp]: "uchar c = uchar d \<longleftrightarrow> c = d"
  by (simp add: uchar_def)

lemma uchar_bounds: "0 \<le> uchar c" "uchar c < 256"
  unfolding uchar_def using nat_of_char_less_256 [of c] by linarith+

lemma uchar_NUL [simp]: "uchar NUL = 0"
  by (simp add: uchar_def)

lemma tolower_eq_0_iff [simp]: "tolower c = 0 \<longleftrightarrow> c = NUL"
  using uchar_eq_iff [of c NUL] uchar_bounds [of c] by (auto simp: tolower_def)

lemma tolower_nonneg: "0 \<le> tolower c"
  using uchar_bounds [of c] by (simp add: tolower_def)

lemma isspace_NUL [simp]: "\<not> isspace NUL"
  by (simp add: isspace_def)

lemma isspace_LF [simp]: "isspace LF"
  by (simp add: isspace_def)

section \<open>C strings in buffers\<close>

definition c_str :: "char list \<Rightarrow> string" where
  "c_str b = takeWhile (\<lambda>c. c \<noteq> NUL) b"

definition is_cstring :: "string \<Rightarrow> bool" where
  "is_cstring s \<longleftrightarrow> NUL \<notin> set s"

lemma c_str_append_NUL [simp]: "is_cstring s \<Longrightarrow> c_str (s @ NUL # b) = s"
  unfolding c_str_def is_cstring_def by (subst takeWhile_append2) auto

lemma is_cstring_c_str [simp]: "is_cstring (c_str b)"
  unfolding c_str_def is_cstring_def by (auto dest: set_takeWhileD)

lemma c_str_id: "is_cstring s \<Longrightarrow> c_str s = s"
  unfolding c_str_def is_cstring_def by (induction s) auto

lemma is_cstring_Nil [simp]: "is_cstring []"
  by (simp add: is_cstring_def)

lemma is_cstring_Cons [simp]: "is_cstring (c # s) \<longleftrightarrow> c \<noteq> NUL \<and> is_cstring s"
  by (auto simp: is_cstring_def)

lemma is_cstring_append [simp]: "is_cstring (s @ t) \<longleftrightarrow> is_cstring s \<and> is_cstring t"
  by (auto simp: is_cstring_def)

lemma c_str_Nil [simp]: "c_str [] = []"
  by (simp add: c_str_def)

lemma c_str_Cons [simp]: "c_str (c # b) = (if c = NUL then [] else c # c_str b)"
  by (simp add: c_str_def)

lemma c_str_replicate_NUL [simp]: "c_str (s @ replicate n NUL) = c_str s"
  by (induction s) (auto simp: c_str_def)

section \<open>Comparison\<close>

fun strcmp_by :: "(char \<Rightarrow> int) \<Rightarrow> string \<Rightarrow> string \<Rightarrow> int" where
  "strcmp_by f [] [] = 0"
| "strcmp_by f [] (y # ys) = 0 - f y"
| "strcmp_by f (x # xs) [] = f x"
| "strcmp_by f (x # xs) (y # ys) = (if f x = f y then strcmp_by f xs ys else f x - f y)"

definition strcmp :: "string \<Rightarrow> string \<Rightarrow> int" where
  "strcmp s t = strcmp_by uchar s t"

definition strncmp :: "string \<Rightarrow> string \<Rightarrow> nat \<Rightarrow> int" where
  "strncmp s t n = strcmp_by uchar (take n s) (take n t)"

definition strcasecmp :: "string \<Rightarrow> string \<Rightarrow> int" where
  "strcasecmp s t = strcmp_by tolower s t"

definition strncasecmp :: "string \<Rightarrow> string \<Rightarrow> nat \<Rightarrow> int" where
  "strncasecmp s t n = strcmp_by tolower (take n s) (take n t)"

lemma strcmp_by_eq_0_iff:
  assumes "\<And>c. f c = 0 \<longleftrightarrow> c = NUL" "is_cstring s" "is_cstring t"
  shows "strcmp_by f s t = 0 \<longleftrightarrow> map f s = map f t"
  using assms
proof (induction f s t rule: strcmp_by.induct)
  case (2 f y ys)
  from "2.prems"(3) have "y \<noteq> NUL" by simp
  with "2.prems"(1) [of y] show ?case by simp
next
  case (3 f x xs)
  from "3.prems"(2) have "x \<noteq> NUL" by simp
  with "3.prems"(1) [of x] show ?case by simp
next
  case (4 f x xs y ys)
  show ?case
  proof (cases "f x = f y")
    case True
    have "strcmp_by f xs ys = 0 \<longleftrightarrow> map f xs = map f ys"
      by (rule "4.IH") (use "4.prems" True in simp_all)
    with True show ?thesis by simp
  qed simp
qed simp

lemma strcmp_eq_0_iff: "is_cstring s \<Longrightarrow> is_cstring t \<Longrightarrow> strcmp s t = 0 \<longleftrightarrow> s = t"
proof -
  assume "is_cstring s" "is_cstring t"
  moreover have "uchar c = 0 \<longleftrightarrow> c = NUL" for c
    using uchar_eq_iff [of c NUL] by simp
  moreover have "map uchar s = map uchar t \<longleftrightarrow> s = t"
    by (simp add: inj_def inj_map_eq_map)
  ultimately show ?thesis
    by (simp add: strcmp_def strcmp_by_eq_0_iff)
qed

lemma strcasecmp_eq_0_iff:
  "is_cstring s \<Longrightarrow> is_cstring t \<Longrightarrow> strcasecmp s t = 0 \<longleftrightarrow> map tolower s = map tolower t"
  by (simp add: strcasecmp_def strcmp_by_eq_0_iff)

section \<open>Searching\<close>

text \<open>\<open>strstr\<close> and \<open>strchr\<close> return the suffix that starts at the match.\<close>

fun strstr :: "string \<Rightarrow> string \<Rightarrow> string option" where
  "strstr [] t = (if t = [] then Some [] else None)"
| "strstr (c # s) t = (if take (length t) (c # s) = t then Some (c # s) else strstr s t)"

fun strchr :: "string \<Rightarrow> char \<Rightarrow> string option" where
  "strchr [] c = None"
| "strchr (d # s) c = (if d = c then Some (d # s) else strchr s c)"

lemma strchr_Some: "strchr s c = Some t \<Longrightarrow> s = takeWhile (\<lambda>d. d \<noteq> c) s @ t \<and> hd t = c \<and> t \<noteq> []"
  by (induction s) (auto split: if_splits)

lemma strchr_None_iff: "strchr s c = None \<longleftrightarrow> c \<notin> set s"
  by (induction s) auto

section \<open>Numbers\<close>

fun dec_val :: "int \<Rightarrow> string \<Rightarrow> int" where
  "dec_val acc [] = acc"
| "dec_val acc (c # s) = (if isdigit c then dec_val (10 * acc + digit_val c) s else acc)"

fun strtol10 :: "string \<Rightarrow> int" where
  "strtol10 [] = 0"
| "strtol10 (c # s) =
     (if isspace c then strtol10 s
      else if c = CHR ''-'' then - dec_val 0 s
      else if c = CHR ''+'' then dec_val 0 s
      else dec_val 0 (c # s))"

text \<open>\<open>atoi\<close> is \<open>(int) strtol (s, NULL, 10)\<close>: the value saturates at 64 bits and is then cut to 32.\<close>

definition atoi :: "string \<Rightarrow> int" where
  "atoi s = signed_take_bit 31 (max (- (2 ^ 63)) (min (2 ^ 63 - 1) (strtol10 s)))"

definition digit_char :: "nat \<Rightarrow> char" where
  "digit_char n = char_of (48 + n)"

fun dec_str :: "nat \<Rightarrow> string" where
  "dec_str n = (if n < 10 then [digit_char n] else dec_str (n div 10) @ [digit_char (n mod 10)])"

declare dec_str.simps [simp del]

definition print_d :: "int \<Rightarrow> string" where
  "print_d i = (if i < 0 then CHR ''-'' # dec_str (nat (- i)) else dec_str (nat i))"

lemma uchar_digit_char: "n < 10 \<Longrightarrow> uchar (digit_char n) = 48 + int n"
  by (simp add: uchar_def digit_char_def)

lemma isdigit_digit_char: "n < 10 \<Longrightarrow> isdigit (digit_char n)"
  by (simp add: isdigit_def uchar_digit_char)

lemma digit_val_digit_char: "n < 10 \<Longrightarrow> digit_val (digit_char n) = int n"
  by (simp add: digit_val_def uchar_digit_char)

lemma dec_val_append_digit:
  "\<forall>c \<in> set s. isdigit c \<Longrightarrow> dec_val a (s @ t) = dec_val (dec_val a s) t"
  by (induction s arbitrary: a) auto

lemma dec_str_digits: "\<forall>c \<in> set (dec_str n). isdigit c"
proof (induction n rule: dec_str.induct)
  case (1 n)
  then show ?case
    by (subst dec_str.simps) (auto simp: isdigit_digit_char)
qed

lemma dec_str_not_Nil [simp]: "dec_str n \<noteq> []"
  by (subst dec_str.simps) simp

lemma dec_val_dec_str: "dec_val 0 (dec_str n) = int n"
proof (induction n rule: dec_str.induct)
  case (1 n)
  show ?case
  proof (cases "n < 10")
    case True
    then show ?thesis
      by (subst dec_str.simps) (simp add: isdigit_digit_char digit_val_digit_char)
  next
    case False
    with 1 have "dec_val 0 (dec_str (n div 10)) = int (n div 10)" by simp
    with False show ?thesis
      by (subst dec_str.simps)
         (simp add: dec_val_append_digit dec_str_digits isdigit_digit_char digit_val_digit_char
                    zdiv_int zmod_int)
  qed
qed

text \<open>Reading back a printed number gives the number.\<close>

lemma isdigit_not_special: "isdigit c \<Longrightarrow> \<not> isspace c \<and> c \<noteq> CHR ''-'' \<and> c \<noteq> CHR ''+''"
  by (auto simp: isdigit_def isspace_def uchar_def)

lemma strtol10_digits: "s \<noteq> [] \<Longrightarrow> \<forall>c \<in> set s. isdigit c \<Longrightarrow> strtol10 s = dec_val 0 s"
  by (cases s) (auto dest: isdigit_not_special)

lemma signed_take_bit_id:
  "- (2 ^ n) \<le> k \<Longrightarrow> k < 2 ^ n \<Longrightarrow> signed_take_bit n k = k" for k :: int
  by (simp add: signed_take_bit_int_eq_self)

lemma atoi_dec_str: "int n < 2 ^ 31 \<Longrightarrow> atoi (dec_str n) = int n"
  by (simp add: atoi_def strtol10_digits dec_str_digits dec_val_dec_str signed_take_bit_id)

lemmas c_string_defs [c_string] =
  strcmp_def strncmp_def strcasecmp_def strncasecmp_def isspace_def isdigit_def digit_val_def
  tolower_def uchar_def

section \<open>Generic list lemmas\<close>

lemma take_min_length: "take (min n (length xs)) xs = take n xs"
  by (simp add: min_def)

lemma drop_take_append: "n \<le> m \<Longrightarrow> take n xs @ take (m - n) (drop n xs) = take m xs"
  by (metis le_add_diff_inverse take_add)

end
