(* ===== verification/Sys_Calls.thy ===== *)
theory Sys_Calls
  imports C_Prelude
begin

text \<open>
  The POSIX calls the sources make, as a state passed through the program.

  The kernel's choices (how many bytes a read delivers, whether a call fails and with which
  \<open>errno\<close>) are an oracle: \<open>ans n\<close> is the answer to the \<open>n\<close>-th system call, and every theorem
  holds for every oracle. What the calls do with that answer is fixed here:

  \<^item> \<open>inq fd\<close> is the sequence of bytes the peer of \<open>fd\<close> still sends before it closes; a successful
    \<open>read\<close> or \<open>recv\<close> takes a non-empty prefix of at most the requested length from it, and 0
    bytes (end of file) exactly when nothing is left;
  \<^item> \<open>outq fd\<close> is what has been written to \<open>fd\<close>; a successful \<open>write\<close> or \<open>send\<close> appends a prefix of
    the data;
  \<^item> \<open>flags fd\<close> are the file status flags \<open>fcntl\<close> reads and sets;
  \<^item> \<open>closed\<close> lists the descriptors that were closed, last first;
  \<^item> \<open>bound fd\<close> is the local address \<open>bind\<close> gave the socket, \<open>live\<close> the number of allocated blocks
    that were not freed;
  \<^item> a failing call returns -1 and sets \<open>errno\<close>; a call that succeeds leaves \<open>errno\<close> alone.
\<close>

named_theorems sys_defs \<open>definitions of the system calls\<close>

record sysres =
  sr_ret :: int
  sr_errno :: int

text \<open>The part of \<open>struct sockaddr_in\<close> the sources fill in.\<close>

record sockaddr_in =
  sin_family :: int
  sin_port :: int
  sin_addr :: int

record os =
  ans :: "nat \<Rightarrow> sysres"
  tick :: nat
  errno :: int
  inq :: "int \<Rightarrow> string"
  outq :: "int \<Rightarrow> string"
  flags :: "int \<Rightarrow> int"
  closed :: "int list"
  bound :: "int \<Rightarrow> sockaddr_in option"
  live :: int

text \<open>The Linux values of the error numbers the sources test.\<close>

abbreviation (input) EINTR :: int where "EINTR \<equiv> 4"
abbreviation (input) EAGAIN :: int where "EAGAIN \<equiv> 11"
abbreviation (input) EINVAL :: int where "EINVAL \<equiv> 22"
abbreviation (input) EISCONN :: int where "EISCONN \<equiv> 106"
abbreviation (input) ETIMEDOUT :: int where "ETIMEDOUT \<equiv> 110"
abbreviation (input) EINPROGRESS :: int where "EINPROGRESS \<equiv> 115"

abbreviation (input) O_NONBLOCK :: int where "O_NONBLOCK \<equiv> 2048"

section \<open>Calls whose only effect is their result\<close>

definition sys_call :: "os \<Rightarrow> int \<times> os" where
  "sys_call w =
     (let r = ans w (tick w); w' = w\<lparr>tick := Suc (tick w)\<rparr>
      in if sr_ret r < 0 then (-1, w'\<lparr>errno := sr_errno r\<rparr>) else (sr_ret r, w'))"

text \<open>\<open>select\<close>, \<open>accept\<close>, \<open>socket\<close>, \<open>listen\<close>, \<open>setsockopt\<close>, \<open>connect\<close>, \<open>pipe\<close> and
  \<open>fork\<close> are such calls.\<close>

abbreviation sys_select :: "os \<Rightarrow> int \<times> os" where "sys_select \<equiv> sys_call"
abbreviation sys_accept :: "os \<Rightarrow> int \<times> os" where "sys_accept \<equiv> sys_call"
abbreviation sys_socket :: "os \<Rightarrow> int \<times> os" where "sys_socket \<equiv> sys_call"
abbreviation sys_setsockopt :: "os \<Rightarrow> int \<times> os" where "sys_setsockopt \<equiv> sys_call"
abbreviation sys_listen :: "os \<Rightarrow> int \<times> os" where "sys_listen \<equiv> sys_call"
abbreviation sys_connect :: "os \<Rightarrow> int \<times> os" where "sys_connect \<equiv> sys_call"
abbreviation sys_getsockopt :: "os \<Rightarrow> int \<times> os" where "sys_getsockopt \<equiv> sys_call"

section \<open>Bytes\<close>

text \<open>A \<open>read\<close> of at most \<open>n\<close> bytes: the oracle's answer \<open>r \<ge> 0\<close> bounds the chunk the kernel hands
  over, at least one byte if there is one.\<close>

definition chunk :: "nat \<Rightarrow> int \<Rightarrow> nat" where
  "chunk n r = min n (max 1 (nat r))"

definition sys_read :: "int \<Rightarrow> nat \<Rightarrow> os \<Rightarrow> int \<times> string \<times> os" where
  "sys_read fd n w =
     (case sys_call w of (r, w') \<Rightarrow>
        if r < 0 then (-1, [], w')
        else let k = chunk n r; d = take k (inq w fd)
             in (int (length d), d, w'\<lparr>inq := (inq w)(fd := drop k (inq w fd))\<rparr>))"

text \<open>\<open>recv\<close> with \<open>MSG_PEEK\<close> leaves the bytes in place.\<close>

definition sys_peek :: "int \<Rightarrow> nat \<Rightarrow> os \<Rightarrow> int \<times> string \<times> os" where
  "sys_peek fd n w =
     (case sys_call w of (r, w') \<Rightarrow>
        if r < 0 then (-1, [], w')
        else let k = chunk n r; d = take k (inq w fd) in (int (length d), d, w'))"

definition sys_write :: "int \<Rightarrow> string \<Rightarrow> os \<Rightarrow> int \<times> os" where
  "sys_write fd d w =
     (case sys_call w of (r, w') \<Rightarrow>
        if r < 0 then (-1, w')
        else let k = min (length d) (nat r)
             in (int k, w'\<lparr>outq := (outq w)(fd := outq w fd @ take k d)\<rparr>))"

abbreviation sys_recv :: "int \<Rightarrow> nat \<Rightarrow> os \<Rightarrow> int \<times> string \<times> os" where "sys_recv \<equiv> sys_read"
abbreviation sys_send :: "int \<Rightarrow> string \<Rightarrow> os \<Rightarrow> int \<times> os" where "sys_send \<equiv> sys_write"

section \<open>Descriptors\<close>

definition sys_close :: "int \<Rightarrow> os \<Rightarrow> os" where
  "sys_close fd w = w\<lparr>closed := fd # closed w\<rparr>"

definition sys_getfl :: "int \<Rightarrow> os \<Rightarrow> int \<times> os" where
  "sys_getfl fd w =
     (case sys_call w of (r, w') \<Rightarrow> if r < 0 then (-1, w') else (flags w fd, w'))"

definition sys_setfl :: "int \<Rightarrow> int \<Rightarrow> os \<Rightarrow> int \<times> os" where
  "sys_setfl fd f w =
     (case sys_call w of (r, w') \<Rightarrow>
        if r < 0 then (-1, w') else (0, w'\<lparr>flags := (flags w)(fd := f)\<rparr>))"

definition sys_bind :: "int \<Rightarrow> sockaddr_in \<Rightarrow> os \<Rightarrow> int \<times> os" where
  "sys_bind fd a w =
     (case sys_call w of (r, w') \<Rightarrow>
        if r < 0 then (-1, w') else (0, w'\<lparr>bound := (bound w)(fd := Some a)\<rparr>))"

text \<open>\<open>malloc\<close> answers whether it found memory.\<close>

definition sys_malloc :: "os \<Rightarrow> bool \<times> os" where
  "sys_malloc w =
     (case sys_call w of (r, w') \<Rightarrow>
        if r < 0 then (False, w') else (True, w'\<lparr>live := live w + 1\<rparr>))"

definition sys_free :: "os \<Rightarrow> os" where
  "sys_free w = w\<lparr>live := live w - 1\<rparr>"

text \<open>A kernel that does not fail from now on.\<close>

definition quiet :: "os \<Rightarrow> bool" where
  "quiet w \<longleftrightarrow> (\<forall>k \<ge> tick w. 0 \<le> sr_ret (ans w k))"

text \<open>A kernel that answers every call with \<open>r\<close>, with the same stream on every descriptor.\<close>

definition os_with :: "int \<Rightarrow> string \<Rightarrow> os" where
  "os_with r s = \<lparr>ans = (\<lambda>_. \<lparr>sr_ret = r, sr_errno = 4\<rparr>), tick = 0, errno = 0, inq = (\<lambda>_. s),
     outq = (\<lambda>_. []), flags = (\<lambda>_. 2), closed = [], bound = (\<lambda>_. None), live = 0\<rparr>"

section \<open>Facts every client uses\<close>

lemma sys_call_frame:
  assumes "sys_call w = (r, w')"
  shows "ans w' = ans w" "tick w' = Suc (tick w)" "inq w' = inq w" "outq w' = outq w"
    "flags w' = flags w" "closed w' = closed w" "bound w' = bound w" "live w' = live w" "-1 \<le> r"
  using assms by (auto simp: sys_call_def Let_def split: if_splits)

lemma sys_call_ok: "0 \<le> sr_ret (ans w (tick w)) \<Longrightarrow>
    sys_call w = (sr_ret (ans w (tick w)), w\<lparr>tick := Suc (tick w)\<rparr>)"
  by (simp add: sys_call_def Let_def)

lemma sys_call_fail: "sr_ret (ans w (tick w)) < 0 \<Longrightarrow>
    sys_call w = (-1, w\<lparr>tick := Suc (tick w), errno := sr_errno (ans w (tick w))\<rparr>)"
  by (simp add: sys_call_def Let_def)

lemma quiet_call:
  assumes "quiet w"
  shows "sys_call w = (sr_ret (ans w (tick w)), w\<lparr>tick := Suc (tick w)\<rparr>)" "0 \<le> sr_ret (ans w (tick w))"
    "quiet (w\<lparr>tick := Suc (tick w)\<rparr>)"
proof -
  show "0 \<le> sr_ret (ans w (tick w))" using assms by (simp add: quiet_def)
  then show "sys_call w = (sr_ret (ans w (tick w)), w\<lparr>tick := Suc (tick w)\<rparr>)" by (rule sys_call_ok)
  show "quiet (w\<lparr>tick := Suc (tick w)\<rparr>)" using assms by (simp add: quiet_def)
qed

lemma quiet_later: "quiet w \<Longrightarrow> ans w' = ans w \<Longrightarrow> tick w \<le> tick w' \<Longrightarrow> quiet w'"
  by (simp add: quiet_def)

lemma chunk_bounds: "chunk n r \<le> n" "0 < n \<Longrightarrow> 0 < chunk n r" "chunk (Suc 0) r = Suc 0"
  by (auto simp: chunk_def)

lemma sys_read_cases:
  assumes "sys_read fd n w = (r, d, w')"
  obtains (fail) "sr_ret (ans w (tick w)) < 0" "r = -1" "d = []"
      "w' = w\<lparr>tick := Suc (tick w), errno := sr_errno (ans w (tick w))\<rparr>"
  | (data) k where "0 \<le> sr_ret (ans w (tick w))" "k \<le> n" "0 < n \<Longrightarrow> 0 < k"
      "r = int (length d)" "d = take k (inq w fd)"
      "w' = w\<lparr>tick := Suc (tick w), inq := (inq w)(fd := drop k (inq w fd))\<rparr>"
proof (cases "sr_ret (ans w (tick w)) < 0")
  case True
  with assms show ?thesis by (auto simp: sys_read_def sys_call_fail intro: fail)
next
  case False
  with assms show ?thesis
    by (intro data [of "chunk n (sr_ret (ans w (tick w)))"])
       (auto simp: sys_read_def sys_call_ok Let_def chunk_bounds)
qed

lemma sys_read_frame:
  assumes "sys_read fd n w = (r, d, w')"
  shows "ans w' = ans w" "tick w' = Suc (tick w)" "outq w' = outq w" "flags w' = flags w"
    "closed w' = closed w" "bound w' = bound w" "live w' = live w" "length d \<le> n" "inq w fd = d @ inq w' fd"
    "\<And>g. g \<noteq> fd \<Longrightarrow> inq w' g = inq w g" "r = -1 \<and> d = [] \<or> r = int (length d)"
  using assms by (rule sys_read_cases; simp)+

lemma sys_peek_frame:
  assumes "sys_peek fd n w = (r, d, w')"
  shows "ans w' = ans w" "tick w' = Suc (tick w)" "inq w' = inq w" "outq w' = outq w"
    "flags w' = flags w" "closed w' = closed w" "bound w' = bound w" "live w' = live w"
  using assms by (auto simp: sys_peek_def sys_call_def Let_def split: if_splits)

lemma sys_write_cases:
  assumes "sys_write fd d w = (r, w')"
  obtains (fail) "sr_ret (ans w (tick w)) < 0" "r = -1"
      "w' = w\<lparr>tick := Suc (tick w), errno := sr_errno (ans w (tick w))\<rparr>"
  | (sent) k where "0 \<le> sr_ret (ans w (tick w))" "k \<le> length d" "k \<le> nat (sr_ret (ans w (tick w)))"
      "0 < sr_ret (ans w (tick w)) \<Longrightarrow> d \<noteq> [] \<Longrightarrow> 0 < k"
      "r = int k" "w' = w\<lparr>tick := Suc (tick w), outq := (outq w)(fd := outq w fd @ take k d)\<rparr>"
proof (cases "sr_ret (ans w (tick w)) < 0")
  case True
  with assms show ?thesis by (auto simp: sys_write_def sys_call_fail intro: fail)
next
  case False
  with assms show ?thesis
    by (intro sent [of "min (length d) (nat (sr_ret (ans w (tick w))))"])
       (auto simp: sys_write_def sys_call_ok Let_def)
qed

lemma sys_write_frame:
  assumes "sys_write fd d w = (r, w')"
  shows "ans w' = ans w" "tick w' = Suc (tick w)" "inq w' = inq w" "flags w' = flags w"
    "closed w' = closed w" "bound w' = bound w" "live w' = live w" "\<And>g. g \<noteq> fd \<Longrightarrow> outq w' g = outq w g"
    "r = -1 \<and> outq w' = outq w \<or> 0 \<le> r \<and> r \<le> int (length d) \<and> outq w' fd = outq w fd @ take (nat r) d"
  using assms by (rule sys_write_cases; simp)+

text \<open>A read of one byte, as \<open>get_line\<close> makes it.\<close>

lemma sys_read_1:
  assumes "0 \<le> sr_ret (ans w (tick w))"
  shows "sys_read fd 1 w =
    (case inq w fd of
       [] \<Rightarrow> (0, [], w\<lparr>tick := Suc (tick w)\<rparr>)
     | c # cs \<Rightarrow> (1, [c], w\<lparr>tick := Suc (tick w), inq := (inq w)(fd := cs)\<rparr>))"
proof (cases "inq w fd")
  case Nil
  then have "(inq w)(fd := []) = inq w" by (simp add: fun_upd_idem)
  with Nil assms show ?thesis by (simp add: sys_read_def sys_call_ok)
next
  case (Cons c cs)
  with assms show ?thesis by (simp add: sys_read_def sys_call_ok chunk_bounds)
qed

lemma sys_peek_1:
  assumes "0 \<le> sr_ret (ans w (tick w))"
  shows "sys_peek fd 1 w =
    (case inq w fd of
       [] \<Rightarrow> (0, [], w\<lparr>tick := Suc (tick w)\<rparr>)
     | c # cs \<Rightarrow> (1, [c], w\<lparr>tick := Suc (tick w)\<rparr>))"
  using assms
  by (cases "inq w fd") (auto simp: sys_peek_def sys_call_ok Let_def chunk_bounds)

lemmas sys_call_defs [sys_defs] =
  sys_call_def chunk_def sys_read_def sys_peek_def sys_write_def sys_close_def sys_getfl_def sys_setfl_def
  sys_bind_def sys_malloc_def sys_free_def

end
