(* ===== verification/Comm_Socket.thy ===== *)
theory Comm_Socket
  imports Sys_Calls
begin

text \<open>
  \<open>commsocket.c\<close>: the server's socket layer. \<open>readn\<close> and \<open>writen\<close> move an exact number of bytes
  through a descriptor whatever chunks the kernel chooses, \<open>write_timeout\<close>, \<open>read_timeout\<close> and
  \<open>accept_timeout\<close> wait with \<open>select\<close>, \<open>Server_send\<close> and \<open>Server_rev\<close> exchange messages framed by a
  four-byte length in network order, \<open>Server_init\<close> and \<open>Server_accept\<close> set up connections, and
  \<open>activate_nonblock\<close> and \<open>deactivate_nonblock\<close> switch a descriptor's mode.

  The loops retry a call that was interrupted, so they may run for ever; they are
  \<open>partial_function (option)\<close>, with \<open>None\<close> for not returning. That they do return is proved for
  every oracle that is fair (interruptions are the only failures and some call succeeds again and
  again): the locale \<open>eintr_retry\<close> carries the argument once for all of them.
\<close>

unbundle bit_operations_syntax

section \<open>Error codes\<close>

definition Sck_Ok :: int where "Sck_Ok = 0"
definition Sck_BaseErr :: int where "Sck_BaseErr = 3000"
definition Sck_ErrParam :: int where "Sck_ErrParam = Sck_BaseErr + 1"
definition Sck_ErrTimeOut :: int where "Sck_ErrTimeOut = Sck_BaseErr + 2"
definition Sck_ErrPeerClosed :: int where "Sck_ErrPeerClosed = Sck_BaseErr + 3"
definition Sck_ErrMalloc :: int where "Sck_ErrMalloc = Sck_BaseErr + 4"

lemmas sck_codes = Sck_Ok_def Sck_BaseErr_def Sck_ErrParam_def Sck_ErrTimeOut_def
  Sck_ErrPeerClosed_def Sck_ErrMalloc_def

section \<open>Byte order\<close>

text \<open>A 32-bit value in memory on the little-endian machine, and the byte swap \<open>htonl\<close>.\<close>

definition mem32 :: "int \<Rightarrow> string" where
  "mem32 x = map (\<lambda>i. char_of (nat (take_bit 32 x div 256 ^ i mod 256))) [0, 1, 2, 3]"

definition int_of_mem32 :: "string \<Rightarrow> int" where
  "int_of_mem32 bs = signed_take_bit 31
     (uchar (bs ! 0) + 256 * uchar (bs ! 1) + 256 ^ 2 * uchar (bs ! 2) + 256 ^ 3 * uchar (bs ! 3))"

definition htonl :: "int \<Rightarrow> int" where
  "htonl x =
     (x mod 256) * 256 ^ 3 + (x div 256 mod 256) * 256 ^ 2 + (x div 256 ^ 2 mod 256) * 256
       + x div 256 ^ 3 mod 256"

definition htons :: "int \<Rightarrow> int" where
  "htons x = (x mod 256) * 256 + x div 256 mod 256"

section \<open>Exact reads and writes\<close>

partial_function (option) readn_loop ::
  "int \<Rightarrow> nat \<Rightarrow> nat \<Rightarrow> string \<Rightarrow> os \<Rightarrow> (int \<times> string \<times> os) option" where
  "readn_loop fd count nleft buf w =
     (if nleft > 0 then
        (case sys_read fd nleft w of (nread, d, w') \<Rightarrow>
           if nread < 0 then
             if errno w' = EINTR then readn_loop fd count nleft buf w'
             else Some (-1, buf, w')
           else if nread = 0 then Some (int (count - nleft), buf, w')
           else readn_loop fd count (nleft - nat nread) (buf @ d) w')
      else Some (int count, buf, w))"

definition readn :: "int \<Rightarrow> nat \<Rightarrow> os \<Rightarrow> (int \<times> string \<times> os) option" where
  "readn fd count w = readn_loop fd count count [] w"

partial_function (option) writen_loop ::
  "int \<Rightarrow> nat \<Rightarrow> string \<Rightarrow> os \<Rightarrow> (int \<times> os) option" where
  "writen_loop fd count bufp w =
     (if length bufp > 0 then
        (case sys_write fd bufp w of (nwritten, w') \<Rightarrow>
           if nwritten < 0 then
             if errno w' = EINTR then writen_loop fd count bufp w'
             else Some (-1, w')
           else if nwritten = 0 then writen_loop fd count bufp w'
           else writen_loop fd count (drop (nat nwritten) bufp) w')
      else Some (int count, w))"

definition writen :: "int \<Rightarrow> string \<Rightarrow> os \<Rightarrow> (int \<times> os) option" where
  "writen fd buf w = writen_loop fd (length buf) buf w"

partial_function (option) recv_peek :: "int \<Rightarrow> nat \<Rightarrow> os \<Rightarrow> (int \<times> string \<times> os) option" where
  "recv_peek sockfd len w =
     (case sys_peek sockfd len w of (ret, d, w') \<Rightarrow>
        if ret = -1 \<and> errno w' = EINTR then recv_peek sockfd len w' else Some (ret, d, w'))"

section \<open>Non-blocking mode\<close>

definition activate_nonblock :: "int \<Rightarrow> os \<Rightarrow> int \<times> os" where
  "activate_nonblock fd w =
     (case sys_getfl fd w of (fl, w1) \<Rightarrow>
        if fl = -1 then (fl, w1) else sys_setfl fd (fl OR O_NONBLOCK) w1)"

definition deactivate_nonblock :: "int \<Rightarrow> os \<Rightarrow> int \<times> os" where
  "deactivate_nonblock fd w =
     (case sys_getfl fd w of (fl, w1) \<Rightarrow>
        if fl = -1 then (fl, w1) else sys_setfl fd (fl AND NOT O_NONBLOCK) w1)"

section \<open>Waiting with a timeout\<close>

text \<open>\<open>do ret = select (...) while (ret < 0 && errno == EINTR)\<close>, shared by the three waits.\<close>

partial_function (option) select_loop :: "os \<Rightarrow> (int \<times> os) option" where
  "select_loop w =
     (case sys_select w of (ret, w') \<Rightarrow>
        if ret < 0 \<and> errno w' = EINTR then select_loop w' else Some (ret, w'))"

definition write_timeout :: "int \<Rightarrow> int \<Rightarrow> os \<Rightarrow> (int \<times> os) option" where
  "write_timeout fd wait_seconds w =
     (if wait_seconds > 0 then
        (case select_loop w of
           None \<Rightarrow> None
         | Some (ret, w') \<Rightarrow>
             if ret = 0 then Some (-1, w'\<lparr>errno := ETIMEDOUT\<rparr>)
             else if ret = 1 then Some (0, w')
             else Some (ret, w'))
      else Some (0, w))"

definition read_timeout :: "int \<Rightarrow> int \<Rightarrow> os \<Rightarrow> (int \<times> os) option" where
  "read_timeout fd wait_seconds w =
     (if wait_seconds > 0 then
        (case select_loop w of
           None \<Rightarrow> None
         | Some (ret, w') \<Rightarrow>
             if ret = 0 then Some (-1, w'\<lparr>errno := ETIMEDOUT\<rparr>)
             else if ret = 1 then Some (0, w')
             else Some (ret, w'))
      else Some (0, w))"

definition accept_timeout :: "int \<Rightarrow> int \<Rightarrow> os \<Rightarrow> (int \<times> os) option" where
  "accept_timeout fd wait_seconds w =
     (let acc = (\<lambda>w. case sys_accept w of (ret, w') \<Rightarrow>
                   if ret = -1 then Some (errno w', w') else Some (ret, w'))
      in if wait_seconds > 0 then
           (case select_loop w of
              None \<Rightarrow> None
            | Some (ret, w') \<Rightarrow>
                if ret = -1 then Some (-1, w')
                else if ret = 0 then Some (-1, w'\<lparr>errno := ETIMEDOUT\<rparr>)
                else acc w')
         else acc w)"

section \<open>The server's entry points\<close>

text \<open>\<open>inet_addr\<close> is the C library's; \<open>None\<close> for the null pointer. The result is the descriptor or -1.\<close>

definition Server_init :: "(string \<Rightarrow> int) \<Rightarrow> string option \<Rightarrow> int \<Rightarrow> os \<Rightarrow> int \<times> os" where
  "Server_init inet_addr ip port w =
     (case ip of
        None \<Rightarrow> (-1, w)
      | Some ip' \<Rightarrow>
          let servaddr = \<lparr>sin_family = 2, sin_port = htons port, sin_addr = inet_addr ip'\<rparr>
          in (case sys_socket w of (mylistenfd, w1) \<Rightarrow>
                if mylistenfd < 0 then (-1, w1)
                else (case sys_setsockopt w1 of (ret, w2) \<Rightarrow>
                        if ret < 0 then (-1, w2)
                        else (case sys_bind mylistenfd servaddr w2 of (ret, w3) \<Rightarrow>
                                if ret < 0 then (-1, w3)
                                else (case sys_listen w3 of (ret, w4) \<Rightarrow>
                                        if ret < 0 then (-1, w4) else (mylistenfd, w4))))))"

definition Server_accept :: "int \<Rightarrow> int \<Rightarrow> os \<Rightarrow> (int \<times> os) option" where
  "Server_accept listenfd timeout w =
     (if listenfd < 0 \<or> timeout < 0 then Some (-1, w)
      else (case accept_timeout listenfd timeout w of
              None \<Rightarrow> None
            | Some (ret, w') \<Rightarrow>
                if ret < 0 then
                  if ret = -1 \<and> errno w' = ETIMEDOUT then Some (Sck_ErrTimeOut, w')
                  else Some (errno w', w')
                else Some (ret, w')))"

text \<open>The caller passes \<open>datalen\<close> bytes of data; \<open>wait_seconds\<close> receives \<open>timeout\<close> as an unsigned int.\<close>

definition Server_send :: "int \<Rightarrow> string \<Rightarrow> int \<Rightarrow> os \<Rightarrow> (int \<times> os) option" where
  "Server_send connfd data timeout w =
     (case write_timeout connfd (take_bit 32 timeout) w of
        None \<Rightarrow> None
      | Some (ret, w1) \<Rightarrow>
          if ret = 0 then
            (case sys_malloc w1 of (ok, w2) \<Rightarrow>
               if \<not> ok then Some (Sck_ErrMalloc, w2)
               else let datalen = int (length data);
                        netlen = signed_take_bit 31 (htonl (take_bit 32 datalen));
                        netdata = mem32 netlen @ data
                    in (case writen connfd netdata w2 of
                          None \<Rightarrow> None
                        | Some (writed, w3) \<Rightarrow>
                            if writed < datalen + 4 then Some (writed, sys_free w3)
                            else Some (ret, w3)))
          else if ret < 0 then
            if ret = -1 \<and> errno w1 = ETIMEDOUT then Some (Sck_ErrTimeOut, w1)
            else Some (ret, w1)
          else Some (ret, w1))"

text \<open>
  The result is the return value, the bytes stored at \<open>out\<close> and the value stored at \<open>outlen\<close>
  (\<open>None\<close> when it is not written). \<open>params_ok\<close> says that neither pointer is null. The length the
  peer sent is an \<open>int\<close>, and \<open>readn\<close> takes it as a \<open>size_t\<close>.
\<close>

definition Server_rev ::
  "int \<Rightarrow> bool \<Rightarrow> int \<Rightarrow> os \<Rightarrow> (int \<times> string \<times> int option \<times> os) option" where
  "Server_rev connfd params_ok timeout w =
     (if \<not> params_ok then Some (Sck_ErrParam, [], None, w)
      else (case read_timeout connfd (take_bit 32 timeout) w of
              None \<Rightarrow> None
            | Some (ret, w1) \<Rightarrow>
                if ret \<noteq> 0 then
                  if ret = -1 \<or> errno w1 = ETIMEDOUT then Some (Sck_ErrTimeOut, [], None, w1)
                  else Some (ret, [], None, w1)
                else
                  (case readn connfd 4 w1 of
                     None \<Rightarrow> None
                   | Some (ret, hdr, w2) \<Rightarrow>
                       if ret = -1 then Some (ret, [], None, w2)
                       else if ret < 4 then Some (Sck_ErrPeerClosed, [], None, w2)
                       else let n = signed_take_bit 31 (htonl (take_bit 32 (int_of_mem32 hdr)))
                            in (case readn connfd (nat (take_bit 64 n)) w2 of
                                  None \<Rightarrow> None
                                | Some (r, out, w3) \<Rightarrow>
                                    let ret = signed_take_bit 31 r
                                    in if ret = -1 then Some (ret, out, None, w3)
                                       else if ret < n then Some (Sck_ErrPeerClosed, out, None, w3)
                                       else Some (0, out, Some n, w3)))))"

section \<open>Retrying interrupted calls\<close>

text \<open>
  An oracle is fair from now on when a call fails only by being interrupted and answers that make
  progress keep coming.
\<close>

definition fair :: "(sysres \<Rightarrow> bool) \<Rightarrow> os \<Rightarrow> bool" where
  "fair good w \<longleftrightarrow>
     (\<forall>k \<ge> tick w. sr_ret (ans w k) < 0 \<longrightarrow> sr_errno (ans w k) = EINTR) \<and>
     (\<forall>k. \<exists>j \<ge> k. good (ans w j))"

definition answers :: "sysres \<Rightarrow> bool" where "answers r \<longleftrightarrow> 0 \<le> sr_ret r"
definition progresses :: "sysres \<Rightarrow> bool" where "progresses r \<longleftrightarrow> 0 < sr_ret r"

lemma fair_later: "fair good w \<Longrightarrow> ans w' = ans w \<Longrightarrow> tick w \<le> tick w' \<Longrightarrow> fair good w'"
  by (simp add: fair_def)

lemma fair_mono: "fair good w \<Longrightarrow> (\<And>r. good r \<Longrightarrow> good' r) \<Longrightarrow> fair good' w"
  unfolding fair_def by blast

lemma fair_progresses_answers: "fair progresses w \<Longrightarrow> fair answers w"
  by (erule fair_mono) (simp add: answers_def progresses_def)

locale eintr_retry =
  fixes loop :: "os \<Rightarrow> 'r option" and good :: "sysres \<Rightarrow> bool"
  assumes retry: "\<not> good (ans w (tick w)) \<Longrightarrow>
    (sr_ret (ans w (tick w)) < 0 \<Longrightarrow> sr_errno (ans w (tick w)) = EINTR) \<Longrightarrow>
    \<exists>e. loop w = loop (w\<lparr>tick := Suc (tick w), errno := e\<rparr>)"
begin

lemma reaches_good_by:
  "fair good w \<Longrightarrow> good (ans w (tick w + d)) \<Longrightarrow>
   \<exists>n e. tick w \<le> n \<and> good (ans w n) \<and> loop w = loop (w\<lparr>tick := n, errno := e\<rparr>)"
proof (induction d arbitrary: w)
  case 0
  then have "tick w \<le> tick w \<and> good (ans w (tick w)) \<and> loop w = loop (w\<lparr>tick := tick w, errno := errno w\<rparr>)"
    by simp
  then show ?case by blast
next
  case (Suc d)
  show ?case
  proof (cases "good (ans w (tick w))")
    case True
    then have "tick w \<le> tick w \<and> good (ans w (tick w)) \<and> loop w = loop (w\<lparr>tick := tick w, errno := errno w\<rparr>)"
      by simp
    then show ?thesis by blast
  next
    case False
    have "sr_ret (ans w (tick w)) < 0 \<Longrightarrow> sr_errno (ans w (tick w)) = EINTR"
      using Suc.prems(1) by (simp add: fair_def)
    with False obtain e where e: "loop w = loop (w\<lparr>tick := Suc (tick w), errno := e\<rparr>)"
      using retry by blast
    let ?w = "w\<lparr>tick := Suc (tick w), errno := e\<rparr>"
    have "fair good ?w" by (rule fair_later [OF Suc.prems(1)]) simp_all
    moreover have "good (ans ?w (tick ?w + d))" using Suc.prems(2) by simp
    ultimately obtain n e' where
      "tick ?w \<le> n" "good (ans ?w n)" "loop ?w = loop (?w\<lparr>tick := n, errno := e'\<rparr>)"
      using Suc.IH by blast
    with e have "tick w \<le> n \<and> good (ans w n) \<and> loop w = loop (w\<lparr>tick := n, errno := e'\<rparr>)"
      by simp
    then show ?thesis by blast
  qed
qed

lemma reaches_good:
  assumes "fair good w"
  obtains n e where "tick w \<le> n" "good (ans w n)" "loop w = loop (w\<lparr>tick := n, errno := e\<rparr>)"
proof -
  from assms obtain j where "j \<ge> tick w" "good (ans w j)" by (auto simp: fair_def)
  then have "good (ans w (tick w + (j - tick w)))" by simp
  from reaches_good_by [OF assms this] that show ?thesis by blast
qed

end

interpretation sel: eintr_retry select_loop answers
proof
  fix w :: os
  assume "\<not> answers (ans w (tick w))"
    and "sr_ret (ans w (tick w)) < 0 \<Longrightarrow> sr_errno (ans w (tick w)) = EINTR"
  then show "\<exists>e. select_loop w = select_loop (w\<lparr>tick := Suc (tick w), errno := e\<rparr>)"
    by (subst select_loop.simps) (auto simp: answers_def sys_call_fail)
qed

interpretation rdn: eintr_retry "readn_loop fd count (Suc n) buf" answers for fd count n buf
proof
  fix w :: os
  assume "\<not> answers (ans w (tick w))"
    and "sr_ret (ans w (tick w)) < 0 \<Longrightarrow> sr_errno (ans w (tick w)) = EINTR"
  then show "\<exists>e. readn_loop fd count (Suc n) buf w =
      readn_loop fd count (Suc n) buf (w\<lparr>tick := Suc (tick w), errno := e\<rparr>)"
    by (subst readn_loop.simps) (auto simp: answers_def sys_read_def sys_call_fail)
qed

interpretation wrn: eintr_retry "writen_loop fd count (c # bufp)" progresses for fd count c bufp
proof
  fix w :: os
  assume np: "\<not> progresses (ans w (tick w))"
    and intr: "sr_ret (ans w (tick w)) < 0 \<Longrightarrow> sr_errno (ans w (tick w)) = EINTR"
  show "\<exists>e. writen_loop fd count (c # bufp) w =
      writen_loop fd count (c # bufp) (w\<lparr>tick := Suc (tick w), errno := e\<rparr>)"
  proof (cases "sr_ret (ans w (tick w)) < 0")
    case True
    with intr have "writen_loop fd count (c # bufp) w =
        writen_loop fd count (c # bufp) (w\<lparr>tick := Suc (tick w), errno := EINTR\<rparr>)"
      by (subst writen_loop.simps) (simp add: sys_write_def sys_call_fail)
    then show ?thesis by blast
  next
    case False
    with np have "sr_ret (ans w (tick w)) = 0" by (simp add: progresses_def)
    then have "writen_loop fd count (c # bufp) w =
        writen_loop fd count (c # bufp) (w\<lparr>tick := Suc (tick w), errno := errno w\<rparr>)"
      by (subst writen_loop.simps) (simp add: sys_write_def sys_call_ok)
    then show ?thesis by blast
  qed
qed

interpretation pk: eintr_retry "recv_peek fd len" answers for fd len
proof
  fix w :: os
  assume "\<not> answers (ans w (tick w))"
    and "sr_ret (ans w (tick w)) < 0 \<Longrightarrow> sr_errno (ans w (tick w)) = EINTR"
  then show "\<exists>e. recv_peek fd len w = recv_peek fd len (w\<lparr>tick := Suc (tick w), errno := e\<rparr>)"
    by (subst recv_peek.simps) (auto simp: answers_def sys_peek_def sys_call_fail)
qed

section \<open>What the loops compute\<close>

lemma select_loop_fair:
  assumes "fair answers w"
  obtains n e where "tick w \<le> n" "0 \<le> sr_ret (ans w n)"
    "select_loop w = Some (sr_ret (ans w n), w\<lparr>tick := Suc n, errno := e\<rparr>)"
proof -
  obtain n e where n: "tick w \<le> n" "answers (ans w n)"
    "select_loop w = select_loop (w\<lparr>tick := n, errno := e\<rparr>)"
    using sel.reaches_good [OF assms] by blast
  have "select_loop (w\<lparr>tick := n, errno := e\<rparr>) =
      Some (sr_ret (ans w n), w\<lparr>tick := Suc n, errno := e\<rparr>)"
    using n(2) by (subst select_loop.simps) (simp add: answers_def sys_call_ok)
  with n that show ?thesis by (simp add: answers_def)
qed

lemma readn_loop_step:
  assumes "fair answers w" "0 < nleft"
  obtains (eof) n e where "tick w \<le> n" "inq w fd = []"
      "readn_loop fd count nleft buf w = Some (int (count - nleft), buf, w\<lparr>tick := n, errno := e\<rparr>)"
  | (more) l n e where "tick w \<le> n" "0 < l" "l \<le> nleft" "l \<le> length (inq w fd)"
      "readn_loop fd count nleft buf w = readn_loop fd count (nleft - l) (buf @ take l (inq w fd))
         (w\<lparr>tick := n, errno := e, inq := (inq w)(fd := drop l (inq w fd))\<rparr>)"
proof -
  obtain m where m: "nleft = Suc m" using assms(2) by (cases nleft) auto
  obtain n e where n: "tick w \<le> n" "answers (ans w n)"
    and eq: "readn_loop fd count nleft buf w = readn_loop fd count nleft buf (w\<lparr>tick := n, errno := e\<rparr>)"
    using rdn.reaches_good [OF assms(1)] unfolding m by blast
  let ?w = "w\<lparr>tick := n, errno := e\<rparr>"
  obtain r d w' where rd: "sys_read fd nleft ?w = (r, d, w')"
    by (cases "sys_read fd nleft ?w") auto
  from rd show thesis
  proof (cases rule: sys_read_cases)
    case fail
    with n(2) show ?thesis by (simp add: answers_def)
  next
    case (data k)
    show ?thesis
    proof (cases "inq w fd")
      case Nil
      then have "(inq w)(fd := []) = inq w" by (simp add: fun_upd_idem)
      with data Nil have "w' = w\<lparr>tick := Suc n, errno := e\<rparr>" by simp
      moreover have "readn_loop fd count nleft buf ?w = Some (int (count - nleft), buf, w')"
        using data rd m Nil by (subst readn_loop.simps) simp
      ultimately show ?thesis using eof [of "Suc n" e] n(1) eq Nil by simp
    next
      case (Cons c cs)
      define l where "l = length d"
      have l: "0 < l" "l \<le> nleft" "d = take l (inq w fd)" "l \<le> length (inq w fd)" "r = int l"
        and w': "w' = w\<lparr>tick := Suc n, errno := e, inq := (inq w)(fd := drop l (inq w fd))\<rparr>"
        using data Cons m by (auto simp: l_def min_def)
      have "readn_loop fd count nleft buf ?w = readn_loop fd count (nleft - l) (buf @ d) w'"
        using rd m l by (subst readn_loop.simps) simp
      with more [of "Suc n" l e] n(1) eq l w' show ?thesis by simp
    qed
  qed
qed

lemma readn_loop_fair:
  assumes "fair answers w" "nleft \<le> count"
  shows "\<exists>n e. tick w \<le> n \<and>
    readn_loop fd count nleft buf w =
      Some (int (count - nleft + length (take nleft (inq w fd))), buf @ take nleft (inq w fd),
            w\<lparr>tick := n, errno := e, inq := (inq w)(fd := drop nleft (inq w fd))\<rparr>)"
  using assms
proof (induction nleft arbitrary: w buf rule: less_induct)
  case (less nleft)
  show ?case
  proof (cases "nleft = 0")
    case True
    then have "readn_loop fd count nleft buf w = Some (int count, buf, w\<lparr>tick := tick w, errno := errno w\<rparr>)"
      by (subst readn_loop.simps) simp
    with True show ?thesis by (intro exI [of _ "tick w"] exI [of _ "errno w"]) simp
  next
    case False
    then have pos: "0 < nleft" by simp
    show ?thesis
    proof (rule readn_loop_step [OF less.prems(1) pos, of fd count buf])
      fix n e
      assume n: "tick w \<le> n" and nil: "inq w fd = []"
        and eq: "readn_loop fd count nleft buf w = Some (int (count - nleft), buf, w\<lparr>tick := n, errno := e\<rparr>)"
      have "(inq w)(fd := drop nleft (inq w fd)) = inq w" using nil by (simp add: fun_upd_idem)
      with eq nil have "readn_loop fd count nleft buf w =
          Some (int (count - nleft + length (take nleft (inq w fd))), buf @ take nleft (inq w fd),
            w\<lparr>tick := n, errno := e, inq := (inq w)(fd := drop nleft (inq w fd))\<rparr>)"
        by (simp only: take_Nil list.size append_Nil2 add_0_right) simp
      with n show ?thesis by blast
    next
      fix l n e
      let ?w = "w\<lparr>tick := n, errno := e, inq := (inq w)(fd := drop l (inq w fd))\<rparr>"
      assume n: "tick w \<le> n" and l: "0 < l" "l \<le> nleft" "l \<le> length (inq w fd)"
        and eq: "readn_loop fd count nleft buf w =
          readn_loop fd count (nleft - l) (buf @ take l (inq w fd)) ?w"
      have "fair answers ?w" by (rule fair_later [OF less.prems(1)]) (use n in simp_all)
      moreover have "nleft - l < nleft" "nleft - l \<le> count" using l less.prems by simp_all
      ultimately obtain n' e' where n': "tick ?w \<le> n'" and
        rec: "readn_loop fd count (nleft - l) (buf @ take l (inq w fd)) ?w =
          Some (int (count - (nleft - l) + length (take (nleft - l) (inq ?w fd))),
            (buf @ take l (inq w fd)) @ take (nleft - l) (inq ?w fd),
            ?w\<lparr>tick := n', errno := e', inq := (inq ?w)(fd := drop (nleft - l) (inq ?w fd))\<rparr>)"
        using less.IH [of "nleft - l" ?w "buf @ take l (inq w fd)"] by blast
      have "readn_loop fd count nleft buf w =
          Some (int (count - nleft + length (take nleft (inq w fd))), buf @ take nleft (inq w fd),
            w\<lparr>tick := n', errno := e', inq := (inq w)(fd := drop nleft (inq w fd))\<rparr>)"
        using eq rec l less.prems(2) by (simp add: drop_take_append)
      moreover have "tick w \<le> n'" using n' n by simp
      ultimately show ?thesis by blast
    qed
  qed
qed

lemma writen_loop_fair:
  assumes "fair progresses w"
  shows "\<exists>n e. tick w \<le> n \<and> writen_loop fd count bufp w =
      Some (int count, w\<lparr>tick := n, errno := e, outq := (outq w)(fd := outq w fd @ bufp)\<rparr>)"
  using assms
proof (induction bufp arbitrary: w rule: length_induct)
  case (1 bufp)
  show ?case
  proof (cases bufp)
    case Nil
    then have "writen_loop fd count bufp w = Some (int count, w\<lparr>tick := tick w, errno := errno w\<rparr>)"
      by (subst writen_loop.simps) simp
    with Nil show ?thesis by (intro exI [of _ "tick w"] exI [of _ "errno w"]) simp
  next
    case (Cons c cs)
    obtain n e where n: "tick w \<le> n" "progresses (ans w n)"
      and eq: "writen_loop fd count bufp w = writen_loop fd count bufp (w\<lparr>tick := n, errno := e\<rparr>)"
      using wrn.reaches_good [OF "1.prems"] unfolding Cons by blast
    let ?w = "w\<lparr>tick := n, errno := e\<rparr>"
    obtain r w' where wr: "sys_write fd bufp ?w = (r, w')"
      by (cases "sys_write fd bufp ?w") auto
    from wr show ?thesis
    proof (cases rule: sys_write_cases)
      case fail
      with n(2) show ?thesis by (simp add: progresses_def)
    next
      case (sent k)
      have k: "0 < k" "k \<le> length bufp" using sent n(2) Cons by (simp_all add: progresses_def)
      have step: "writen_loop fd count bufp ?w = writen_loop fd count (drop k bufp) w'"
        using wr sent k by (subst writen_loop.simps) (simp add: Cons)
      have "fair progresses w'" by (rule fair_later [OF "1.prems"]) (use sent n in simp_all)
      moreover have "length (drop k bufp) < length bufp" using k by simp
      ultimately obtain n' e' where n': "tick w' \<le> n'" and
        rec: "writen_loop fd count (drop k bufp) w' =
          Some (int count, w'\<lparr>tick := n', errno := e', outq := (outq w')(fd := outq w' fd @ drop k bufp)\<rparr>)"
        using "1.IH" by blast
      have "writen_loop fd count bufp w =
          Some (int count, w\<lparr>tick := n', errno := e', outq := (outq w)(fd := outq w fd @ bufp)\<rparr>)"
        using eq step rec sent by simp
      moreover have "tick w \<le> n'" using n' n(1) sent by simp
      ultimately show ?thesis by blast
    qed
  qed
qed

section \<open>The length field\<close>

text \<open>A 32-bit value by its four bytes, lowest first.\<close>

definition quad :: "int \<Rightarrow> int \<Rightarrow> int \<Rightarrow> int \<Rightarrow> int" where
  "quad a b c d = a + 256 * (b + 256 * (c + 256 * d))"

definition byte_range :: "int \<Rightarrow> bool" where
  "byte_range a \<longleftrightarrow> 0 \<le> a \<and> a < 256"

lemma byte_step: "byte_range a \<Longrightarrow> (a + 256 * x) mod 256 = a \<and> (a + 256 * x) div 256 = x"
  by (simp add: byte_range_def)

lemma quad_div:
  assumes "byte_range a" "byte_range b" "byte_range c"
  shows "quad a b c d div 256 = b + 256 * (c + 256 * d)"
    "quad a b c d div 256 ^ 2 = c + 256 * d" "quad a b c d div 256 ^ 3 = d"
proof -
  show 1: "quad a b c d div 256 = b + 256 * (c + 256 * d)"
    unfolding quad_def using byte_step [OF assms(1)] by blast
  have "quad a b c d div 256 ^ 2 = quad a b c d div 256 div 256"
    by (simp flip: zdiv_zmult2_eq)
  then show 2: "quad a b c d div 256 ^ 2 = c + 256 * d"
    unfolding 1 using byte_step [OF assms(2), of "c + 256 * d"] by metis
  have "quad a b c d div 256 ^ 3 = quad a b c d div 256 ^ 2 div 256"
    by (simp flip: zdiv_zmult2_eq)
  then show "quad a b c d div 256 ^ 3 = d"
    unfolding 2 using byte_step [OF assms(3), of d] by metis
qed

lemma quad_digits:
  assumes "byte_range a" "byte_range b" "byte_range c" "byte_range d"
  shows "quad a b c d mod 256 = a" "quad a b c d div 256 mod 256 = b"
    "quad a b c d div 256 ^ 2 mod 256 = c" "quad a b c d div 256 ^ 3 mod 256 = d"
proof -
  show "quad a b c d mod 256 = a"
    unfolding quad_def using byte_step [OF assms(1)] by blast
  show "quad a b c d div 256 mod 256 = b"
    unfolding quad_div(1) [OF assms(1-3)] using byte_step [OF assms(2)] by blast
  show "quad a b c d div 256 ^ 2 mod 256 = c"
    unfolding quad_div(2) [OF assms(1-3)] using byte_step [OF assms(3)] by blast
  show "quad a b c d div 256 ^ 3 mod 256 = d"
    unfolding quad_div(3) [OF assms(1-3)] using assms(4) by (simp add: byte_range_def)
qed

lemma quad_bounds:
  "byte_range a \<Longrightarrow> byte_range b \<Longrightarrow> byte_range c \<Longrightarrow> byte_range d \<Longrightarrow>
   0 \<le> quad a b c d \<and> quad a b c d < 2 ^ 32"
  by (simp add: quad_def byte_range_def)

lemma quad_cases:
  assumes "0 \<le> x" "x < 2 ^ 32"
  obtains a b c d where "byte_range a" "byte_range b" "byte_range c" "byte_range d" "x = quad a b c d"
proof
  show "x = quad (x mod 256) (x div 256 mod 256) (x div 256 div 256 mod 256) (x div 256 div 256 div 256)"
    unfolding quad_def by (metis mult_div_mod_eq add.commute)
  have "x div 256 div 256 div 256 = x div 256 ^ 3"
    by (simp flip: zdiv_zmult2_eq)
  then show "byte_range (x div 256 div 256 div 256)"
    using assms by (simp add: byte_range_def div_int_pos_iff)
qed (simp_all add: byte_range_def)

lemma htonl_quad:
  assumes "byte_range a" "byte_range b" "byte_range c" "byte_range d"
  shows "htonl (quad a b c d) = quad d c b a"
  unfolding htonl_def quad_digits [OF assms] by (simp add: quad_def)

lemma htonl_bounds: 
  assumes "0 \<le> x" "x < 2 ^ 32" shows "0 \<le> htonl x \<and> htonl x < 2 ^ 32"
  using assms by (rule quad_cases) (simp add: htonl_quad quad_bounds [simplified])

lemma htonl_htonl: 
  assumes "0 \<le> x" "x < 2 ^ 32" shows "htonl (htonl x) = x"
  using assms by (rule quad_cases) (simp add: htonl_quad)

lemma take_bit_32_id: "0 \<le> x \<Longrightarrow> x < 2 ^ 32 \<Longrightarrow> take_bit 32 x = (x :: int)"
  by (simp add: take_bit_int_eq_self)

lemma mem32_quad:
  assumes "byte_range a" "byte_range b" "byte_range c" "byte_range d"
  shows "mem32 (quad a b c d) = map (\<lambda>x. char_of (nat x)) [a, b, c, d]"
proof -
  have "take_bit 32 (quad a b c d) = quad a b c d"
    using quad_bounds [OF assms] by (intro take_bit_32_id) blast+
  moreover have "quad a b c d div 256 ^ 1 mod 256 = b" "quad a b c d div 256 ^ 0 mod 256 = a"
    using quad_digits [OF assms] by simp_all
  ultimately show ?thesis using quad_digits(3,4) [OF assms] by (simp only: mem32_def list.map)
qed

lemma take_bit_wrap: "take_bit 32 (signed_take_bit 31 x) = take_bit 32 (x :: int)"
  by (simp add: take_bit_signed_take_bit)

lemma mem32_wrap: "mem32 (signed_take_bit 31 x) = mem32 x"
  by (simp add: mem32_def take_bit_wrap)

lemma uchar_char_of: "byte_range x \<Longrightarrow> uchar (char_of (nat x)) = x"
  by (simp add: uchar_def byte_range_def nat_mod_as_int)

lemma int_of_mem32_mem32: 
  assumes "0 \<le> x" "x < 2 ^ 32" shows "take_bit 32 (int_of_mem32 (mem32 x)) = x"
  using assms
proof (rule quad_cases)
  fix a b c d
  assume r: "byte_range a" "byte_range b" "byte_range c" "byte_range d" and x: "x = quad a b c d"
  have "take_bit 32 (int_of_mem32 (mem32 x)) = take_bit 32 (a + 256 * b + 256 ^ 2 * c + 256 ^ 3 * d)"
    unfolding x using r by (simp add: int_of_mem32_def take_bit_wrap mem32_quad uchar_char_of)
  also have "a + 256 * b + 256 ^ 2 * c + 256 ^ 3 * d = x"
    unfolding x by (simp add: quad_def)
  finally show ?thesis using assms by (simp add: take_bit_32_id)
qed
end
