(* ===== verification/Comm_Socket_Spec.thy ===== *)
theory Comm_Socket_Spec
  imports Comm_Socket
begin

text \<open>
  What the socket layer promises. The abstract view of a message exchange is \<open>frame\<close>: four length
  bytes, highest first, then the data. Exact transfer, framing, the round trip of a message through
  any chunking the kernel chooses, the wait functions' results, the mode switches, and the error
  paths of \<open>Server_init\<close> and \<open>Server_accept\<close>.
\<close>

definition be32 :: "int \<Rightarrow> string" where
  "be32 x = map (\<lambda>i. char_of (nat (x div 256 ^ i mod 256))) [3, 2, 1, 0]"

definition frame :: "string \<Rightarrow> string" where
  "frame data = be32 (int (length data)) @ data"

section \<open>Framing\<close>

lemma mem32_htonl: 
  assumes "0 \<le> x" "x < 2 ^ 32" shows "mem32 (htonl x) = be32 x"
  using assms
proof (rule quad_cases)
  fix a b c d
  assume r: "byte_range a" "byte_range b" "byte_range c" "byte_range d" and x: "x = quad a b c d"
  have "x div 256 ^ 1 mod 256 = b" "x div 256 ^ 0 mod 256 = a" "x div 256 ^ 2 mod 256 = c"
    "x div 256 ^ 3 mod 256 = d"
    using quad_digits [OF r] x by simp_all
  then show ?thesis
    unfolding be32_def x by (simp only: htonl_quad [OF r] mem32_quad [OF r(4,3,2,1)] list.map)
qed

lemma length_be32 [simp]: "length (be32 x) = 4"
  by (simp add: be32_def)

lemma sent_length_field:
  "int (length data) < 2 ^ 31 \<Longrightarrow>
   mem32 (signed_take_bit 31 (htonl (take_bit 32 (int (length data))))) = be32 (int (length data))"
  by (simp add: mem32_wrap take_bit_32_id mem32_htonl)

lemma received_length_field:
  assumes "0 \<le> x" "x < 2 ^ 31"
  shows "signed_take_bit 31 (htonl (take_bit 32 (int_of_mem32 (be32 x)))) = x"
proof -
  have x: "0 \<le> x" "x < 2 ^ 32" using assms by simp_all
  have "take_bit 32 (int_of_mem32 (mem32 (htonl x))) = htonl x"
    using int_of_mem32_mem32 htonl_bounds [OF x] by blast
  with x assms show ?thesis
    by (simp add: mem32_htonl htonl_htonl signed_take_bit_id)
qed

section \<open>Exact transfers under every oracle\<close>

text \<open>The rounds of the two loops as induction rules, for results that are known to exist.\<close>

lemma writen_loop_induct [consumes 1, case_names finished interrupted failed sent]:
  assumes "writen_loop fd count bufp w = Some res"
    and "\<And>w. P [] w (int count, w)"
    and "\<And>bufp w n w' res. bufp \<noteq> [] \<Longrightarrow> sys_write fd bufp w = (n, w') \<Longrightarrow> n < 0 \<Longrightarrow> errno w' = EINTR \<Longrightarrow>
      P bufp w' res \<Longrightarrow> P bufp w res"
    and "\<And>bufp w n w'. bufp \<noteq> [] \<Longrightarrow> sys_write fd bufp w = (n, w') \<Longrightarrow> n < 0 \<Longrightarrow> errno w' \<noteq> EINTR \<Longrightarrow> P bufp w (-1, w')"
    and "\<And>bufp w n w' res. bufp \<noteq> [] \<Longrightarrow> sys_write fd bufp w = (n, w') \<Longrightarrow> 0 \<le> n \<Longrightarrow> P (drop (nat n) bufp) w' res \<Longrightarrow> P bufp w res"
  shows "P bufp w res"
proof (rule writen_loop.raw_induct [where P = "\<lambda>fd' count' bufp w res. fd' = fd \<and> count' = count \<longrightarrow> P bufp w res",
      OF _ assms(1), THEN mp, OF _ conjI [OF refl refl]], goal_cases)
  case (1 loop fd' count' bufp w res)
  have IH: "P b v r" if "loop fd count b v = Some r" for b v r using 1(1) [OF that] by simp
  obtain n w' where wr: "sys_write fd bufp w = (n, w')" by (cases "sys_write fd bufp w")
  show ?case
  proof (cases "bufp = []")
    case True
    with 1(2) assms(2) show ?thesis by auto
  next
    case False
    {
      assume "fd' = fd" "count' = count"
      with 1(2) False wr consider "n < 0" "errno w' = EINTR" "loop fd count bufp w' = Some res"
        | "n < 0" "errno w' \<noteq> EINTR" "res = (-1, w')" | "0 \<le> n" "loop fd count (drop (nat n) bufp) w' = Some res"
        by (fastforce split: if_split_asm)
      then have "P bufp w res" using assms(3-5) [OF False wr] IH by cases blast+
    }
    then show ?thesis by blast
  qed
qed

lemma readn_loop_induct [consumes 1, case_names finished interrupted failed ended more]:
  assumes "readn_loop fd count nleft buf w = Some res"
    and "\<And>buf w. P 0 buf w (int count, buf, w)"
    and "\<And>nleft buf w n d w' res. 0 < nleft \<Longrightarrow> sys_read fd nleft w = (n, d, w') \<Longrightarrow> n < 0 \<Longrightarrow> errno w' = EINTR \<Longrightarrow>
      P nleft buf w' res \<Longrightarrow> P nleft buf w res"
    and "\<And>nleft buf w n d w'. 0 < nleft \<Longrightarrow> sys_read fd nleft w = (n, d, w') \<Longrightarrow> n < 0 \<Longrightarrow> errno w' \<noteq> EINTR \<Longrightarrow>
      P nleft buf w (-1, buf, w')"
    and "\<And>nleft buf w d w'. 0 < nleft \<Longrightarrow> sys_read fd nleft w = (0, d, w') \<Longrightarrow> P nleft buf w (int (count - nleft), buf, w')"
    and "\<And>nleft buf w n d w' res. 0 < nleft \<Longrightarrow> sys_read fd nleft w = (n, d, w') \<Longrightarrow> 0 < n \<Longrightarrow>
      P (nleft - nat n) (buf @ d) w' res \<Longrightarrow> P nleft buf w res"
  shows "P nleft buf w res"
proof (rule readn_loop.raw_induct [where P = "\<lambda>fd' count' nleft buf w res. fd' = fd \<and> count' = count \<longrightarrow> P nleft buf w res",
      OF _ assms(1), THEN mp, OF _ conjI [OF refl refl]], goal_cases)
  case (1 loop fd' count' nleft buf w res)
  have IH: "P m b v r" if "loop fd count m b v = Some r" for m b v r using 1(1) [OF that] by simp
  obtain n d w' where rd: "sys_read fd nleft w = (n, d, w')" by (cases "sys_read fd nleft w")
  show ?case
  proof (cases "nleft = 0")
    case True
    with 1(2) assms(2) show ?thesis by auto
  next
    case False
    then have pos: "0 < nleft" by simp
    {
      assume "fd' = fd" "count' = count"
      with 1(2) pos rd consider "n < 0" "errno w' = EINTR" "loop fd count nleft buf w' = Some res"
        | "n < 0" "errno w' \<noteq> EINTR" "res = (-1, buf, w')" | "n = 0" "res = (int (count - nleft), buf, w')"
        | "0 < n" "loop fd count (nleft - nat n) (buf @ d) w' = Some res"
        by (fastforce split: if_split_asm)
      then have "P nleft buf w res" using assms(3,4,6) [OF pos rd] assms(5) [OF pos] rd IH by cases blast+
    }
    then show ?thesis by blast
  qed
qed

lemma writen_loop_sound:
  assumes "writen_loop fd count bufp w = Some r"
  shows "fst r = int count \<and> outq (snd r) = (outq w)(fd := outq w fd @ bufp) \<or>
    fst r = -1 \<and> (\<exists>k \<le> length bufp. outq (snd r) = (outq w)(fd := outq w fd @ take k bufp))"
  using assms
proof (induction rule: writen_loop_induct)
  case (interrupted bufp w n w' res)
  then have "outq w' = outq w" by (auto elim: sys_write_cases)
  with interrupted.IH show ?case by simp
next
  case (failed bufp w n w')
  then have "outq w' = (outq w)(fd := outq w fd @ take 0 bufp)" by (auto elim: sys_write_cases)
  then show ?case by (metis fst_conv snd_conv le0)
next
  case (sent bufp w n w' res)
  then have n: "nat n \<le> length bufp" "outq w' = (outq w)(fd := outq w fd @ take (nat n) bufp)" by (auto elim: sys_write_cases)
  from sent.IH show ?case
  proof (elim disjE conjE exE)
    fix j
    assume j: "fst res = -1" "j \<le> length (drop (nat n) bufp)"
      "outq (snd res) = (outq w')(fd := outq w' fd @ take j (drop (nat n) bufp))"
    with n have "outq (snd res) = (outq w)(fd := outq w fd @ take (nat n + j) bufp)" by (simp add: take_add)
    moreover have "nat n + j \<le> length bufp" using n(1) j(2) by simp
    ultimately show ?thesis using j(1) by blast
  qed (auto simp: n(2))
qed simp

text \<open>The outcome of \<open>readn_loop\<close>: some number \<open>k\<close> of bytes moved from the stream to the buffer.\<close>

definition read_outcome ::
  "int \<Rightarrow> nat \<Rightarrow> nat \<Rightarrow> string \<Rightarrow> os \<Rightarrow> int \<times> string \<times> os \<Rightarrow> nat \<Rightarrow> bool" where
  "read_outcome fd count nleft buf w res k \<longleftrightarrow>
     (case res of (r, out, w') \<Rightarrow>
        k \<le> nleft \<and> k \<le> length (inq w fd) \<and> out = buf @ take k (inq w fd) \<and>
        inq w' = (inq w)(fd := drop k (inq w fd)) \<and>
        (r = -1 \<or> r = int (count - nleft + k) \<and> (k = nleft \<or> inq w' fd = [])))"

lemma read_outcome_shift:
  assumes "read_outcome fd count (nleft - l) (buf @ take l (inq w fd)) w1 res k"
    and "inq w1 = (inq w)(fd := drop l (inq w fd))" "l \<le> nleft" "l \<le> length (inq w fd)" "nleft \<le> count"
  shows "read_outcome fd count nleft buf w res (l + k)"
proof -
  obtain r out w' where res: "res = (r, out, w')" by (cases res)
  let ?s = "inq w fd"
  have t: "take l ?s @ take k (drop l ?s) = take (l + k) ?s" by (simp add: take_add)
  have d: "drop k (drop l ?s) = drop (l + k) ?s" by (simp add: add.commute)
  have i: "inq w1 fd = drop l ?s" "(inq w1)(fd := x) = (inq w)(fd := x)" for x
    using assms(2) by simp_all
  from assms(1) have "k \<le> nleft - l" "k \<le> length ?s - l" "out = buf @ take (l + k) ?s"
    "inq w' = (inq w)(fd := drop (l + k) ?s)"
    "r = -1 \<or> r = int (count - (nleft - l) + k) \<and> (k = nleft - l \<or> inq w' fd = [])"
    unfolding read_outcome_def res prod.case i d append_assoc t length_drop by blast+
  moreover have "count - (nleft - l) + k = count - nleft + (l + k)" using assms(3,5) by simp
  ultimately show ?thesis
    unfolding read_outcome_def res using assms(3,4) by auto
qed

lemma readn_loop_sound:
  assumes "readn_loop fd count nleft buf w = Some res" "nleft \<le> count"
  shows "\<exists>k. read_outcome fd count nleft buf w res k"
  using assms
proof (induction rule: readn_loop_induct)
  case (finished buf w)
  have "read_outcome fd count 0 buf w (int count, buf, w) 0" by (simp add: read_outcome_def)
  then show ?case by blast
next
  case (interrupted nleft buf w n d w' res)
  then have "inq w' = inq w" by (auto elim: sys_read_cases)
  with interrupted.IH [OF interrupted.prems] show ?case by (auto simp: read_outcome_def)
next
  case (failed nleft buf w n d w')
  then have "inq w' = inq w" by (auto elim: sys_read_cases)
  then have "read_outcome fd count nleft buf w (-1, buf, w') 0" by (simp add: read_outcome_def)
  then show ?case by blast
next
  case (ended nleft buf w d w')
  then have "inq w fd = []" "inq w' = (inq w)(fd := [])" by (auto simp: min_def split: if_split_asm elim!: sys_read_cases)
  then have "read_outcome fd count nleft buf w (int (count - nleft), buf, w') 0" by (simp add: read_outcome_def)
  then show ?case by blast
next
  case (more nleft buf w n d w' res)
  define l where "l = length d"
  have l: "l \<le> nleft" "l \<le> length (inq w fd)" "d = take l (inq w fd)" "nat n = l" "inq w' = (inq w)(fd := drop l (inq w fd))"
    using more.hyps by (auto simp: l_def min_def elim!: sys_read_cases)
  have "nleft - nat n \<le> count" using more.prems by simp
  from more.IH [OF this] l(4) obtain k where "read_outcome fd count (nleft - l) (buf @ d) w' res k" by auto
  then have "read_outcome fd count nleft buf w res (l + k)" using l more.prems by (intro read_outcome_shift) simp_all
  then show ?case by blast
qed

section \<open>Frames of the waits\<close>

lemma select_loop_frame:
  assumes "select_loop w = Some res"
  shows "ans (snd res) = ans w \<and> tick w < tick (snd res) \<and> inq (snd res) = inq w \<and>
    outq (snd res) = outq w \<and> live (snd res) = live w \<and> closed (snd res) = closed w"
    (is "?P w res")
proof (rule select_loop.raw_induct [OF _ assms, where P = ?P])
  fix loop w res
  assume IH: "\<And>w res. loop w = Some res \<Longrightarrow> ?P w res"
    and eq: "(case sys_select w of (ret, w') \<Rightarrow>
        if ret < 0 \<and> errno w' = EINTR then loop w' else Some (ret, w')) = Some res"
  obtain r w' where sc: "sys_call w = (r, w')" by (cases "sys_call w")
  note f = sys_call_frame [OF sc]
  show "?P w res"
  proof (cases "r < 0 \<and> errno w' = EINTR")
    case True
    with eq sc have "loop w' = Some res" by simp
    from IH [OF this] f show ?thesis by simp
  next
    case False
    with eq sc f show ?thesis by auto
  qed
qed

lemma write_timeout_frame:
  assumes "write_timeout fd s w = Some (r, w')"
  shows "ans w' = ans w" "tick w \<le> tick w'" "inq w' = inq w" "outq w' = outq w" "live w' = live w"
  using assms
  by (auto simp: write_timeout_def dest!: select_loop_frame split: if_splits option.splits)

lemma read_timeout_eq_write_timeout: "read_timeout = write_timeout"
  by (intro ext) (simp add: read_timeout_def write_timeout_def)

lemma writen_loop_live:
  assumes "writen_loop fd count bufp w = Some res"
  shows "live (snd res) = live w"
  using assms by (induction rule: writen_loop_induct) (simp_all add: sys_write_frame(7))

section \<open>Sending and receiving messages\<close>

lemma Server_send_ok:
  assumes "Server_send fd data t w = Some (0, w')" "int (length data) < 2 ^ 31"
  shows "outq w' = (outq w)(fd := outq w fd @ frame data) \<and> live w' = live w + 1"
proof -
  obtain r w1 where wt: "write_timeout fd (take_bit 32 t) w = Some (r, w1)"
    using assms(1) by (auto simp: Server_send_def split: option.splits)
  have r: "r = 0"
    using assms(1) by (auto simp: Server_send_def wt sck_codes split: if_splits)
  obtain ok w2 where m: "sys_malloc w1 = (ok, w2)" by (cases "sys_malloc w1")
  have ok: "ok" using assms(1) by (cases ok) (auto simp: Server_send_def wt r m sck_codes)
  with m have w2: "outq w2 = outq w1" "live w2 = live w1 + 1"
    by (auto simp: sys_malloc_def sys_call_def Let_def split: if_splits)
  obtain n w3 where wn: "writen_loop fd (length (frame data)) (frame data) w2 = Some (n, w3)"
    and res: "(if n < int (length data) + 4 then (n, sys_free w3) else (0, w3)) = (0, w')"
    using assms by (auto simp: Server_send_def wt r m ok sent_length_field frame_def writen_def
        Let_def split: option.splits if_splits)
  from writen_loop_sound [OF wn] res
  have o3: "outq w3 = (outq w2)(fd := outq w2 fd @ frame data)" and w': "w' = w3"
    by (auto simp: frame_def split: if_splits)
  have "live w3 = live w2" using writen_loop_live [OF wn] by simp
  then show ?thesis
    using o3 w' w2 write_timeout_frame [OF wt] by simp
qed

lemma readn_fair:
  assumes "fair answers w"
  obtains n e where "tick w \<le> n"
    "readn fd count w = Some (int (length (take count (inq w fd))), take count (inq w fd),
       w\<lparr>tick := n, errno := e, inq := (inq w)(fd := drop count (inq w fd))\<rparr>)"
  using readn_loop_fair [OF assms order_refl, of fd count "[]"] by (auto simp: readn_def)

lemma Server_rev_frame:
  assumes "fair answers v" "inq v fd = frame data @ rest" "int (length data) < 2 ^ 31"
  shows "\<exists>v'. Server_rev fd True 0 v = Some (0, data, Some (int (length data)), v') \<and> inq v' fd = rest"
proof -
  let ?h = "be32 (int (length data))"
  obtain n e where n: "tick v \<le> n" and r1: "readn fd 4 v = Some (4, ?h,
      v\<lparr>tick := n, errno := e, inq := (inq v)(fd := data @ rest)\<rparr>)"
    using readn_fair [OF assms(1), of fd 4] assms(2) by (auto simp: frame_def)
  let ?v = "v\<lparr>tick := n, errno := e, inq := (inq v)(fd := data @ rest)\<rparr>"
  have "fair answers ?v" by (rule fair_later [OF assms(1)]) (use n in simp_all)
  from readn_fair [OF this, of fd "length data"]
  obtain n' e' where "readn fd (length data) ?v =
      Some (int (length (take (length data) (inq ?v fd))), take (length data) (inq ?v fd),
        ?v\<lparr>tick := n', errno := e', inq := (inq ?v)(fd := drop (length data) (inq ?v fd))\<rparr>)"
    by blast
  then have r2: "readn fd (length data) ?v = Some (int (length data), data,
      ?v\<lparr>tick := n', errno := e', inq := (inq ?v)(fd := rest)\<rparr>)"
    by simp
  have len: "signed_take_bit 31 (htonl (take_bit 32 (int_of_mem32 ?h))) = int (length data)"
    by (rule received_length_field) (use assms(3) in simp_all)
  have "nat (take_bit 64 (int (length data))) = length data"
    using assms(3) by (simp add: take_bit_int_eq_self)
  moreover have "signed_take_bit 31 (int (length data)) = int (length data)"
    using assms(3) by (intro signed_take_bit_id) simp_all
  ultimately have "Server_rev fd True 0 v = Some (0, data, Some (int (length data)),
      ?v\<lparr>tick := n', errno := e', inq := (inq ?v)(fd := rest)\<rparr>)"
    by (simp add: Server_rev_def read_timeout_def r1 len r2 Let_def)
  then show ?thesis by auto
qed

section \<open>The properties of the socket layer\<close>

lemma os_with_simps [simp]:
  "ans (os_with r s) k = \<lparr>sr_ret = r, sr_errno = 4\<rparr>" "tick (os_with r s) = 0" "inq (os_with r s) fd = s"
  "outq (os_with r s) fd = []" "flags (os_with r s) fd = 2" "live (os_with r s) = 0"
  "closed (os_with r s) = []"
  by (simp_all add: os_with_def)

lemma fair_os_with: "good \<lparr>sr_ret = r, sr_errno = 4\<rparr> \<Longrightarrow> fair good (os_with r s)"
  by (auto simp: fair_def)

lemma readn_result:
  assumes "fair answers w"
  shows "\<exists>w'. readn fd count w =
      Some (int (min count (length (inq w fd))), take count (inq w fd), w') \<and>
    inq w' = (inq w)(fd := drop count (inq w fd))"
proof -
  obtain n e where "readn fd count w = Some (int (length (take count (inq w fd))), take count (inq w fd),
      w\<lparr>tick := n, errno := e, inq := (inq w)(fd := drop count (inq w fd))\<rparr>)"
    using readn_fair [OF assms, of fd count] by blast
  then show ?thesis by (simp add: min.commute)
qed

text \<open>\<open>readn\<close> terminates under every fair kernel and delivers exactly the first \<open>count\<close> bytes of the
  stream (all of it when the peer closes earlier), in order, however the kernel cuts them up.\<close>

theorem readn_exact:
  assumes "fair answers w"
  shows "\<exists>w'. readn fd count w =
      Some (int (min count (length (inq w fd))), take count (inq w fd), w') \<and>
    inq w' = (inq w)(fd := drop count (inq w fd))"
  using assms by (rule readn_result)

theorem readn_exact_witness:
  "fair answers (os_with 2 ''weather'') \<and>
   (\<exists>w'. readn 5 4 (os_with 2 ''weather'') = Some (4, ''weat'', w') \<and> inq w' 5 = ''her'')"
proof -
  have f: "fair answers (os_with 2 ''weather'')" by (rule fair_os_with) (simp add: answers_def)
  from readn_exact [OF f, of 5 4] f show ?thesis by auto
qed

text \<open>Whatever the kernel does, \<open>writen\<close> never reorders, repeats or drops bytes: when it returns the
  count, exactly the buffer was appended to the stream, and when it fails, a prefix of it was. Under a
  fair kernel it does return the count.\<close>

theorem writen_exact:
  "(\<forall>r w'. writen fd buf w = Some (r, w') \<longrightarrow>
      r = int (length buf) \<and> outq w' = (outq w)(fd := outq w fd @ buf) \<or>
      r = -1 \<and> (\<exists>k \<le> length buf. outq w' = (outq w)(fd := outq w fd @ take k buf))) \<and>
   (fair progresses w \<longrightarrow> (\<exists>w'. writen fd buf w = Some (int (length buf), w')))"
proof (intro conjI allI impI)
  fix r w'
  assume "writen fd buf w = Some (r, w')"
  from writen_loop_sound [OF this [unfolded writen_def]]
  show "r = int (length buf) \<and> outq w' = (outq w)(fd := outq w fd @ buf) \<or>
      r = -1 \<and> (\<exists>k \<le> length buf. outq w' = (outq w)(fd := outq w fd @ take k buf))"
    by simp
next
  assume "fair progresses w"
  from writen_loop_fair [OF this, of fd "length buf" buf]
  show "\<exists>w'. writen fd buf w = Some (int (length buf), w')" by (auto simp: writen_def)
qed

theorem writen_exact_witness:
  "fair progresses (os_with 1 []) \<and> (\<exists>w'. writen 3 ''ok'' (os_with 1 []) = Some (2, w') \<and> outq w' 3 = ''ok'')"
proof -
  have f: "fair progresses (os_with 1 [])" by (rule fair_os_with) (simp add: progresses_def)
  with writen_exact [of 3 "''ok''" "os_with 1 []"]
  obtain w' where w: "writen 3 ''ok'' (os_with 1 []) = Some (2, w')" by auto
  with writen_exact [of 3 "''ok''" "os_with 1 []"] have "outq w' 3 = ''ok''" by auto
  with f w show ?thesis by blast
qed



text \<open>A message cut short, at any byte of its frame, is reported as a closed peer and no length is
  stored.\<close>

theorem Server_rev_truncated:
  assumes "fair answers v" and "inq v fd = take k (frame data)" and "k < length (frame data)"
    and "int (length data) < 2 ^ 31"
  shows "\<exists>out v'. Server_rev fd True 0 v = Some (Sck_ErrPeerClosed, out, None, v')"
proof (cases "k < 4")
  case True
  with readn_result [OF assms(1), of fd 4] assms(2)
  show ?thesis by (auto simp: Server_rev_def read_timeout_def frame_def min_def)
next
  case False
  let ?d = "take (k - 4) data"
  have s: "inq v fd = be32 (int (length data)) @ ?d"
    using False assms(2) by (simp add: frame_def)
  obtain n e where n: "tick v \<le> n" and "readn fd 4 v =
      Some (int (length (take 4 (inq v fd))), take 4 (inq v fd),
        v\<lparr>tick := n, errno := e, inq := (inq v)(fd := drop 4 (inq v fd))\<rparr>)"
    using readn_fair [OF assms(1), of fd 4] by blast
  with s have r1: "readn fd 4 v = Some (4, be32 (int (length data)),
      v\<lparr>tick := n, errno := e, inq := (inq v)(fd := ?d)\<rparr>)" by simp
  let ?v = "v\<lparr>tick := n, errno := e, inq := (inq v)(fd := ?d)\<rparr>"
  have "fair answers ?v" by (rule fair_later [OF assms(1)]) (use n in simp_all)
  from readn_result [OF this, of fd "length data"]
  obtain w' where r2: "readn fd (length data) ?v = Some (int (length ?d), ?d, w')"
    by (auto simp: min_def)
  have short: "length ?d < length data" using False assms(3) by (simp add: frame_def)
  have len: "signed_take_bit 31 (htonl (take_bit 32 (int_of_mem32 (be32 (int (length data)))))) = int (length data)"
    by (rule received_length_field) (use assms(4) in simp_all)
  have "nat (take_bit 64 (int (length data))) = length data"
    using assms(4) by (simp add: take_bit_int_eq_self)
  moreover have "signed_take_bit 31 (int (length ?d)) = int (length ?d)"
    using assms(4) short by (intro signed_take_bit_id) linarith+
  ultimately show ?thesis
    using short by (simp add: Server_rev_def read_timeout_def r1 len r2 Let_def)
qed

theorem Server_rev_truncated_witness:
  "\<exists>out v'. Server_rev 4 True 0 (os_with 3 (take 5 (frame ''hello''))) = Some (Sck_ErrPeerClosed, out, None, v')"
  by (rule Server_rev_truncated [where data = "''hello''" and k = 5, OF fair_os_with])
     (simp_all add: answers_def frame_def)

text \<open>\<open>activate_nonblock\<close> sets the non-blocking bit and \<open>deactivate_nonblock\<close> clears it; neither touches
  another flag or another descriptor, and a failure leaves every flag as it was.\<close>

theorem nonblock_modes:
  "(case activate_nonblock fd w of (r, w') \<Rightarrow>
      (r = 0 \<longrightarrow> (\<forall>n. bit (flags w' fd) n \<longleftrightarrow> n = 11 \<or> bit (flags w fd) n)) \<and>
      (r \<noteq> 0 \<longrightarrow> r = -1 \<and> flags w' = flags w) \<and> (\<forall>g. g \<noteq> fd \<longrightarrow> flags w' g = flags w g)) \<and>
   (case deactivate_nonblock fd w of (r, w') \<Rightarrow>
      (r = 0 \<longrightarrow> (\<forall>n. bit (flags w' fd) n \<longleftrightarrow> n \<noteq> 11 \<and> bit (flags w fd) n)) \<and>
      (r \<noteq> 0 \<longrightarrow> r = -1 \<and> flags w' = flags w) \<and> (\<forall>g. g \<noteq> fd \<longrightarrow> flags w' g = flags w g))"
proof -
  have b: "bit (2048 :: int) n \<longleftrightarrow> n = 11" for n
    using bit_exp_iff [of 11 n, where 'a = int] by simp
  have nb: "bit (- 2049 :: int) n \<longleftrightarrow> n \<noteq> 11" for n
    using bit_not_iff [of "2048 :: int" n] b [of n] by simp
  show ?thesis
    by (auto simp: activate_nonblock_def deactivate_nonblock_def sys_getfl_def sys_setfl_def
        sys_call_def Let_def bit_or_iff bit_and_iff b nb split: if_splits)
qed

theorem nonblock_modes_witness:
  "\<exists>w1 w2. activate_nonblock 7 (os_with 0 []) = (0, w1) \<and> flags w1 7 = 2050 \<and>
     deactivate_nonblock 7 w1 = (0, w2) \<and> \<not> bit (flags w2 7) 11"
proof -
  obtain w1 where w1: "activate_nonblock 7 (os_with 0 []) = (0, w1)" "flags w1 7 = 2050" "ans w1 = ans (os_with 0 [])"
    by (auto simp: activate_nonblock_def sys_getfl_def sys_setfl_def sys_call_ok)
  obtain r w2 where d: "deactivate_nonblock 7 w1 = (r, w2)" by (cases "deactivate_nonblock 7 w1")
  have "r = 0" using d w1 by (auto simp: deactivate_nonblock_def sys_getfl_def sys_setfl_def sys_call_ok)
  with nonblock_modes [of 7 w1] d have "\<not> bit (flags w2 7) 11" by auto
  with w1 d \<open>r = 0\<close> show ?thesis by blast
qed

text \<open>\<open>Server_init\<close> returns a descriptor exactly when the socket was created, configured, bound to the given
  port (in network order) and set to listen, and -1 otherwise; it never closes the socket it created, so
  a failure after \<open>socket\<close> leaks it.\<close>

theorem Server_init_result:
  assumes "Server_init inet_addr ip port w = (fd, w')"
  shows "closed w' = closed w \<and>
    (fd = -1 \<or> 0 \<le> fd \<and> (\<exists>ip'. ip = Some ip' \<and>
       bound w' fd = Some \<lparr>sin_family = 2, sin_port = htons port, sin_addr = inet_addr ip'\<rparr>)) \<and>
    (fd = -1 \<longleftrightarrow> ip = None \<or> (\<exists>k < 4. sr_ret (ans w (tick w + k)) < 0))"
proof (cases ip)
  case None
  with assms show ?thesis by (simp add: Server_init_def)
next
  case (Some ip')
  have four: "(\<exists>k < 4. P k) \<longleftrightarrow> P 0 \<or> P 1 \<or> P 2 \<or> P (3 :: nat)" for P
    by (auto simp: less_Suc_eq numeral_eq_Suc)
  show ?thesis
    unfolding four using assms Some
    by (auto simp: Server_init_def sys_bind_def sys_call_def Let_def numeral_2_eq_2 numeral_3_eq_3
        split: if_splits)
qed

theorem Server_init_result_witness:
  "\<exists>w'. Server_init (\<lambda>_. 16777343) (Some ''127.0.0.1'') 9000 (os_with 3 []) = (3, w') \<and>
     bound w' 3 = Some \<lparr>sin_family = 2, sin_port = 10275, sin_addr = 16777343\<rparr>"
proof -
  obtain w' where w': "Server_init (\<lambda>_. 16777343) (Some ''127.0.0.1'') 9000 (os_with 3 []) = (3, w')"
    by (auto simp: Server_init_def sys_bind_def sys_call_ok)
  from Server_init_result [OF w'] w' show ?thesis by (simp add: htons_def)
qed

text \<open>A failing \<open>accept\<close> is reported by \<open>Server_accept\<close> as the error number itself, which is the value a
  successful accept of that descriptor would return: the caller cannot tell the two apart.\<close>

theorem Server_accept_error_as_descriptor:
  assumes "0 \<le> listenfd" and "0 \<le> e"
    and "ans w1 (tick w1) = \<lparr>sr_ret = -1, sr_errno = e\<rparr>" and "ans w2 (tick w2) = \<lparr>sr_ret = e, sr_errno = x\<rparr>"
  shows "map_option fst (Server_accept listenfd 0 w1) = Some e \<and>
    map_option fst (Server_accept listenfd 0 w2) = Some e"
  using assms by (simp add: Server_accept_def accept_timeout_def sys_call_def)

theorem Server_accept_error_as_descriptor_witness:
  "map_option fst (Server_accept 3 0 (os_with (-1) [])) = Some 4 \<and>
   map_option fst (Server_accept 3 0 (os_with 4 [])) = Some 4"
  by (rule Server_accept_error_as_descriptor [where x = 4]) simp_all

end
