(* ===== verification/Http_Line.thy ===== *)
theory Http_Line
  imports Sys_Calls
begin

text \<open>
  \<open>httpd.c\<close>, reading a request: \<open>get_line\<close> and \<open>clear_header\<close>.

  Buffers are lists of bytes of the array's size. Storing or reading outside an array is undefined
  behaviour and makes the result \<open>None\<close>; so does, for \<open>clear_header\<close>, a loop that never ends.
  \<open>get_line\<close> itself always terminates: every round either stores a byte or ends the loop.

  The reference for the line discipline is \<open>next_line\<close>: a line ends at LF, CR LF or a lone CR, its
  terminator is stored as LF, and at most \<open>n\<close> bytes are stored.
\<close>

section \<open>get\_line\<close>

text \<open>The bound of the loop is \<open>max_len - 1\<close> in the unsigned 64-bit type \<open>size_t\<close>.\<close>

definition line_limit :: "nat \<Rightarrow> nat" where
  "line_limit max_len = (max_len + 2 ^ 64 - 1) mod 2 ^ 64"

definition store :: "char list \<Rightarrow> nat \<Rightarrow> char \<Rightarrow> char list option" where
  "store buf i c = (if i < length buf then Some (buf[i := c]) else None)"

text \<open>The byte the third \<open>recv\<close> leaves in \<open>c\<close>: a failing call leaves the peeked LF.\<close>

definition recv_into :: "int \<Rightarrow> char \<Rightarrow> os \<Rightarrow> int \<times> char \<times> os" where
  "recv_into sock c w =
     (case sys_recv sock 1 w of (n, d, w') \<Rightarrow> (n, case d of [] \<Rightarrow> c | x # _ \<Rightarrow> x, w'))"

definition peek_into :: "int \<Rightarrow> char \<Rightarrow> os \<Rightarrow> int \<times> char \<times> os" where
  "peek_into sock c w =
     (case sys_peek sock 1 w of (n, d, w') \<Rightarrow> (n, case d of [] \<Rightarrow> c | x # _ \<Rightarrow> x, w'))"

text \<open>After a CR: swallow the LF of a CR LF pair; either way the line ends with LF.\<close>

definition after_cr :: "int \<Rightarrow> char \<Rightarrow> os \<Rightarrow> char \<times> os" where
  "after_cr sock c w =
     (case peek_into sock c w of (n, c1, w1) \<Rightarrow>
        if n > 0 \<and> c1 = LF then (case recv_into sock c1 w1 of (_, c2, w2) \<Rightarrow> (c2, w2))
        else (LF, w1))"

function get_line_loop ::
  "int \<Rightarrow> nat \<Rightarrow> nat \<Rightarrow> char \<Rightarrow> char list \<Rightarrow> os \<Rightarrow> (nat \<times> char list \<times> os) option" where
  "get_line_loop sock lim i c buf w =
     (if i < lim \<and> c \<noteq> LF then
        (case recv_into sock c w of (n, c1, w1) \<Rightarrow>
           if n > 0 then
             (case (if c1 = CR then after_cr sock c1 w1 else (c1, w1)) of (c2, w2) \<Rightarrow>
                (case store buf i c2 of
                   None \<Rightarrow> None
                 | Some buf' \<Rightarrow> get_line_loop sock lim (Suc i) c2 buf' w2))
           else get_line_loop sock lim i LF buf w1)
      else Some (i, buf, w))"
  by pat_completeness auto
termination
  by (relation "measure (\<lambda>(sock, lim, i, c, buf, w). (lim - i) + (if c = LF then 0 else 1))")
     (auto split: if_splits)

declare get_line_loop.simps [simp del]

definition get_line ::
  "int \<Rightarrow> char list option \<Rightarrow> nat \<Rightarrow> os \<Rightarrow> (int \<times> char list \<times> os) option" where
  "get_line sock bufp max_len w =
     (case bufp of
        None \<Rightarrow> Some (0, [], w)
      | Some buf \<Rightarrow>
          (case get_line_loop sock (line_limit max_len) 0 NUL buf w of
             None \<Rightarrow> None
           | Some (i, buf', w') \<Rightarrow>
               (case store buf' i NUL of
                  None \<Rightarrow> None
                | Some buf'' \<Rightarrow> Some (1, buf'', w'))))"

section \<open>clear\_header\<close>

partial_function (option) clear_header_loop :: "int \<Rightarrow> char list \<Rightarrow> os \<Rightarrow> os option" where
  "clear_header_loop client buf w =
     (case get_line client (Some buf) (length buf) w of
        None \<Rightarrow> None
      | Some (ret, buf', w') \<Rightarrow>
          if ret > 0 \<and> strcmp (c_str buf') [LF] \<noteq> 0 then clear_header_loop client buf' w'
          else Some w')"

definition clear_header :: "int \<Rightarrow> os \<Rightarrow> os option" where
  "clear_header client w = clear_header_loop client (replicate 1024 NUL) w"

section \<open>The line discipline\<close>

fun next_line :: "nat \<Rightarrow> string \<Rightarrow> string \<times> string" where
  "next_line 0 s = ([], s)"
| "next_line (Suc n) [] = ([], [])"
| "next_line (Suc n) (c # s) =
     (if c = LF then ([LF], s)
      else if c = CR then ([LF], (case s of [] \<Rightarrow> [] | d # s' \<Rightarrow> if d = LF then s' else s))
      else (case next_line n s of (l, r) \<Rightarrow> (c # l, r)))"

text \<open>Overwriting the front of a buffer with a NUL-terminated line.\<close>

definition put_line :: "char list \<Rightarrow> string \<Rightarrow> char list" where
  "put_line buf l = l @ NUL # drop (Suc (length l)) buf"

section \<open>Memory safety and termination of get\_line\<close>

lemma line_limit_eq: "0 < n \<Longrightarrow> n \<le> 2 ^ 64 \<Longrightarrow> line_limit n = n - 1"
proof -
  assume n: "0 < n" "n \<le> 2 ^ 64"
  then have "n + 2 ^ 64 - 1 = (n - 1) + 2 ^ 64" by simp
  moreover have "n - 1 < 2 ^ 64" using n by simp
  ultimately show ?thesis unfolding line_limit_def by (simp only: mod_add_self2 mod_less)
qed

text \<open>What a step of the program may change of the world when it only reads from \<open>sock\<close>.\<close>

definition reads_only :: "int \<Rightarrow> os \<Rightarrow> os \<Rightarrow> bool" where
  "reads_only sock w w' \<longleftrightarrow>
     ans w' = ans w \<and> tick w \<le> tick w' \<and> outq w' = outq w \<and> closed w' = closed w \<and>
     flags w' = flags w \<and> bound w' = bound w \<and> live w' = live w \<and>
     (\<forall>g. g \<noteq> sock \<longrightarrow> inq w' g = inq w g) \<and> (\<exists>d. inq w sock = d @ inq w' sock)"

lemma reads_only_refl [simp]: "reads_only sock w w"
  by (simp add: reads_only_def)

lemma reads_only_trans: "reads_only sock w w1 \<Longrightarrow> reads_only sock w1 w2 \<Longrightarrow> reads_only sock w w2"
  unfolding reads_only_def by (auto; metis append_assoc)

lemma recv_into_reads_only: "recv_into sock c w = (n, c', w') \<Longrightarrow> reads_only sock w w'"
  by (cases "sys_read sock 1 w")
     (auto simp: recv_into_def reads_only_def elim!: sys_read_cases intro!: exI append_take_drop_id [symmetric])

lemma peek_into_reads_only: "peek_into sock c w = (n, c', w') \<Longrightarrow> reads_only sock w w'"
  by (auto simp: peek_into_def reads_only_def sys_peek_def sys_call_def Let_def split: prod.splits if_splits)

lemma after_cr_reads_only: "after_cr sock c w = (c', w') \<Longrightarrow> reads_only sock w w'"
  by (auto simp: after_cr_def split: prod.splits if_splits
      dest!: recv_into_reads_only peek_into_reads_only intro: reads_only_trans)

lemma get_line_loop_safe:
  assumes "i \<le> lim" "lim < length buf"
  shows "\<exists>i' buf' w'. get_line_loop sock lim i c buf w = Some (i', buf', w') \<and>
    i \<le> i' \<and> i' \<le> lim \<and> length buf' = length buf \<and> drop i' buf' = drop i' buf \<and>
    reads_only sock w w'"
  using assms
proof (induction sock lim i c buf w rule: get_line_loop.induct)
  case (1 sock lim i c buf w)
  show ?case
  proof (cases "i < lim \<and> c \<noteq> LF")
    case False
    with "1.prems" show ?thesis by (subst get_line_loop.simps) auto
  next
    case True
    obtain n c1 w1 where rc: "recv_into sock c w = (n, c1, w1)" by (cases "recv_into sock c w") auto
    note ro1 = recv_into_reads_only [OF rc]
    show ?thesis
    proof (cases "n > 0")
      case False
      from "1.IH"(2) [OF True rc [symmetric] refl False] "1.prems"
      obtain i' buf' w' where "get_line_loop sock lim i LF buf w1 = Some (i', buf', w')"
        "i \<le> i'" "i' \<le> lim" "length buf' = length buf" "drop i' buf' = drop i' buf" "reads_only sock w1 w'"
        by blast
      with True False rc reads_only_trans [OF ro1] show ?thesis
        by (subst get_line_loop.simps) simp
    next
      case pos: True
      obtain c2 w2 where c2: "(if c1 = CR then after_cr sock c1 w1 else (c1, w1)) = (c2, w2)"
        by (cases "if c1 = CR then after_cr sock c1 w1 else (c1, w1)") auto
      have ro2: "reads_only sock w w2"
        using c2 ro1 by (auto split: if_splits dest: after_cr_reads_only intro: reads_only_trans)
      have st: "store buf i c2 = Some (buf[i := c2])"
        using "1.prems" True by (simp add: store_def)
      have "Suc i \<le> lim" "lim < length (buf[i := c2])" using True "1.prems" by simp_all
      from "1.IH"(1) [OF True rc [symmetric] refl pos c2 [symmetric] st this]
      obtain i' buf' w' where "get_line_loop sock lim (Suc i) c2 (buf[i := c2]) w2 = Some (i', buf', w')"
        "Suc i \<le> i'" "i' \<le> lim" "length buf' = length buf" "drop i' buf' = drop i' (buf[i := c2])"
        "reads_only sock w2 w'"
        by auto
      with True pos rc c2 st reads_only_trans [OF ro2] show ?thesis
        by (subst get_line_loop.simps) (simp add: drop_update_cancel)
    qed
  qed
qed

lemma get_line_safe:
  assumes "0 < length buf" "length buf \<le> 2 ^ 64"
  shows "\<exists>buf' w'. get_line sock (Some buf) (length buf) w = Some (1, buf', w') \<and>
    length buf' = length buf \<and> NUL \<in> set buf' \<and> reads_only sock w w'"
proof -
  let ?lim = "line_limit (length buf)"
  have lim: "?lim = length buf - 1" by (rule line_limit_eq) (use assms in simp_all)
  then have "0 \<le> ?lim" "?lim < length buf" using assms by simp_all
  from get_line_loop_safe [OF this, of sock NUL w]
  obtain i buf' w' where loop: "get_line_loop sock ?lim 0 NUL buf w = Some (i, buf', w')"
    and i: "i \<le> ?lim" "length buf' = length buf" and ro: "reads_only sock w w'" by blast
  have "i < length buf'" using i(1) [unfolded lim] i(2) assms(1) by linarith
  then show ?thesis
    using loop i ro by (simp add: get_line_def store_def set_update_memI)
qed

section \<open>What get\_line reads when no call fails\<close>

definition eat :: "int \<Rightarrow> string \<Rightarrow> os \<Rightarrow> os \<Rightarrow> bool" where
  "eat sock s w w' \<longleftrightarrow> (\<exists>n \<ge> tick w. w' = w\<lparr>tick := n, inq := (inq w)(sock := s)\<rparr>)"

lemma eat_trans: "eat sock s w w1 \<Longrightarrow> eat sock t w1 w2 \<Longrightarrow> eat sock t w w2"
proof -
  assume "eat sock s w w1" "eat sock t w1 w2"
  then obtain n m where "tick w \<le> n" "w1 = w\<lparr>tick := n, inq := (inq w)(sock := s)\<rparr>"
    "tick w1 \<le> m" "w2 = w1\<lparr>tick := m, inq := (inq w1)(sock := t)\<rparr>"
    unfolding eat_def by blast
  then have "tick w \<le> m" "w2 = w\<lparr>tick := m, inq := (inq w)(sock := t)\<rparr>" by simp_all
  then show ?thesis unfolding eat_def by blast
qed

lemma eat_inq: "eat sock s w w' \<Longrightarrow> inq w' sock = s"
  by (auto simp: eat_def)

lemma eat_quiet: "eat sock s w w' \<Longrightarrow> quiet w \<Longrightarrow> quiet w'"
  by (auto simp: eat_def quiet_def)

lemma eat_tick: "eat sock (inq w sock) w (w\<lparr>tick := Suc (tick w)\<rparr>)"
  unfolding eat_def by (intro exI [of _ "Suc (tick w)"]) simp

lemma eat_refl: "eat sock (inq w sock) w w"
  unfolding eat_def by (intro exI [of _ "tick w"]) simp

lemma recv_into_quiet:
  assumes "quiet w"
  shows "\<exists>w'. recv_into sock c w =
      (case inq w sock of [] \<Rightarrow> (0, c, w') | x # xs \<Rightarrow> (1, x, w')) \<and> eat sock (tl (inq w sock)) w w'"
proof (cases "inq w sock")
  case Nil
  with assms eat_tick [of sock w] show ?thesis by (simp add: recv_into_def quiet_def sys_read_1 [simplified])
next
  case (Cons x xs)
  have "eat sock xs w (w\<lparr>tick := Suc (tick w), inq := (inq w)(sock := xs)\<rparr>)"
    unfolding eat_def by (intro exI [of _ "Suc (tick w)"]) simp
  with assms Cons show ?thesis by (simp add: recv_into_def quiet_def sys_read_1 [simplified])
qed

lemma peek_into_quiet:
  assumes "quiet w"
  shows "\<exists>w'. peek_into sock c w =
      (case inq w sock of [] \<Rightarrow> (0, c, w') | x # xs \<Rightarrow> (1, x, w')) \<and> eat sock (inq w sock) w w'"
  using assms eat_tick [of sock w]
  by (cases "inq w sock") (simp_all add: peek_into_def quiet_def sys_peek_1 [simplified])

lemma after_cr_quiet:
  assumes "quiet w"
  shows "\<exists>w'. after_cr sock c w = (LF, w') \<and>
    eat sock (case inq w sock of [] \<Rightarrow> [] | d # s \<Rightarrow> if d = LF then s else inq w sock) w w'"
proof -
  obtain w1 where w1: "peek_into sock c w =
      (case inq w sock of [] \<Rightarrow> (0, c, w1) | x # xs \<Rightarrow> (1, x, w1))" "eat sock (inq w sock) w w1"
    using peek_into_quiet [OF assms, of sock c] by blast
  show ?thesis
  proof (cases "\<exists>s. inq w sock = LF # s")
    case True
    then obtain s where s: "inq w sock = LF # s" by blast
    obtain w2 where "recv_into sock LF w1 =
        (case inq w1 sock of [] \<Rightarrow> (0, LF, w2) | x # xs \<Rightarrow> (1, x, w2))" "eat sock (tl (inq w1 sock)) w1 w2"
      using recv_into_quiet [OF eat_quiet [OF w1(2) assms], of sock LF] by blast
    with w1 s eat_inq [OF w1(2)] eat_trans [OF w1(2)] show ?thesis by (simp add: after_cr_def)
  next
    case False
    with w1 show ?thesis by (cases "inq w sock") (auto simp: after_cr_def)
  qed
qed

lemma put_one: "i < length buf \<Longrightarrow> take (Suc i) (buf[i := c]) = take i buf @ [c]"
  by (simp add: take_Suc_conv_app_nth)

lemma put_last: "i < length buf \<Longrightarrow> buf[i := c] = take i buf @ c # drop (Suc i) buf"
  by (simp add: upd_conv_take_nth_drop)

lemma get_line_loop_LF: "get_line_loop sock lim j LF buf w = Some (j, buf, w)"
  by (subst get_line_loop.simps) simp

text \<open>One round of the loop: the peer has closed, a character that ends the line, or another one.\<close>

lemma get_line_round:
  assumes "quiet w" "c \<noteq> LF" "i < lim" "lim < length buf"
  shows "inq w sock = [] \<Longrightarrow> \<exists>w1. get_line_loop sock lim i c buf w = Some (i, buf, w1) \<and> eat sock [] w w1"
    "inq w sock = LF # xs \<Longrightarrow> \<exists>w1. get_line_loop sock lim i c buf w = Some (Suc i, buf[i := LF], w1) \<and> eat sock xs w w1"
    "inq w sock = CR # xs \<Longrightarrow> \<exists>w1. get_line_loop sock lim i c buf w = Some (Suc i, buf[i := LF], w1) \<and>
      eat sock (case xs of [] \<Rightarrow> [] | d # s \<Rightarrow> if d = LF then s else xs) w w1"
    "inq w sock = x # xs \<Longrightarrow> x \<noteq> LF \<Longrightarrow> x \<noteq> CR \<Longrightarrow>
      \<exists>w1. get_line_loop sock lim i c buf w = get_line_loop sock lim (Suc i) x (buf[i := x]) w1 \<and> eat sock xs w w1"
proof -
  obtain w1 where w1: "recv_into sock c w =
      (case inq w sock of [] \<Rightarrow> (0, c, w1) | x # xs \<Rightarrow> (1, x, w1))" "eat sock (tl (inq w sock)) w w1"
    using recv_into_quiet [OF assms(1), of sock c] by blast
  have st: "store buf i y = Some (buf[i := y])" for y using assms(3,4) by (simp add: store_def)
  show "inq w sock = [] \<Longrightarrow> \<exists>w1. get_line_loop sock lim i c buf w = Some (i, buf, w1) \<and> eat sock [] w w1"
    using w1 assms(2,3) by (subst get_line_loop.simps) (simp add: get_line_loop_LF)
  show "inq w sock = LF # xs \<Longrightarrow> \<exists>w1. get_line_loop sock lim i c buf w = Some (Suc i, buf[i := LF], w1) \<and> eat sock xs w w1"
    using w1 assms(2,3) by (subst get_line_loop.simps) (simp add: st get_line_loop_LF)
  show "inq w sock = x # xs \<Longrightarrow> x \<noteq> LF \<Longrightarrow> x \<noteq> CR \<Longrightarrow>
      \<exists>w1. get_line_loop sock lim i c buf w = get_line_loop sock lim (Suc i) x (buf[i := x]) w1 \<and> eat sock xs w w1"
    using w1 assms(2,3) by (subst get_line_loop.simps) (auto simp: st)
  assume x: "inq w sock = CR # xs"
  then have "inq w1 sock = xs" using eat_inq [OF w1(2)] by simp
  then obtain w2 where "after_cr sock CR w1 = (LF, w2)" "eat sock (case xs of [] \<Rightarrow> [] | d # s \<Rightarrow> if d = LF then s else xs) w1 w2"
    using after_cr_quiet [OF eat_quiet [OF w1(2) assms(1)], of sock CR] by auto
  with x w1 assms(2,3) eat_trans [OF w1(2)] show "\<exists>w1. get_line_loop sock lim i c buf w = Some (Suc i, buf[i := LF], w1) \<and>
      eat sock (case xs of [] \<Rightarrow> [] | d # s \<Rightarrow> if d = LF then s else xs) w w1"
    by (subst get_line_loop.simps) (simp add: st get_line_loop_LF)
qed

lemma get_line_loop_quiet:
  assumes "quiet w" "c \<noteq> LF" "i \<le> lim" "lim < length buf" "next_line (lim - i) (inq w sock) = (l, r)"
  shows "\<exists>w'. get_line_loop sock lim i c buf w =
      Some (i + length l, take i buf @ l @ drop (i + length l) buf, w') \<and> eat sock r w w'"
  using assms
proof (induction "lim - i" arbitrary: i c buf w l)
  case 0
  then have "l = []" "r = inq w sock" "\<not> i < lim" by auto
  then show ?case by (subst get_line_loop.simps) (auto simp: eat_refl)
next
  case (Suc k)
  then have k: "k = lim - Suc i" "i < lim" "i < length buf" by simp_all
  have nl: "next_line (Suc k) (inq w sock) = (l, r)" using Suc.prems(5) Suc.hyps(2) by simp
  note round = get_line_round [OF Suc.prems(1,2) k(2) Suc.prems(4)]
  consider (eof) "inq w sock = []" | (lf) xs where "inq w sock = LF # xs" | (cr) xs where "inq w sock = CR # xs"
    | (char) x xs where "inq w sock = x # xs" "x \<noteq> LF" "x \<noteq> CR" by (cases "inq w sock") auto
  then show ?case
  proof cases
    case eof
    with round(1) nl show ?thesis by auto
  next
    case lf
    with round(2) nl show ?thesis by (auto simp: put_last [OF k(3)])
  next
    case (cr xs)
    with nl have "l = [LF]" "r = (case xs of [] \<Rightarrow> [] | d # s \<Rightarrow> if d = LF then s else xs)" by auto
    with round(3) [OF cr] show ?thesis by (simp add: put_last [OF k(3)])
  next
    case char
    then obtain l' where nl': "next_line k xs = (l', r)" and l: "l = x # l'" using nl by (auto split: prod.splits)
    from round(4) [OF char] obtain w1 where
      w1: "get_line_loop sock lim i c buf w = get_line_loop sock lim (Suc i) x (buf[i := x]) w1" "eat sock xs w w1" by blast
    have "Suc i \<le> lim" "lim < length (buf[i := x])" "next_line (lim - Suc i) (inq w1 sock) = (l', r)"
      using k Suc.prems(4) nl' eat_inq [OF w1(2)] by simp_all
    from Suc.hyps(1) [OF k(1) eat_quiet [OF w1(2) Suc.prems(1)] char(2) this] w1 l eat_trans [OF w1(2)] show ?thesis
      by (fastforce simp: put_one [OF k(3)])
  qed
qed

lemma next_line_length: "next_line n s = (l, r) \<Longrightarrow> length l \<le> n"
  by (induction n s arbitrary: l r rule: next_line.induct) (auto split: prod.splits if_splits)

lemma get_line_quiet:
  assumes "quiet w" "0 < length buf" "length buf \<le> 2 ^ 64" "next_line (length buf - 1) (inq w sock) = (l, r)"
  shows "\<exists>w'. get_line sock (Some buf) (length buf) w = Some (1, put_line buf l, w') \<and> eat sock r w w'"
proof -
  have lim: "line_limit (length buf) = length buf - 1" by (rule line_limit_eq) (use assms in simp_all)
  have "next_line (length buf - 1 - 0) (inq w sock) = (l, r)" using assms(4) by simp
  from get_line_loop_quiet [OF assms(1) _ _ _ this, of NUL buf] assms(2)
  obtain w' where w': "get_line_loop sock (length buf - 1) 0 NUL buf w =
      Some (length l, l @ drop (length l) buf, w')" "eat sock r w w'" by auto
  have len: "length l < length buf" using next_line_length [OF assms(4)] assms(2) by linarith
  then have "(l @ drop (length l) buf)[length l := NUL] = put_line buf l"
    by (simp add: put_line_def list_update_append Cons_nth_drop_Suc [symmetric])
  with w' len show ?thesis by (simp add: get_line_def lim store_def)
qed

section \<open>clear\_header\<close>

definition header_block :: "string list \<Rightarrow> string" where
  "header_block hs = concat (map (\<lambda>h. h @ [CR, LF]) hs) @ [CR, LF]"

definition header_line :: "string \<Rightarrow> bool" where
  "header_line h \<longleftrightarrow> h \<noteq> [] \<and> length h < 1023 \<and> set h \<inter> {CR, LF, NUL} = {}"

lemma next_line_crlf:
  "length h < n \<Longrightarrow> set h \<inter> {CR, LF} = {} \<Longrightarrow> next_line n (h @ CR # LF # s) = (h @ [LF], s)"
proof (induction h arbitrary: n)
  case Nil
  then show ?case by (cases n) auto
next
  case (Cons c h)
  then obtain m where "n = Suc m" by (cases n) auto
  with Cons show ?case by auto
qed

lemma c_str_put_line: "is_cstring l \<Longrightarrow> c_str (put_line buf l) = l"
  by (simp add: put_line_def)

lemma length_put_line: "length l < length buf \<Longrightarrow> length (put_line buf l) = length buf"
  by (simp add: put_line_def)

lemma strcmp_LF_iff: "is_cstring s \<Longrightarrow> strcmp s [LF] = 0 \<longleftrightarrow> s = [LF]"
  by (subst strcmp_eq_0_iff) auto

lemma clear_header_step:
  assumes "quiet w" "length buf = 1024" "set h \<inter> {CR, LF, NUL} = {}" "length h < 1023"
    "inq w sock = h @ CR # LF # s"
  obtains w' where "eat sock s w w'"
    "clear_header_loop sock buf w =
       (if h = [] then Some w' else clear_header_loop sock (put_line buf (h @ [LF])) w')"
proof -
  have "next_line (length buf - 1) (inq w sock) = (h @ [LF], s)"
    using assms by (auto intro: next_line_crlf)
  from get_line_quiet [OF assms(1) _ _ this] assms(2)
  obtain w' where w': "get_line sock (Some buf) (length buf) w = Some (1, put_line buf (h @ [LF]), w')"
    "eat sock s w w'" by auto
  have "is_cstring (h @ [LF])" using assms(3) by (auto simp: is_cstring_def)
  then have "c_str (put_line buf (h @ [LF])) = h @ [LF]" "strcmp (h @ [LF]) [LF] = 0 \<longleftrightarrow> h = []"
    by (auto simp: c_str_put_line strcmp_LF_iff)
  with w' have "clear_header_loop sock buf w =
      (if h = [] then Some w' else clear_header_loop sock (put_line buf (h @ [LF])) w')"
    by (subst clear_header_loop.simps) simp
  with w'(2) that show ?thesis by blast
qed

lemma clear_header_loop_block:
  assumes "quiet w" "length buf = 1024" "list_all header_line hs" "inq w sock = header_block hs @ body"
  shows "\<exists>w'. clear_header_loop sock buf w = Some w' \<and> eat sock body w w'"
  using assms
proof (induction hs arbitrary: buf w)
  case Nil
  then have "inq w sock = [] @ CR # LF # body" by (simp add: header_block_def)
  from clear_header_step [OF Nil.prems(1,2) _ _ this] show ?case by auto
next
  case (Cons h hs)
  have h: "set h \<inter> {CR, LF, NUL} = {}" "length h < 1023" "h \<noteq> []"
    using Cons.prems(3) by (simp_all add: header_line_def)
  have "inq w sock = h @ CR # LF # header_block hs @ body"
    using Cons.prems(4) by (simp add: header_block_def)
  from clear_header_step [OF Cons.prems(1,2) h(1,2) this] h(3)
  obtain w1 where w1: "eat sock (header_block hs @ body) w w1"
    "clear_header_loop sock buf w = clear_header_loop sock (put_line buf (h @ [LF])) w1"
    by auto
  have "length (put_line buf (h @ [LF])) = 1024" using h(2) Cons.prems(2) by (simp add: length_put_line)
  from Cons.IH [OF eat_quiet [OF w1(1) Cons.prems(1)] this] Cons.prems(3) eat_inq [OF w1(1)]
  obtain w' where "clear_header_loop sock (put_line buf (h @ [LF])) w1 = Some w'" "eat sock body w1 w'"
    by auto
  with w1 eat_trans show ?case by metis
qed

lemma recv_into_in_stream:
  "recv_into sock c w = (n, c', w') \<Longrightarrow> 0 < n \<Longrightarrow> c' \<in> set (inq w sock)"
  by (cases "sys_read sock 1 w")
     (auto simp: recv_into_def elim!: sys_read_cases split: list.splits dest: in_set_takeD
       intro: in_set_takeD [of _ "Suc 0"] | metis list.set_intros(1) in_set_takeD)+

lemma reads_only_set: "reads_only sock w w' \<Longrightarrow> set (inq w' sock) \<subseteq> set (inq w sock)"
  unfolding reads_only_def by (metis Un_upper2 set_append)

lemma get_line_loop_no_eol:
  assumes "get_line_loop sock lim i c buf w = Some (i', buf', w')" "set (inq w sock) \<inter> {CR, LF} = {}"
    "LF \<notin> set (take i buf)" "i \<le> length buf"
  shows "LF \<notin> set (take i' buf') \<and> i' \<le> length buf'"
  using assms
proof (induction sock lim i c buf w rule: get_line_loop.induct)
  case (1 sock lim i c buf w)
  show ?case
  proof (cases "i < lim \<and> c \<noteq> LF")
    case False
    with "1.prems" show ?thesis by (subst (asm) get_line_loop.simps) auto
  next
    case True
    obtain n c1 w1 where rc: "recv_into sock c w = (n, c1, w1)" by (cases "recv_into sock c w") auto
    have s1: "set (inq w1 sock) \<inter> {CR, LF} = {}"
      using reads_only_set [OF recv_into_reads_only [OF rc]] "1.prems"(2) by blast
    show ?thesis
    proof (cases "n > 0")
      case False
      then have "get_line_loop sock lim i LF buf w1 = Some (i', buf', w')"
        using "1.prems"(1) True rc by (subst (asm) get_line_loop.simps) simp
      from "1.IH"(2) [OF True rc [symmetric] refl False this s1 "1.prems"(3,4)] show ?thesis .
    next
      case pos: True
      have c1: "c1 \<noteq> CR" "c1 \<noteq> LF" using recv_into_in_stream [OF rc pos] "1.prems"(2) by auto
      then have c2: "(if c1 = CR then after_cr sock c1 w1 else (c1, w1)) = (c1, w1)" by simp
      obtain buf1 where st: "store buf i c1 = Some buf1"
        using "1.prems"(1) True rc pos c1 by (subst (asm) get_line_loop.simps) (auto split: option.splits)
      then have b1: "buf1 = buf[i := c1]" "i < length buf" by (auto simp: store_def split: if_splits)
      have "get_line_loop sock lim (Suc i) c1 buf1 w1 = Some (i', buf', w')"
        using "1.prems"(1) True rc pos c1 st by (subst (asm) get_line_loop.simps) simp
      moreover have "LF \<notin> set (take (Suc i) buf1)" "Suc i \<le> length buf1"
        using b1 c1 "1.prems"(3) by (simp_all add: put_one)
      ultimately show ?thesis
        using "1.IH"(1) [OF True rc [symmetric] refl pos c2 [symmetric] st] s1 by blast
    qed
  qed
qed

lemma get_line_no_eol:
  assumes "get_line sock (Some buf) n w = Some (r, buf', w')" "set (inq w sock) \<inter> {CR, LF} = {}"
  shows "LF \<notin> set (c_str buf')"
proof -
  obtain i buf1 where loop: "get_line_loop sock (line_limit n) 0 NUL buf w = Some (i, buf1, w')"
    and st: "store buf1 i NUL = Some buf'"
    using assms(1) by (auto simp: get_line_def split: option.splits)
  have nolf: "LF \<notin> set (take i buf1)" using get_line_loop_no_eol [OF loop assms(2)] by simp
  have b: "buf' = take i buf1 @ NUL # drop (Suc i) buf1"
    using st by (auto simp: store_def upd_conv_take_nth_drop split: if_splits)
  have "set (c_str (x @ NUL # y)) \<subseteq> set x" for x y by (induction x) auto
  with nolf b show ?thesis by blast
qed

lemma clear_header_loop_diverges:
  assumes "clear_header_loop sock buf w = Some w'" "set (inq w sock) \<inter> {CR, LF} = {}"
    "0 < length buf" "length buf \<le> 2 ^ 64"
  shows False
proof (rule clear_header_loop.raw_induct [where P = "\<lambda>sock buf w w'.
      set (inq w sock) \<inter> {CR, LF} = {} \<and> 0 < length buf \<and> length buf \<le> 2 ^ 64 \<longrightarrow> False",
      OF _ assms(1), THEN mp, OF _ conjI [OF assms(2) conjI [OF assms(3,4)]]])
  fix loop sock buf w w'
  assume IH: "\<And>sock buf w w'. loop sock buf w = Some w' \<Longrightarrow>
      set (inq w sock) \<inter> {CR, LF} = {} \<and> 0 < length buf \<and> length buf \<le> 2 ^ 64 \<longrightarrow> False"
    and eq: "(case get_line sock (Some buf) (length buf) w of
        None \<Rightarrow> None
      | Some (ret, buf', w') \<Rightarrow>
          if ret > 0 \<and> strcmp (c_str buf') [LF] \<noteq> 0 then loop sock buf' w' else Some w') = Some w'"
  show "set (inq w sock) \<inter> {CR, LF} = {} \<and> 0 < length buf \<and> length buf \<le> 2 ^ 64 \<longrightarrow> False"
  proof
    assume a: "set (inq w sock) \<inter> {CR, LF} = {} \<and> 0 < length buf \<and> length buf \<le> 2 ^ 64"
    with get_line_safe [of buf sock w] obtain buf1 w1 where
      gl: "get_line sock (Some buf) (length buf) w = Some (1, buf1, w1)" "length buf1 = length buf"
      "reads_only sock w w1" by blast
    from a have "LF \<notin> set (c_str buf1)" using get_line_no_eol [OF gl(1)] by blast
    then have "strcmp (c_str buf1) [LF] \<noteq> 0" by (auto simp: strcmp_LF_iff)
    with eq gl(1) have "loop sock buf1 w1 = Some w'" by simp
    moreover have "set (inq w1 sock) \<inter> {CR, LF} = {}" using reads_only_set [OF gl(3)] a by blast
    ultimately show False using IH gl(2) a by metis
  qed
qed

section \<open>The properties of request reading\<close>







text \<open>C39: If the peer stops sending before any line end (a closed or empty connection in particular),
  \<open>clear_header\<close> never returns, under any kernel: \<open>get_line\<close> reports end of file as an empty line with
  return value 1, which the loop takes for one more header.\<close>

theorem clear_header_diverges:
  assumes "set (inq w sock) \<inter> {CR, LF} = {}"
  shows "clear_header sock w = None"
proof (cases "clear_header sock w")
  case (Some w')
  with clear_header_loop_diverges [of sock "replicate 1024 NUL" w w'] assms show ?thesis
    by (simp add: clear_header_def)
qed

theorem clear_header_diverges_witness: "clear_header 4 (os_with 1 ''GET /'') = None"
  by (rule clear_header_diverges) (simp add: os_with_def)

end
