(* ===== verification/Http_Request.thy ===== *)
theory Http_Request
  imports Http_Line
begin

text \<open>
  \<open>httpd.c\<close>, serving one request: \<open>accept_request\<close> parses the request line, maps the URL to a file under
  \<open>htdocs\<close>, and either sends the file (\<open>echo_html\<close>) or runs it as a CGI program (\<open>exe_cgi\<close>).

  The file system (\<open>stat\<close> and file contents) and the CGI program (its output as a function of its
  path, environment and standard input; a program that waits for the end of its input is not such a
  function, because the parent keeps the pipe open until it has read the whole output) are parameters. \<open>None\<close> stands for undefined behaviour (an
  access outside an array, a \<open>sprintf\<close> or \<open>strcat\<close> past the end of its buffer) or for not returning.
\<close>

unbundle bit_operations_syntax

section \<open>Constants\<close>

definition BUF_SIZE :: nat where "BUF_SIZE = 1024"
definition MAIN_PAGE :: string where "MAIN_PAGE = ''index.html''"
definition SERVICE_VERSION :: string where "SERVICE_VERSION = ''HTTP/1.1''"

definition ok_header :: string where
  "ok_header = SERVICE_VERSION @ '' 200 OK'' @ [CR, LF] @
     ''content-Type:text/html;Charset=utf-8'' @ [CR, LF, CR, LF]"

record stat_t =
  st_mode :: int
  st_size :: int

record vfs =
  vfs_stat :: "string \<Rightarrow> stat_t option"
  vfs_content :: "string \<Rightarrow> string"

definition S_ISDIR :: "int \<Rightarrow> bool" where
  "S_ISDIR m \<longleftrightarrow> m AND 61440 = 16384"

definition any_exec :: "int \<Rightarrow> bool" where
  "any_exec m \<longleftrightarrow> m AND 64 \<noteq> 0 \<or> m AND 8 \<noteq> 0 \<or> m AND 1 \<noteq> 0"

section \<open>Sending a file\<close>

text \<open>\<open>sendfile\<close> is one call that sends at most \<open>count\<close> bytes of the file.\<close>

definition sys_sendfile :: "int \<Rightarrow> string \<Rightarrow> nat \<Rightarrow> os \<Rightarrow> int \<times> os" where
  "sys_sendfile client content count w = sys_write client (take count content) w"

definition echo_html :: "vfs \<Rightarrow> int \<Rightarrow> string option \<Rightarrow> nat \<Rightarrow> os \<Rightarrow> os" where
  "echo_html fs client path file_size w =
     (case path of
        None \<Rightarrow> w
      | Some p \<Rightarrow>
          (case sys_call w of (in_fd, w1) \<Rightarrow>
             if in_fd < 0 then w1
             else (case sys_send client ok_header w1 of (_, w2) \<Rightarrow>
                     case sys_sendfile client (vfs_content fs p) file_size w2 of (_, w3) \<Rightarrow>
                       sys_close in_fd w3)))"

section \<open>Running a CGI program\<close>

text \<open>The header loop of a POST request, which looks for the content length.\<close>

partial_function (option) post_headers :: "int \<Rightarrow> int \<Rightarrow> os \<Rightarrow> (int \<times> os) option" where
  "post_headers sock content_length w =
     (case get_line sock (Some (replicate BUF_SIZE NUL)) BUF_SIZE w of
        None \<Rightarrow> None
      | Some (numchars, buf, w') \<Rightarrow>
          let cl = (if strncasecmp (c_str buf) ''Content-Length:'' 15 = 0
                    then atoi (c_str (drop 16 buf)) else content_length)
          in if numchars > 0 \<and> strcmp (c_str buf) [LF] \<noteq> 0 then post_headers sock cl w'
             else Some (cl, w'))"

text \<open>
  The child's environment. \<open>query_env\<close> has \<open>BUF_SIZE/10\<close> bytes; a request that is not a GET formats
  the integer \<open>content_length\<close> with \<open>%s\<close>, which is undefined.
\<close>

definition cgi_env :: "string \<Rightarrow> string option \<Rightarrow> string list option" where
  "cgi_env method query_string =
     (let method_env = ''REQUEST_METHOD='' @ method
      in if length method_env \<ge> BUF_SIZE then None
         else if strcasecmp ''GET'' method = 0 then
           (case query_string of
              None \<Rightarrow> None
            | Some q \<Rightarrow>
                let query_env = ''QUERY_STRING='' @ q
                in if length query_env \<ge> BUF_SIZE div 10 then None else Some [method_env, query_env])
         else None)"

text \<open>The parent copies the body to the program, one byte at a time, ignoring failures.\<close>

fun send_body :: "int \<Rightarrow> int \<Rightarrow> nat \<Rightarrow> char \<Rightarrow> os \<Rightarrow> os" where
  "send_body sock fd 0 c w = w"
| "send_body sock fd (Suc n) c w =
     (case recv_into sock c w of (_, c', w1) \<Rightarrow>
        (case sys_write fd [c'] w1 of (_, w2) \<Rightarrow> send_body sock fd n c' w2))"

text \<open>Then it copies the program's output to the client until the pipe is empty or a read fails.\<close>

function send_output :: "int \<Rightarrow> int \<Rightarrow> os \<Rightarrow> os" where
  "send_output fd sock w =
     (case sys_read fd 1 w of (n, d, w1) \<Rightarrow>
        if n > 0 then (case sys_send sock d w1 of (_, w2) \<Rightarrow> send_output fd sock w2) else w1)"
  by pat_completeness auto
termination
proof (relation "measure (\<lambda>(fd, sock, w). length (inq w fd))")
  fix fd sock :: int and w w1 w2 :: os and n m :: int and d :: string and x y
  assume "(n, x) = sys_read fd 1 w" "(d, w1) = x" "0 < n" "(m, w2) = sys_write sock d w1"
  then have rd: "sys_read fd 1 w = (n, d, w1)" and wr: "sys_write sock d w1 = (m, w2)" by auto
  have "inq w2 = inq w1" using sys_write_frame(3) [OF wr] .
  moreover have "inq w fd = d @ inq w1 fd" "n = -1 \<and> d = [] \<or> n = int (length d)"
    using sys_read_frame [OF rd] by blast+
  ultimately show "((fd, sock, w2), (fd, sock, w)) \<in> measure (\<lambda>(fd, sock, w). length (inq w fd))"
    using \<open>0 < n\<close> by auto
qed simp

declare send_output.simps [simp del]

definition sys_pipe :: "os \<Rightarrow> (int \<times> int) option \<times> os" where
  "sys_pipe w =
     (case sys_call w of (r, w1) \<Rightarrow>
        if r < 0 then (None, w1)
        else (case sys_call w1 of (r2, w2) \<Rightarrow> if r2 < 0 then (None, w2) else (Some (r, r2), w2)))"

definition close_all :: "int list \<Rightarrow> os \<Rightarrow> os" where
  "close_all fds w = fold sys_close fds w"

text \<open>
  The parent's side after the fork: \<open>prog\<close> is what the child process prints, given the path it
  executes, its environment (\<open>None\<close> when building it was undefined, so that nothing is assumed of the
  child then) and what the parent wrote to its input.
\<close>

definition cgi_father ::
  "(string \<Rightarrow> string list option \<Rightarrow> string \<Rightarrow> string) \<Rightarrow> int \<Rightarrow> string \<Rightarrow> string \<Rightarrow> string option \<Rightarrow> int \<Rightarrow>
   int \<times> int \<Rightarrow> int \<times> int \<Rightarrow> os \<Rightarrow> os" where
  "cgi_father prog sock path method query_string content_length cgi_input cgi_output w =
     (let w1 = close_all [fst cgi_input, snd cgi_output] w;
          w2 = (if strcasecmp ''POST'' method = 0
                then send_body sock (snd cgi_input) (nat content_length) NUL w1 else w1);
          out = prog path (cgi_env method query_string) (outq w2 (snd cgi_input));
          w3 = w2\<lparr>inq := (inq w2)(fst cgi_output := out)\<rparr>;
          w4 = send_output (fst cgi_output) sock w3
      in close_all [snd cgi_input, fst cgi_output] w4)"

text \<open>From the response header on: two pipes, the fork, and the parent's copying.\<close>

definition cgi_spawn ::
  "(string \<Rightarrow> string list option \<Rightarrow> string \<Rightarrow> string) \<Rightarrow> int \<Rightarrow> string \<Rightarrow> string \<Rightarrow> string option \<Rightarrow> int \<Rightarrow>
   os \<Rightarrow> os" where
  "cgi_spawn prog sock path method query_string content_length w =
     (case sys_send sock ok_header w of (_, w3) \<Rightarrow>
        (case sys_pipe w3 of
           (None, w4) \<Rightarrow> w4
         | (Some cgi_input, w4) \<Rightarrow>
             (case sys_pipe w4 of
                (None, w5) \<Rightarrow> close_all [fst cgi_input, snd cgi_input] w5
              | (Some cgi_output, w5) \<Rightarrow>
                  (case sys_call w5 of (pid, w6) \<Rightarrow>
                     if pid < 0 then
                       close_all [fst cgi_input, snd cgi_input, fst cgi_output, snd cgi_output] w6
                     else cgi_father prog sock path method query_string
                            content_length cgi_input cgi_output w6))))"

definition exe_cgi ::
  "(string \<Rightarrow> string list option \<Rightarrow> string \<Rightarrow> string) \<Rightarrow> int \<Rightarrow> string \<Rightarrow> string \<Rightarrow> string option \<Rightarrow>
   os \<Rightarrow> os option" where
  "exe_cgi prog sock path method query_string w =
     (case (if strcasecmp method ''GET'' = 0 then clear_header sock w else Some w) of
        None \<Rightarrow> None
      | Some w1 \<Rightarrow>
          (case (if strcasecmp method ''POST'' = 0 then post_headers sock 0 w1 else Some (0, w1)) of
             None \<Rightarrow> None
           | Some (content_length, w2) \<Rightarrow>
               if content_length = -1 then Some w2
               else Some (cgi_spawn prog sock path method query_string content_length w2)))"

section \<open>Parsing the request line\<close>

text \<open>
  \<open>while (!isspace (buf[j]) && i < size - 1 && j < sizeof buf)\<close>: the array is read before the index is
  tested, so reaching its end is an access outside it.
\<close>

function copy_token :: "char list \<Rightarrow> nat \<Rightarrow> nat \<Rightarrow> nat \<Rightarrow> string \<Rightarrow> (string \<times> nat) option" where
  "copy_token buf msize i j tok =
     (if j \<ge> length buf then None
      else if \<not> isspace (buf ! j) \<and> i < msize - 1
           then copy_token buf msize (Suc i) (Suc j) (tok @ [buf ! j])
           else Some (tok, j))"
  by pat_completeness auto
termination
  by (relation "measure (\<lambda>(buf, msize, i, j, tok). length buf - j)") auto

declare copy_token.simps [simp del]

function skip_space :: "char list \<Rightarrow> nat \<Rightarrow> nat option" where
  "skip_space buf j =
     (if j \<ge> length buf then None
      else if isspace (buf ! j) then skip_space buf (Suc j) else Some j)"
  by pat_completeness auto
termination
  by (relation "measure (\<lambda>(buf, j). length buf - j)") auto

declare skip_space.simps [simp del]

text \<open>The method and the URL as C strings.\<close>

definition parse_request :: "char list \<Rightarrow> (string \<times> string) option" where
  "parse_request buf =
     (case copy_token buf (BUF_SIZE div 10) 0 0 [] of
        None \<Rightarrow> None
      | Some (method, j) \<Rightarrow>
          (case skip_space buf j of
             None \<Rightarrow> None
           | Some j' \<Rightarrow>
               (case copy_token buf BUF_SIZE 0 j' [] of
                  None \<Rightarrow> None
                | Some (url, _) \<Rightarrow> Some (c_str method, c_str url))))"

definition method_rejected :: "string \<Rightarrow> bool" where
  "method_rejected method \<longleftrightarrow> strcasecmp method ''GET'' < 0 \<and> strcasecmp method ''POST'' < 0"

text \<open>The path part of the URL, the query string of a GET, and whether the request asks for a program.\<close>

definition split_url :: "string \<Rightarrow> string \<Rightarrow> string \<times> string option \<times> bool" where
  "split_url method url =
     (let cgi = (strcasecmp method ''POST'' = 0)
      in if strcasecmp method ''GET'' = 0 then
           let path = takeWhile (\<lambda>c. c \<noteq> CHR ''?'') url; rest = dropWhile (\<lambda>c. c \<noteq> CHR ''?'') url
           in (case rest of [] \<Rightarrow> (path, Some [], cgi) | _ # q \<Rightarrow> (path, Some q, True))
         else (url, None, cgi))"

definition bounded :: "nat \<Rightarrow> string \<Rightarrow> string option" where
  "bounded n s = (if length s < n then Some s else None)"

definition map_path :: "string \<Rightarrow> string option" where
  "map_path url =
     (case bounded BUF_SIZE (''htdocs'' @ url) of
        None \<Rightarrow> None
      | Some path \<Rightarrow>
          if last path = CHR ''/'' then bounded BUF_SIZE (path @ MAIN_PAGE) else Some path)"

section \<open>accept\_request\<close>

definition serve_file ::
  "vfs \<Rightarrow> (string \<Rightarrow> string list option \<Rightarrow> string \<Rightarrow> string) \<Rightarrow> int \<Rightarrow> string \<Rightarrow> string option \<Rightarrow> bool \<Rightarrow> string \<Rightarrow>
   stat_t \<Rightarrow> os \<Rightarrow> os option" where
  "serve_file fs prog sock method query_string cgi path st w =
     (case (if S_ISDIR (st_mode st) then map_option (\<lambda>p. (p, cgi)) (bounded BUF_SIZE (path @ ''/'' @ MAIN_PAGE))
            else Some (path, cgi \<or> any_exec (st_mode st))) of
        None \<Rightarrow> None
      | Some (path', cgi') \<Rightarrow>
          map_option (sys_close sock)
            (if cgi' then exe_cgi prog sock path' method query_string w
             else (case clear_header sock w of
                     None \<Rightarrow> None
                   | Some w' \<Rightarrow>
                       Some (echo_html fs sock (Some path') (nat (take_bit 32 (st_size st))) w'))))"

definition accept_request ::
  "vfs \<Rightarrow> (string \<Rightarrow> string list option \<Rightarrow> string \<Rightarrow> string) \<Rightarrow> int \<Rightarrow> os \<Rightarrow> os option" where
  "accept_request fs prog sock_client w =
     (case get_line sock_client (Some (replicate BUF_SIZE NUL)) BUF_SIZE w of
        None \<Rightarrow> None
      | Some (r, buf, w1) \<Rightarrow>
          if r < 0 then Some w1
          else (case parse_request buf of
                  None \<Rightarrow> None
                | Some (method, url) \<Rightarrow>
                    if method_rejected method then Some w1
                    else (case split_url method url of (p, query_string, cgi) \<Rightarrow>
                            (case map_path p of
                               None \<Rightarrow> None
                             | Some path \<Rightarrow>
                                 (case vfs_stat fs path of
                                    None \<Rightarrow> clear_header sock_client w1
                                  | Some st \<Rightarrow>
                                      serve_file fs prog sock_client method query_string cgi path st w1)))))"

section \<open>The request line\<close>

lemma copy_token_stops:
  assumes "set t \<inter> Collect isspace = {}" "i + length t < msize" "isspace c"
  shows "copy_token (pre @ t @ c # post) msize i (length pre) tok = Some (tok @ t, length pre + length t)"
  using assms
proof (induction t arbitrary: pre i tok)
  case Nil
  then show ?case by (subst copy_token.simps) (simp add: nth_append)
next
  case (Cons x t)
  from Cons.IH [of "Suc i" "pre @ [x]" "tok @ [x]"] Cons.prems
  have "copy_token (pre @ x # t @ c # post) msize (Suc i) (Suc (length pre)) (tok @ [x]) =
      Some (tok @ x # t, length pre + Suc (length t))" by simp
  with Cons.prems show ?case by (subst copy_token.simps) (simp add: nth_append)
qed

lemma copy_token_runs_off:
  assumes "\<forall>k. j \<le> k \<and> k < length buf \<longrightarrow> \<not> isspace (buf ! k)" "i + (length buf - j) < msize"
  shows "copy_token buf msize i j tok = None"
  using assms
proof (induction buf msize i j tok rule: copy_token.induct)
  case (1 buf msize i j tok)
  show ?case
  proof (cases "j < length buf")
    case True
    then have "\<not> isspace (buf ! j) \<and> i < msize - 1" using "1.prems" by auto
    moreover have "copy_token buf msize (Suc i) (Suc j) (tok @ [buf ! j]) = None"
      by (rule "1.IH") (use True calculation "1.prems" in auto)
    ultimately show ?thesis using True by (subst copy_token.simps) simp
  qed (subst copy_token.simps, simp)
qed

lemma skip_space_one:
  "isspace s \<Longrightarrow> \<not> isspace c \<Longrightarrow> skip_space (pre @ s # c # post) (length pre) = Some (Suc (length pre))"
  by (subst skip_space.simps, subst skip_space.simps) (simp add: nth_append)

definition request_token :: "string \<Rightarrow> bool" where
  "request_token t \<longleftrightarrow> t \<noteq> [] \<and> set t \<inter> Collect isspace = {} \<and> is_cstring t"

lemma parse_request_line:
  assumes "request_token m" "length m < 102" "request_token u" "length u < 1024" "isspace c"
  shows "parse_request (m @ CHR '' '' # u @ c # post) = Some (m, u)"
proof -
  let ?buf = "m @ CHR '' '' # u @ c # post"
  have sp: "isspace (CHR '' '')" by (simp add: isspace_def)
  have 1: "copy_token ?buf (BUF_SIZE div 10) 0 0 [] = Some (m, length m)"
    using copy_token_stops [of m 0 102 "CHR '' ''" "[]" "u @ c # post" "[]"] assms sp
    by (simp add: request_token_def BUF_SIZE_def)
  obtain x u' where u: "u = x # u'" "\<not> isspace x"
    using assms(3) by (cases u) (auto simp: request_token_def)
  have 2: "skip_space ?buf (length m) = Some (Suc (length m))"
    using skip_space_one [OF sp u(2), of m "u' @ c # post"] u(1) by simp
  have 3: "copy_token ?buf BUF_SIZE 0 (Suc (length m)) [] = Some (u, Suc (length m) + length u)"
    using copy_token_stops [of u 0 1024 c "m @ [CHR '' '']" post "[]"] assms
    by (simp add: request_token_def BUF_SIZE_def)
  from 1 2 3 assms(1,3) show ?thesis
    by (simp add: parse_request_def request_token_def c_str_id)
qed

lemma method_rejected_iff: "method_rejected m \<longleftrightarrow> strcasecmp m ''GET'' < 0"
proof (cases m)
  case Nil
  then show ?thesis by (simp add: method_rejected_def strcasecmp_def tolower_def uchar_def)
next
  case (Cons c s)
  have g: "tolower (CHR ''G'') = 103" "tolower (CHR ''P'') = 112" by (simp_all add: tolower_def uchar_def)
  show ?thesis
    using g Cons by (auto simp: method_rejected_def strcasecmp_def split: if_splits)
qed

section \<open>A kernel that takes every write whole\<close>

definition willing :: "nat \<Rightarrow> os \<Rightarrow> bool" where
  "willing n w \<longleftrightarrow> (\<forall>k \<ge> tick w. int n \<le> sr_ret (ans w k))"

lemma willing_quiet: "willing n w \<Longrightarrow> quiet w"
  unfolding willing_def quiet_def by force

lemma willing_later: "willing n w \<Longrightarrow> ans w' = ans w \<Longrightarrow> tick w \<le> tick w' \<Longrightarrow> willing n w'"
  by (simp add: willing_def)

lemma willing_eat: "willing n w \<Longrightarrow> eat sock s w w' \<Longrightarrow> willing n w'"
  by (auto simp: eat_def willing_def)

lemma willing_call: "willing n w \<Longrightarrow> sys_call w = (sr_ret (ans w (tick w)), w\<lparr>tick := Suc (tick w)\<rparr>)"
proof -
  assume "willing n w"
  then have "0 \<le> sr_ret (ans w (tick w))" unfolding willing_def by (meson le_refl of_nat_0_le_iff order_trans)
  then show ?thesis by (rule sys_call_ok)
qed

lemma willing_write:
  assumes "willing n w" "length d \<le> n"
  shows "sys_write fd d w =
    (int (length d), w\<lparr>tick := Suc (tick w), outq := (outq w)(fd := outq w fd @ d)\<rparr>)"
proof -
  have "int n \<le> sr_ret (ans w (tick w))" using assms(1) by (simp add: willing_def)
  with assms(2) have "min (length d) (nat (sr_ret (ans w (tick w)))) = length d" by linarith
  moreover have "\<not> sr_ret (ans w (tick w)) < 0" using \<open>int n \<le> sr_ret (ans w (tick w))\<close> by linarith
  ultimately show ?thesis by (simp add: sys_write_def willing_call [OF assms(1)])
qed

section \<open>Serving a request\<close>

definition request :: "string \<Rightarrow> string \<Rightarrow> string list \<Rightarrow> string" where
  "request m u hs = m @ CHR '' '' # u @ '' HTTP/1.1'' @ CR # LF # header_block hs"

definition well_formed :: "string \<Rightarrow> string \<Rightarrow> string list \<Rightarrow> bool" where
  "well_formed m u hs \<longleftrightarrow>
     request_token m \<and> length m \<le> 10 \<and> request_token u \<and> length u \<le> 990 \<and> list_all header_line hs"

lemma request_token_no_eol: "request_token t \<Longrightarrow> set t \<inter> {CR, LF, NUL} = {}"
  by (auto simp: request_token_def isspace_def is_cstring_def)

definition dispatch ::
  "vfs \<Rightarrow> (string \<Rightarrow> string list option \<Rightarrow> string \<Rightarrow> string) \<Rightarrow> int \<Rightarrow> string \<Rightarrow> string \<Rightarrow> os \<Rightarrow> os option" where
  "dispatch fs prog sock method url w =
     (case split_url method url of (p, query_string, cgi) \<Rightarrow>
        (case map_path p of
           None \<Rightarrow> None
         | Some path \<Rightarrow>
             (case vfs_stat fs path of
                None \<Rightarrow> clear_header sock w
              | Some st \<Rightarrow> serve_file fs prog sock method query_string cgi path st w)))"

lemma accept_request_parses:
  assumes "quiet w" "well_formed m u hs" "inq w sock = request m u hs @ body"
  obtains w1 where "eat sock (header_block hs @ body) w w1"
    "accept_request fs prog sock w =
       (if method_rejected m then Some w1 else dispatch fs prog sock m u w1)"
proof -
  let ?h = "m @ CHR '' '' # u @ '' HTTP/1.1''" and ?s = "header_block hs @ body"
  have m: "request_token m" "length m \<le> 10" and u: "request_token u" "length u \<le> 990"
    using assms(2) by (auto simp: well_formed_def)
  have "set ?h \<inter> {CR, LF} = {}" using request_token_no_eol m(1) u(1) by fastforce
  then have "next_line (length (replicate BUF_SIZE NUL) - 1) (inq w sock) = (?h @ [LF], ?s)"
    using next_line_crlf [of ?h 1023 ?s] m(2) u(2) assms(3) by (simp add: BUF_SIZE_def request_def)
  from get_line_quiet [OF assms(1) _ _ this]
  obtain w1 where w1: "get_line sock (Some (replicate BUF_SIZE NUL)) BUF_SIZE w =
      Some (1, put_line (replicate BUF_SIZE NUL) (?h @ [LF]), w1)" "eat sock ?s w w1"
    by (auto simp: BUF_SIZE_def)
  have "parse_request (put_line (replicate BUF_SIZE NUL) (?h @ [LF])) = Some (m, u)"
    using parse_request_line [of m u "CHR '' ''"] m u by (simp add: put_line_def isspace_def)
  with w1(1) have "accept_request fs prog sock w =
      (if method_rejected m then Some w1 else dispatch fs prog sock m u w1)"
    by (simp add: accept_request_def dispatch_def)
  with w1(2) that show ?thesis by blast
qed

lemma echo_html_willing:
  assumes "willing n w" "length ok_header \<le> n" "length (take k (vfs_content fs p)) \<le> n"
  shows "\<exists>w'. echo_html fs sock (Some p) k w = w' \<and>
    outq w' = (outq w)(sock := outq w sock @ ok_header @ take k (vfs_content fs p)) \<and>
    inq w' = inq w \<and> closed w' = sr_ret (ans w (tick w)) # closed w"
proof -
  let ?r = "sr_ret (ans w (tick w))"
  have r: "\<not> ?r < 0" using assms(1) unfolding willing_def by (meson le_refl of_nat_0_le_iff order_trans not_less)
  let ?w1 = "w\<lparr>tick := Suc (tick w)\<rparr>"
  have k1: "willing n ?w1" by (rule willing_later [OF assms(1)]) simp_all
  let ?w2 = "?w1\<lparr>tick := Suc (tick ?w1), outq := (outq ?w1)(sock := outq ?w1 sock @ ok_header)\<rparr>"
  have k2: "willing n ?w2" by (rule willing_later [OF k1]) simp_all
  show ?thesis
    by (simp add: echo_html_def willing_call [OF assms(1)] r willing_write [OF k1 assms(2)]
        sys_sendfile_def willing_write [OF k2 assms(3), simplified] sys_close_def)
qed

end
