(* ===== verification/Http_Request_Spec.thy ===== *)
theory Http_Request_Spec
  imports Http_Request
begin

text \<open>
  What \<open>httpd.c\<close> answers to a request, on a kernel that takes every write whole: a static file, a CGI
  program called with GET or POST, a missing file, a directory; and the requests whose handling is
  undefined.
\<close>

section \<open>Copying to and from the CGI program\<close>

lemma willing_nonneg: "willing n w \<Longrightarrow> 0 \<le> sr_ret (ans w (tick w))"
  unfolding willing_def by (meson le_refl of_nat_0_le_iff order_trans)

lemma send_output_willing:
  assumes "willing n w" "1 \<le> n"
  shows "\<exists>k \<ge> tick w. send_output fd sock w =
    w\<lparr>tick := k, inq := (inq w)(fd := []), outq := (outq w)(sock := outq w sock @ inq w fd)\<rparr>"
  using assms
proof (induction "inq w fd" arbitrary: w)
  case Nil
  note nn = willing_nonneg [OF Nil.prems(1)]
  have "send_output fd sock w = w\<lparr>tick := Suc (tick w)\<rparr>"
    by (subst send_output.simps) (simp add: sys_read_1 [OF nn] Nil.hyps [symmetric] del: One_nat_def)
  moreover have "(inq w)(fd := []) = inq w" "(outq w)(sock := outq w sock @ inq w fd) = outq w"
    using Nil.hyps by (simp_all add: fun_upd_idem)
  ultimately show ?case by (intro exI [of _ "Suc (tick w)"]) simp
next
  case (Cons c cs)
  note nn = willing_nonneg [OF Cons.prems(1)]
  let ?w1 = "w\<lparr>tick := Suc (tick w), inq := (inq w)(fd := cs)\<rparr>"
  have k1: "willing n ?w1" by (rule willing_later [OF Cons.prems(1)]) simp_all
  let ?w2 = "?w1\<lparr>tick := Suc (tick ?w1), outq := (outq ?w1)(sock := outq ?w1 sock @ [c])\<rparr>"
  have k2: "willing n ?w2" by (rule willing_later [OF k1]) simp_all
  have "send_output fd sock w = send_output fd sock ?w2"
    using willing_write [OF k1, of "[c]" sock] Cons.prems(2)
    by (subst send_output.simps) (simp add: sys_read_1 [OF nn] Cons.hyps(2) [symmetric] del: One_nat_def)
  moreover have "cs = inq ?w2 fd" by simp
  from Cons.hyps(1) [OF this k2 Cons.prems(2)] obtain k where "tick ?w2 \<le> k"
    "send_output fd sock ?w2 = ?w2\<lparr>tick := k, inq := (inq ?w2)(fd := []),
       outq := (outq ?w2)(sock := outq ?w2 sock @ inq ?w2 fd)\<rparr>" by blast
  ultimately have "send_output fd sock w =
      w\<lparr>tick := k, inq := (inq w)(fd := []), outq := (outq w)(sock := outq w sock @ inq w fd)\<rparr>" "tick w \<le> k"
    by (simp_all add: Cons.hyps(2) [symmetric])
  then show ?case by blast
qed

lemma send_body_willing:
  assumes "willing n w" "1 \<le> n" "m \<le> length (inq w sock)"
  shows "\<exists>k \<ge> tick w. send_body sock fd m c w =
    w\<lparr>tick := k, inq := (inq w)(sock := drop m (inq w sock)),
      outq := (outq w)(fd := outq w fd @ take m (inq w sock))\<rparr>"
  using assms
proof (induction m arbitrary: w c)
  case 0
  have "w = w\<lparr>tick := tick w, inq := (inq w)(sock := drop 0 (inq w sock)),
      outq := (outq w)(fd := outq w fd @ take 0 (inq w sock))\<rparr>" by (simp add: fun_upd_idem)
  then show ?case by (metis le_refl send_body.simps(1))
next
  case (Suc m)
  note nn = willing_nonneg [OF Suc.prems(1)]
  obtain x xs where x: "inq w sock = x # xs" using Suc.prems(3) by (cases "inq w sock") auto
  let ?w1 = "w\<lparr>tick := Suc (tick w), inq := (inq w)(sock := xs)\<rparr>"
  have k1: "willing n ?w1" by (rule willing_later [OF Suc.prems(1)]) simp_all
  let ?w2 = "?w1\<lparr>tick := Suc (tick ?w1), outq := (outq ?w1)(fd := outq ?w1 fd @ [x])\<rparr>"
  have k2: "willing n ?w2" by (rule willing_later [OF k1]) simp_all
  have "send_body sock fd (Suc m) c w = send_body sock fd m x ?w2"
    using willing_write [OF k1, of "[x]" fd] Suc.prems(2)
    by (simp add: recv_into_def sys_read_1 [OF nn, unfolded One_nat_def] x)
  moreover have "m \<le> length (inq ?w2 sock)" using Suc.prems(3) x by simp
  from Suc.IH [OF k2 Suc.prems(2) this] obtain k where "tick ?w2 \<le> k"
    "send_body sock fd m x ?w2 = ?w2\<lparr>tick := k, inq := (inq ?w2)(sock := drop m (inq ?w2 sock)),
       outq := (outq ?w2)(fd := outq ?w2 fd @ take m (inq ?w2 sock))\<rparr>" by blast
  ultimately have "send_body sock fd (Suc m) c w =
      w\<lparr>tick := k, inq := (inq w)(sock := drop (Suc m) (inq w sock)),
        outq := (outq w)(fd := outq w fd @ take (Suc m) (inq w sock))\<rparr>" "tick w \<le> k"
    by (simp_all add: x)
  then show ?case by blast
qed

section \<open>The CGI program\<close>

text \<open>The descriptors the kernel hands out are not the client's socket and nothing was written to them.\<close>

definition fresh_fds :: "int \<Rightarrow> os \<Rightarrow> bool" where
  "fresh_fds sock w \<longleftrightarrow> (\<forall>k \<ge> tick w. sr_ret (ans w k) \<noteq> sock \<and> outq w (sr_ret (ans w k)) = [])"

lemma fresh_fds_eat: "fresh_fds sock w \<Longrightarrow> eat sock s w w' \<Longrightarrow> fresh_fds sock w'"
  by (auto simp: eat_def fresh_fds_def)

lemma sys_pipe_willing:
  assumes "willing n w"
  shows "sys_pipe w = (Some (sr_ret (ans w (tick w)), sr_ret (ans w (Suc (tick w)))),
    w\<lparr>tick := Suc (Suc (tick w))\<rparr>)"
proof -
  let ?w1 = "w\<lparr>tick := Suc (tick w)\<rparr>"
  have k1: "willing n ?w1" by (rule willing_later [OF assms]) simp_all
  show ?thesis
    using willing_nonneg [OF assms] willing_nonneg [OF k1]
    by (simp add: sys_pipe_def willing_call [OF assms] willing_call [OF k1, simplified])
qed

definition cgi_stdin :: "string \<Rightarrow> int \<Rightarrow> string \<Rightarrow> string" where
  "cgi_stdin method content_length s =
     (if strcasecmp ''POST'' method = 0 then take (nat content_length) s else [])"

lemma cgi_father_willing:
  assumes "willing n w" "1 \<le> n" "fst cgi_output \<noteq> sock" "snd cgi_input \<noteq> sock" "outq w (snd cgi_input) = []"
    "strcasecmp ''POST'' method = 0 \<Longrightarrow> nat len \<le> length (inq w sock)"
  shows "\<exists>w'. cgi_father prog sock path method q len cgi_input cgi_output w = w' \<and>
    outq w' sock = outq w sock @ prog path (cgi_env method q) (cgi_stdin method len (inq w sock)) \<and>
    inq w' sock = drop (length (cgi_stdin method len (inq w sock))) (inq w sock)"
proof -
  let ?w1 = "close_all [fst cgi_input, snd cgi_output] w"
  let ?w2 = "if strcasecmp ''POST'' method = 0 then send_body sock (snd cgi_input) (nat len) NUL ?w1 else ?w1"
  have w1: "inq ?w1 = inq w" "outq ?w1 = outq w" "willing n ?w1"
    using assms(1) by (simp_all add: close_all_def sys_close_def willing_def)
  obtain w2 where w2: "?w2 = w2" "willing n w2" "outq w2 sock = outq w sock"
      "outq w2 (snd cgi_input) = cgi_stdin method len (inq w sock)"
      "inq w2 sock = drop (length (cgi_stdin method len (inq w sock))) (inq w sock)"
  proof (cases "strcasecmp ''POST'' method = 0")
    case True
    then have len: "nat len \<le> length (inq ?w1 sock)" using assms(6) by (simp add: w1)
    from send_body_willing [OF w1(3) assms(2) len, of "snd cgi_input" NUL] obtain k where k: "tick ?w1 \<le> k"
      "send_body sock (snd cgi_input) (nat len) NUL ?w1 =
        ?w1\<lparr>tick := k, inq := (inq ?w1)(sock := drop (nat len) (inq ?w1 sock)),
          outq := (outq ?w1)(snd cgi_input := outq ?w1 (snd cgi_input) @ take (nat len) (inq ?w1 sock))\<rparr>"
      by blast
    have wl: "willing n (send_body sock (snd cgi_input) (nat len) NUL ?w1)"
      unfolding k(2) by (rule willing_later [OF w1(3)]) (use k(1) in simp_all)
    have "length (cgi_stdin method len (inq w sock)) = nat len"
      using True len by (simp add: cgi_stdin_def w1)
    with True k wl assms(3-5) w1 that [of "send_body sock (snd cgi_input) (nat len) NUL ?w1"] show ?thesis
      by (simp add: cgi_stdin_def)
  next
    case False
    with w1 assms(5) that [of ?w1] show ?thesis by (simp add: cgi_stdin_def)
  qed
  let ?w3 = "w2\<lparr>inq := (inq w2)(fst cgi_output := prog path (cgi_env method q) (outq w2 (snd cgi_input)))\<rparr>"
  have "willing n ?w3" by (rule willing_later [OF w2(2)]) simp_all
  from send_output_willing [OF this assms(2), of "fst cgi_output" sock] obtain k where
    k: "send_output (fst cgi_output) sock ?w3 = ?w3\<lparr>tick := k, inq := (inq ?w3)(fst cgi_output := []),
      outq := (outq ?w3)(sock := outq ?w3 sock @ inq ?w3 (fst cgi_output))\<rparr>" by blast
  show ?thesis
    using assms(3) unfolding cgi_father_def Let_def w2(1) k
    by (simp add: close_all_def sys_close_def w2)
qed

lemma cgi_spawn_willing:
  assumes "willing n w" "length ok_header \<le> n" "fresh_fds sock w"
    "strcasecmp ''POST'' method = 0 \<Longrightarrow> nat len \<le> length (inq w sock)"
  shows "\<exists>w'. cgi_spawn prog sock path method q len w = w' \<and>
    outq w' sock = outq w sock @ ok_header @ prog path (cgi_env method q) (cgi_stdin method len (inq w sock)) \<and>
    inq w' sock = drop (length (cgi_stdin method len (inq w sock))) (inq w sock)"
proof -
  let ?r = "\<lambda>k. sr_ret (ans w (tick w + k))"
  let ?at = "\<lambda>k. w\<lparr>outq := (outq w)(sock := outq w sock @ ok_header), tick := tick w + k\<rparr>"
  have later: "willing n (?at k)" for k by (rule willing_later [OF assms(1)]) simp_all
  have n: "1 \<le> n" using assms(2) by (simp add: ok_header_def SERVICE_VERSION_def)
  have fd: "?r k \<noteq> sock \<and> outq w (?r k) = []" for k using assms(3) by (simp add: fresh_fds_def)
  have "w\<lparr>tick := Suc (tick w), outq := (outq w)(sock := outq w sock @ ok_header)\<rparr> = ?at 1" by simp
  with willing_write [OF assms(1,2)] have hd: "sys_send sock ok_header w = (int (length ok_header), ?at 1)"
    by metis
  have p1: "sys_pipe (?at 1) = (Some (?r 1, ?r 2), ?at 3)"
    using sys_pipe_willing [OF later [of 1]] by (simp add: eval_nat_numeral)
  have p2: "sys_pipe (?at 3) = (Some (?r 3, ?r 4), ?at 5)"
    using sys_pipe_willing [OF later [of 3]] by (simp add: eval_nat_numeral)
  have pid: "sys_call (?at 5) = (?r 5, ?at 6)" "\<not> ?r 5 < 0"
    using willing_call [OF later [of 5]] willing_nonneg [OF later [of 5]] by (simp_all add: eval_nat_numeral)
  have "cgi_spawn prog sock path method q len w =
      cgi_father prog sock path method q len (?r 1, ?r 2) (?r 3, ?r 4) (?at 6)"
    unfolding cgi_spawn_def hd prod.case p1 option.case p2 pid(1) using pid(2) by simp
  moreover have "strcasecmp ''POST'' method = 0 \<Longrightarrow> nat len \<le> length (inq (?at 6) sock)" using assms(4) by simp
  ultimately show ?thesis
    using cgi_father_willing [OF later [of 6] n, of "(?r 3, ?r 4)" sock "(?r 1, ?r 2)" "method" len prog path q]
      fd [of 2] fd [of 3] by simp
qed

section \<open>The headers of a POST\<close>

definition header_length :: "string \<Rightarrow> int \<Rightarrow> int" where
  "header_length h cl =
     (if strncasecmp (h @ [LF]) ''Content-Length:'' 15 = 0 then atoi (drop 16 (h @ [LF])) else cl)"

definition content_length_of :: "string list \<Rightarrow> int" where
  "content_length_of hs = fold header_length hs 0"

lemma c_str_drop_put_line:
  assumes "is_cstring l" "length l < n"
  shows "c_str (drop k (put_line (replicate n NUL) l)) = drop k l"
proof -
  have "put_line (replicate n NUL) l = l @ replicate (n - length l) NUL"
    using assms(2) by (cases "n - length l") (auto simp: put_line_def)
  moreover have "is_cstring (drop k l)" using assms(1) by (auto simp: is_cstring_def dest: in_set_dropD)
  ultimately show ?thesis
    using c_str_replicate_NUL [of "drop k l"] c_str_replicate_NUL [of "[]"] by (simp add: c_str_id)
qed

lemma post_headers_step:
  assumes "quiet w" "set h \<inter> {CR, LF, NUL} = {}" "length h < 1023" "inq w sock = h @ CR # LF # s"
  obtains w' where "eat sock s w w'"
    "post_headers sock cl w =
       (if h = [] then Some (cl, w') else post_headers sock (header_length h cl) w')"
proof -
  let ?b = "replicate BUF_SIZE NUL" and ?l = "h @ [LF]"
  have "next_line (length ?b - 1) (inq w sock) = (?l, s)"
    using assms by (auto simp: BUF_SIZE_def intro: next_line_crlf)
  from get_line_quiet [OF assms(1) _ _ this] obtain w' where
    w': "get_line sock (Some ?b) BUF_SIZE w = Some (1, put_line ?b ?l, w')" "eat sock s w w'"
    by (auto simp: BUF_SIZE_def)
  have cs: "is_cstring ?l" using assms(2) by (auto simp: is_cstring_def)
  then have "c_str (put_line ?b ?l) = ?l" "strcmp ?l [LF] = 0 \<longleftrightarrow> h = []"
    by (auto simp: c_str_put_line strcmp_LF_iff)
  moreover have "c_str (drop 16 (put_line ?b ?l)) = drop 16 ?l"
    by (rule c_str_drop_put_line) (use cs assms(3) in \<open>simp_all add: BUF_SIZE_def\<close>)
  moreover have "header_length [] cl = cl" by (simp add: header_length_def strncasecmp_def tolower_def uchar_def)
  ultimately have "post_headers sock cl w =
      (if h = [] then Some (cl, w') else post_headers sock (header_length h cl) w')"
    using w'(1) by (subst post_headers.simps) (auto simp: Let_def header_length_def simp del: One_nat_def)
  with w'(2) that show ?thesis by blast
qed

lemma post_headers_block:
  assumes "quiet w" "list_all header_line hs" "inq w sock = header_block hs @ body"
  shows "\<exists>w'. post_headers sock cl w = Some (fold header_length hs cl, w') \<and> eat sock body w w'"
  using assms
proof (induction hs arbitrary: cl w)
  case Nil
  then have "inq w sock = [] @ CR # LF # body" by (simp add: header_block_def)
  from post_headers_step [OF Nil.prems(1) _ _ this] show ?case by (auto simp: id_def)
next
  case (Cons h hs)
  have h: "set h \<inter> {CR, LF, NUL} = {}" "length h < 1023" "h \<noteq> []"
    using Cons.prems(2) by (simp_all add: header_line_def)
  have "inq w sock = h @ CR # LF # header_block hs @ body"
    using Cons.prems(3) by (simp add: header_block_def)
  from post_headers_step [OF Cons.prems(1) h(1,2) this] h(3)
  obtain w1 where w1: "eat sock (header_block hs @ body) w w1"
    "post_headers sock cl w = post_headers sock (header_length h cl) w1" by auto
  from Cons.IH [OF eat_quiet [OF w1(1) Cons.prems(1)] _ eat_inq [OF w1(1)]] Cons.prems(2)
  obtain w' where "post_headers sock (header_length h cl) w1 = Some (fold header_length hs (header_length h cl), w')"
    "eat sock body w1 w'" by auto
  with w1 eat_trans show ?case by (metis fold_Cons comp_apply)
qed

section \<open>From the URL to the file\<close>

definition doc_path :: "string \<Rightarrow> string" where
  "doc_path u = ''htdocs'' @ u @ (if u \<noteq> [] \<and> last u = CHR ''/'' then MAIN_PAGE else [])"

lemma map_path_doc: "length u \<le> 1000 \<Longrightarrow> map_path u = Some (doc_path u)"
  by (simp add: map_path_def bounded_def doc_path_def MAIN_PAGE_def BUF_SIZE_def last_append)

lemma split_url_plain:
  assumes "strcasecmp m ''POST'' \<noteq> 0" "CHR ''?'' \<notin> set u"
  shows "\<exists>q. split_url m u = (u, q, False)"
proof -
  have no_query: "takeWhile (\<lambda>c. c \<noteq> CHR ''?'') u = u" "dropWhile (\<lambda>c. c \<noteq> CHR ''?'') u = []"
    using assms(2) by (auto simp: takeWhile_eq_all_conv dropWhile_eq_Nil_conv)
  show ?thesis using assms(1) by (simp add: split_url_def Let_def no_query)
qed

lemma split_url_length: "length (fst (split_url m u)) \<le> length u"
  by (simp add: split_url_def Let_def length_takeWhile_le split: list.split)

lemma clear_header_block:
  assumes "quiet w" "list_all header_line hs" "inq w sock = header_block hs @ body"
  obtains w' where "clear_header sock w = Some w'" "eat sock body w w'"
  using clear_header_loop_block [OF assms(1) _ assms(2,3), of "replicate 1024 NUL"]
  by (auto simp: clear_header_def)

lemma eat_frame: "eat sock s w w' \<Longrightarrow> outq w' = outq w \<and> closed w' = closed w \<and> ans w' = ans w \<and> tick w \<le> tick w'"
  by (auto simp: eat_def)

lemma strcasecmp_GET_not_POST:
  assumes "strcasecmp m ''GET'' = 0"
  shows "strcasecmp m ''POST'' \<noteq> 0"
proof (cases m)
  case Nil
  with assms show ?thesis by (simp add: strcasecmp_def tolower_def uchar_def)
next
  case (Cons c s)
  have "tolower (CHR ''G'') = 103" "tolower (CHR ''P'') = 112" by (simp_all add: tolower_def uchar_def)
  with Cons assms show ?thesis by (auto simp: strcasecmp_def split: if_splits)
qed

text \<open>A request that is not for a program: the file at \<open>target\<close> is sent, cut at \<open>st_size\<close>.\<close>

lemma accept_request_plain:
  assumes "willing n w" "length ok_header \<le> n" "well_formed m u hs" "inq w sock = request m u hs @ body"
    and m: "0 \<le> strcasecmp m ''GET''" "strcasecmp m ''POST'' \<noteq> 0" and "CHR ''?'' \<notin> set u"
    and "vfs_stat fs (doc_path u) = Some st"
    and target: "S_ISDIR (st_mode st) \<and> target = doc_path u @ ''/'' @ MAIN_PAGE \<or>
      \<not> S_ISDIR (st_mode st) \<and> \<not> any_exec (st_mode st) \<and> target = doc_path u"
    and k: "k = nat (take_bit 32 (st_size st))" "length (take k (vfs_content fs target)) \<le> n"
  shows "\<exists>w'. accept_request fs prog sock w = Some w' \<and>
    outq w' = (outq w)(sock := outq w sock @ ok_header @ take k (vfs_content fs target)) \<and>
    inq w' sock = body \<and> (\<exists>k \<ge> tick w. closed w' = sock # sr_ret (ans w k) # closed w)"
proof -
  have u: "length u \<le> 990" and hs: "list_all header_line hs" using assms(3) by (simp_all add: well_formed_def)
  obtain w1 where w1: "eat sock (header_block hs @ body) w w1"
    "accept_request fs prog sock w = dispatch fs prog sock m u w1"
    by (rule accept_request_parses [OF willing_quiet [OF assms(1)] assms(3,4)]) (use m(1) in \<open>simp add: method_rejected_iff\<close>)
  note wl1 = willing_eat [OF assms(1) w1(1)]
  obtain w2 where w2: "clear_header sock w1 = Some w2" "eat sock body w1 w2"
    by (rule clear_header_block [OF willing_quiet [OF wl1] hs eat_inq [OF w1(1)]])
  obtain q where q: "split_url m u = (u, q, False)" using split_url_plain [OF m(2) assms(7)] by blast
  have "bounded BUF_SIZE (doc_path u @ ''/'' @ MAIN_PAGE) = Some (doc_path u @ ''/'' @ MAIN_PAGE)"
    using u by (simp add: bounded_def doc_path_def MAIN_PAGE_def BUF_SIZE_def)
  then have "dispatch fs prog sock m u w1 = Some (sys_close sock (echo_html fs sock (Some target) k w2))"
    using target u by (auto simp: dispatch_def q map_path_doc assms(8) serve_file_def w2(1) k(1))
  moreover obtain w3 where w3: "echo_html fs sock (Some target) k w2 = w3" "inq w3 = inq w2"
    "closed w3 = sr_ret (ans w2 (tick w2)) # closed w2" "outq w3 = (outq w2)(sock := outq w2 sock @ ok_header @ take k (vfs_content fs target))"
    using echo_html_willing [OF willing_eat [OF wl1 w2(2)] assms(2) k(2), of sock] by auto
  ultimately show ?thesis
    using w1(2) eat_frame [OF w1(1)] eat_frame [OF w2(2)] eat_inq [OF w2(2)]
    by (auto simp: sys_close_def intro: exI [of _ "tick w2"])
qed

lemma next_line_fill: "set l \<inter> {CR, LF} = {} \<Longrightarrow> next_line (length l) (l @ s) = (l, s)"
  by (induction l) auto

text \<open>A line that fills the buffer without a space after the URL.\<close>

lemma parse_request_runs_off:
  assumes "request_token u" "length u = 1019"
  shows "parse_request (''GET'' @ CHR '' '' # u @ [NUL]) = None"
proof -
  let ?b = "''GET'' @ CHR '' '' # u @ [NUL]"
  have u: "\<forall>c \<in> set (u @ [NUL]). \<not> isspace c" using assms(1) by (auto simp: request_token_def)
  have sp: "\<not> isspace (?b ! k)" if "4 \<le> k" "k < 1024" for k
  proof -
    have "?b ! k = (u @ [NUL]) ! (k - 4)" using that(1) by (simp add: nth_Cons' eval_nat_numeral)
    moreover have "k - 4 < length (u @ [NUL])" using that assms(2) by simp
    ultimately show ?thesis using u by (metis nth_mem)
  qed
  have runs_off: "copy_token ?b BUF_SIZE 0 4 [] = None"
    by (rule copy_token_runs_off) (use sp assms(2) in \<open>simp_all add: BUF_SIZE_def\<close>)
  have meth: "copy_token ?b (BUF_SIZE div 10) 0 0 [] = Some (''GET'', 3)"
    using copy_token_stops [of "''GET''" 0 102 "CHR '' ''" "[]" "u @ [NUL]" "[]"]
    by (simp add: BUF_SIZE_def isspace_def)
  obtain x u' where x: "u = x # u'" "\<not> isspace x" using u assms(2) by (cases u) auto
  have "skip_space ?b (length ''GET'') = Some (Suc (length ''GET''))"
    using skip_space_one [of "CHR '' ''" x "''GET''" "u' @ [NUL]"] x by (simp add: isspace_def)
  moreover have "length ''GET'' = 3" "Suc (length ''GET'') = 4" by simp_all
  ultimately have "skip_space ?b 3 = Some 4" by argo
  with runs_off meth show ?thesis by (simp add: parse_request_def)
qed

text \<open>A request for a program: it runs with the environment and the input the request determines.\<close>

lemma cgi_answer:
  assumes "willing n w" "length ok_header \<le> n" "fresh_fds sock w" "well_formed m u hs"
    "inq w sock = request m u hs @ body" "\<not> method_rejected m" "split_url m u = (p, q, True)"
    and st: "vfs_stat fs (doc_path p) = Some st" "\<not> S_ISDIR (st_mode st)"
    and hd: "\<And>w1. quiet w1 \<Longrightarrow> inq w1 sock = header_block hs @ body \<Longrightarrow>
      exe_cgi prog sock (doc_path p) m q w1 = map_option (cgi_spawn prog sock (doc_path p) m q len) (Some (out w1)) \<and>
      eat sock body w1 (out w1)"
    and len: "strcasecmp ''POST'' m = 0 \<Longrightarrow> nat len \<le> length body"
  shows "\<exists>w'. accept_request fs prog sock w = Some w' \<and>
    outq w' sock = outq w sock @ ok_header @ prog (doc_path p) (cgi_env m q) (cgi_stdin m len body) \<and>
    inq w' sock = drop (length (cgi_stdin m len body)) body \<and> hd (closed w') = sock"
proof -
  have u: "length p \<le> 990"
    using assms(4) split_url_length [of m u] assms(7) by (simp add: well_formed_def)
  obtain w1 where w1: "eat sock (header_block hs @ body) w w1"
    "accept_request fs prog sock w = dispatch fs prog sock m u w1"
    by (rule accept_request_parses [OF willing_quiet [OF assms(1)] assms(4,5)]) (use assms(6) in simp)
  note wl1 = willing_eat [OF assms(1) w1(1)]
  note h = hd [OF willing_quiet [OF wl1] eat_inq [OF w1(1)]]
  have "dispatch fs prog sock m u w1 = Some (sys_close sock (cgi_spawn prog sock (doc_path p) m q len (out w1)))"
    using u h by (simp add: dispatch_def assms(7) map_path_doc st serve_file_def)
  moreover have "inq (out w1) sock = body" using h eat_inq by blast
  moreover have "outq (out w1) sock = outq w sock" using h eat_frame w1(1) by metis
  moreover obtain w3 where "cgi_spawn prog sock (doc_path p) m q len (out w1) = w3"
    "outq w3 sock = outq (out w1) sock @ ok_header @
       prog (doc_path p) (cgi_env m q) (cgi_stdin m len (inq (out w1) sock))"
    "inq w3 sock = drop (length (cgi_stdin m len (inq (out w1) sock))) (inq (out w1) sock)"
    using cgi_spawn_willing [OF willing_eat [OF wl1 conjunct2 [OF h]] assms(2)
        fresh_fds_eat [OF fresh_fds_eat [OF assms(3) w1(1)] conjunct2 [OF h]], of m len prog "doc_path p" q]
      len \<open>inq (out w1) sock = body\<close> by auto
  ultimately show ?thesis using w1(2) by (simp add: sys_close_def)
qed

section \<open>Example requests\<close>

text \<open>A site with the page \<open>/a.html\<close>, the directory \<open>/d\<close> and the program \<open>/find\<close>, and a kernel that takes
  any write and hands out the descriptor 5000.\<close>

definition site :: vfs where
  "site = \<lparr>vfs_stat = (\<lambda>p. if p = ''htdocs/a.html'' then Some \<lparr>st_mode = 33188, st_size = 5\<rparr>
       else if p = ''htdocs/d'' then Some \<lparr>st_mode = 16877, st_size = 3\<rparr>
       else if p = ''htdocs/find'' then Some \<lparr>st_mode = 33261, st_size = 9\<rparr> else None),
     vfs_content = (\<lambda>p. if p = ''htdocs/a.html'' then ''hello'' else if p = ''htdocs/d/index.html'' then ''abcdef'' else [])\<rparr>"

definition echo_prog :: "string \<Rightarrow> string list option \<Rightarrow> string \<Rightarrow> string" where
  "echo_prog path env input = path @ (case env of None \<Rightarrow> [] | Some vs \<Rightarrow> concat vs) @ input"

lemma site_modes [simp]: "\<not> S_ISDIR 33188" "\<not> any_exec 33188" "S_ISDIR 16877" "\<not> S_ISDIR 33261"
  by (simp_all add: S_ISDIR_def any_exec_def)

lemma length_ok_header: "length ok_header = 57"
  by (simp add: ok_header_def SERVICE_VERSION_def)

lemma os_with_willing: "willing 5000 (os_with 5000 s)" "fresh_fds 4 (os_with 5000 s)"
  by (simp_all add: willing_def fresh_fds_def os_with_def)

lemma os_with_fields: "inq (os_with r s) fd = s" "outq (os_with r s) fd = []" "closed (os_with r s) = []"
  by (simp_all add: os_with_def)

lemma example_requests:
  "well_formed ''HEAD'' ''/a.html'' [''Host: h'']" "well_formed ''GET'' ''/d'' []"
  "well_formed ''GET'' (''/find'' @ CHR ''?'' # ''city=x'') [''Host: h'']"
  "well_formed ''POST'' ''/find'' [''Content-Length: 3'']" "well_formed ''DELETE'' ''/a.html'' []"
  by (simp_all add: well_formed_def request_token_def isspace_def header_line_def)

lemma example_paths: "doc_path ''/a.html'' = ''htdocs/a.html''" "doc_path ''/d'' = ''htdocs/d''"
  "doc_path ''/find'' = ''htdocs/find''"
  by (simp_all add: doc_path_def)

section \<open>The properties of request handling\<close>



text \<open>A request for a directory is answered with its \<open>index.html\<close>, but cut at the size \<open>stat\<close> reported for
  the directory, so that a longer page loses its end.\<close>

theorem accept_request_directory:
  assumes "willing n w" and "length ok_header \<le> n"
    and "well_formed m u hs" and "inq w sock = request m u hs @ body"
    and "0 \<le> strcasecmp m ''GET''" and "strcasecmp m ''POST'' \<noteq> 0" and "CHR ''?'' \<notin> set u"
    and "vfs_stat fs (doc_path u) = Some st" and "S_ISDIR (st_mode st)"
    and "st_size st = int k" and "int k < 2 ^ 32" and "k \<le> n"
  shows "\<exists>w'. accept_request fs prog sock w = Some w' \<and>
    outq w' = (outq w)(sock := outq w sock @ ok_header @
      take k (vfs_content fs (doc_path u @ ''/'' @ MAIN_PAGE))) \<and>
    inq w' sock = body \<and> hd (closed w') = sock"
proof -
  have k: "k = nat (take_bit 32 (st_size st))" using assms(10,11) by (simp add: take_bit_int_eq_self)
  have "length (take k (vfs_content fs (doc_path u @ ''/'' @ MAIN_PAGE))) \<le> n" using assms(12) by simp
  from accept_request_plain [OF assms(1-8) disjI1 [OF conjI [OF assms(9) refl]] k this, of prog] show ?thesis by auto
qed

theorem accept_request_directory_witness:
  "\<exists>w'. accept_request site echo_prog 4 (os_with 5000 (request ''GET'' ''/d'' [] @ [])) = Some w' \<and>
     outq w' 4 = ok_header @ ''abc''"
proof -
  let ?w = "os_with 5000 (request ''GET'' ''/d'' [] @ [])"
  have "\<exists>w'. accept_request site echo_prog 4 ?w = Some w' \<and>
      outq w' = (outq ?w)(4 := outq ?w 4 @ ok_header @
        take 3 (vfs_content site (doc_path ''/d'' @ ''/'' @ MAIN_PAGE))) \<and>
      inq w' 4 = [] \<and> hd (closed w') = 4"
    by (rule accept_request_directory [OF os_with_willing(1) _ example_requests(2),
            where st = "\<lparr>st_mode = 16877, st_size = 3\<rparr>"])
      (simp_all add: os_with_fields example_paths site_def length_ok_header strcasecmp_def tolower_def uchar_def)
  moreover have "take 3 (vfs_content site (doc_path ''/d'' @ ''/'' @ MAIN_PAGE)) = ''abc''"
    by (simp add: example_paths site_def MAIN_PAGE_def eval_nat_numeral)
  ultimately show ?thesis by (auto simp: os_with_fields)
qed

text \<open>A request whose method sorts before GET, and a request for a file that does not exist, get no answer at
  all: nothing is written to any descriptor and the connection is left open.\<close>

theorem accept_request_silent:
  assumes "quiet w" and "well_formed m u hs" and "inq w sock = request m u hs @ body"
    and "strcasecmp m ''GET'' < 0 \<or> vfs_stat fs (doc_path (fst (split_url m u))) = None"
  shows "\<exists>w'. accept_request fs prog sock w = Some w' \<and> outq w' = outq w \<and> closed w' = closed w"
proof -
  have u: "length u \<le> 990" and hs: "list_all header_line hs" using assms(2) by (simp_all add: well_formed_def)
  obtain w1 where w1: "eat sock (header_block hs @ body) w w1"
    "accept_request fs prog sock w = (if method_rejected m then Some w1 else dispatch fs prog sock m u w1)"
    by (rule accept_request_parses [OF assms(1-3)])
  obtain w2 where w2: "clear_header sock w1 = Some w2" "eat sock body w1 w2"
    by (rule clear_header_block [OF eat_quiet [OF w1(1) assms(1)] hs eat_inq [OF w1(1)]])
  obtain p q cgi where s: "split_url m u = (p, q, cgi)" by (cases "split_url m u") auto
  have "length p \<le> length u" using split_url_length [of m u] s by simp
  then have "map_path p = Some (doc_path p)" using u by (simp add: map_path_doc)
  then have "\<not> method_rejected m \<Longrightarrow> dispatch fs prog sock m u w1 = Some w2"
    using assms(4) by (auto simp: dispatch_def s method_rejected_iff w2(1))
  then show ?thesis
    using w1(2) eat_frame [OF w1(1)] eat_frame [OF w2(2)] by (cases "method_rejected m") auto
qed

theorem accept_request_silent_witness:
  "\<exists>w'. accept_request site echo_prog 4 (os_with 5000 (request ''DELETE'' ''/a.html'' [] @ [])) = Some w' \<and>
     outq w' 4 = [] \<and> closed w' = []"
proof -
  let ?w = "os_with 5000 (request ''DELETE'' ''/a.html'' [] @ [])"
  have "\<exists>w'. accept_request site echo_prog 4 ?w = Some w' \<and> outq w' = outq ?w \<and> closed w' = closed ?w"
    by (rule accept_request_silent [OF willing_quiet [OF os_with_willing(1)] example_requests(5) os_with_fields(1)])
      (simp add: strcasecmp_def tolower_def uchar_def)
  then show ?thesis by (auto simp: os_with_fields)
qed

lemma cgi_get_answer:
  assumes "willing n w" and "length ok_header \<le> n" and "fresh_fds sock w"
    and "well_formed ''GET'' (p @ CHR ''?'' # q) hs" and "CHR ''?'' \<notin> set p" and "length q \<le> 88"
    and "inq w sock = request ''GET'' (p @ CHR ''?'' # q) hs @ body"
    and "vfs_stat fs (doc_path p) = Some st" and "\<not> S_ISDIR (st_mode st)"
  shows "\<exists>w'. accept_request fs prog sock w = Some w' \<and>
    outq w' sock = outq w sock @ ok_header @
      prog (doc_path p) (Some [''REQUEST_METHOD=GET'', ''QUERY_STRING='' @ q]) [] \<and>
    inq w' sock = body \<and> hd (closed w') = sock"
proof -
  have hs: "list_all header_line hs" using assms(4) by (simp add: well_formed_def)
  have g: "strcasecmp ''GET'' ''GET'' = 0" "strcasecmp ''GET'' ''POST'' \<noteq> 0" "strcasecmp ''POST'' ''GET'' \<noteq> 0"
    by (simp_all add: strcasecmp_def tolower_def uchar_def)
  have tw: "takeWhile (\<lambda>c. c \<noteq> CHR ''?'') (p @ CHR ''?'' # q) = p"
    "dropWhile (\<lambda>c. c \<noteq> CHR ''?'') (p @ CHR ''?'' # q) = CHR ''?'' # q"
    using assms(5) by (auto simp: takeWhile_append dropWhile_append)
  have sp: "split_url ''GET'' (p @ CHR ''?'' # q) = (p, Some q, True)"
    by (simp add: split_url_def Let_def g tw)
  have env: "cgi_env ''GET'' (Some q) = Some [''REQUEST_METHOD=GET'', ''QUERY_STRING='' @ q]"
    using assms(6) by (simp add: cgi_env_def g BUF_SIZE_def)
  have stdin: "cgi_stdin ''GET'' 0 body = []" by (simp add: cgi_stdin_def g)
  have rej: "\<not> method_rejected ''GET''" by (simp add: method_rejected_iff g)
  have hdr: "exe_cgi prog sock (doc_path p) ''GET'' (Some q) w1 =
        map_option (cgi_spawn prog sock (doc_path p) ''GET'' (Some q) 0) (Some (the (clear_header sock w1))) \<and>
      eat sock body w1 (the (clear_header sock w1))"
    if "quiet w1" "inq w1 sock = header_block hs @ body" for w1
    by (rule clear_header_block [OF that(1) hs that(2)]) (simp add: exe_cgi_def g)
  show ?thesis
    using cgi_answer [OF assms(1-4,7) rej sp assms(8,9) hdr] g(3) by (simp add: env stdin)
qed





text \<open>A GET for a URL of 1019 bytes or more is undefined behaviour under every kernel that does not fail: the
  line fills the buffer and the scan for the end of the URL runs off it.\<close>

theorem accept_request_long_url:
  assumes "quiet w" and "inq w sock = ''GET '' @ u @ s" and "request_token u" and "length u = 1019"
  shows "accept_request fs prog sock w = None"
proof -
  let ?b = "replicate BUF_SIZE NUL" and ?l = "''GET '' @ u"
  have no_eol: "set ?l \<inter> {CR, LF} = {}" using request_token_no_eol [OF assms(3)] by auto
  have "next_line (length ?b - 1) (inq w sock) = (?l, s)"
    using next_line_fill [OF no_eol, of s] assms(2,4) by (simp add: BUF_SIZE_def)
  from get_line_quiet [OF assms(1) _ _ this] obtain w' where
    w': "get_line sock (Some ?b) BUF_SIZE w = Some (1, put_line ?b ?l, w')"
    by (auto simp: BUF_SIZE_def)
  have "put_line ?b ?l = ''GET'' @ CHR '' '' # u @ [NUL]"
    using assms(4) by (simp add: put_line_def BUF_SIZE_def)
  with parse_request_runs_off [OF assms(3,4)] have "parse_request (put_line ?b ?l) = None" by metis
  with w' show ?thesis by (simp add: accept_request_def)
qed

theorem accept_request_long_url_witness:
  "accept_request site echo_prog 4 (os_with 1 (''GET '' @ replicate 1019 (CHR ''a'') @ '' HTTP/1.1'')) = None"
  by (rule accept_request_long_url [of _ _ "replicate 1019 (CHR ''a'')" "'' HTTP/1.1''"])
    (auto simp: quiet_def os_with_def request_token_def isspace_def is_cstring_def)

end
