(* ===== verification/Thread_Pool.thy ===== *)
theory Thread_Pool
  imports Sys_Calls
begin

text \<open>
  \<open>threadpool.c\<close>, the operations.

  A task is a value (the function pointer with its argument). The list behind the dummy head is the
  list of queued tasks, first the one the next worker takes. The mutex is the identity of the thread
  that holds it. What a critical section does between its \<open>pthread_mutex_lock\<close> and its
  \<open>pthread_mutex_unlock\<close> is one function; whether the pthread calls and \<open>malloc\<close> succeed is the
  kernel's choice. A section that wakes waiting threads says so in its result; which threads wake is
  decided by the interleaved semantics in \<open>Thread_Pool_Run\<close>. \<open>None\<close> is undefined behaviour.
\<close>

definition immediate_shutdown :: int where "immediate_shutdown = 1"
definition graceful_shutdown :: int where "graceful_shutdown = 2"
definition tp_invalid :: int where "tp_invalid = -1"
definition tp_lock_fail :: int where "tp_lock_fail = -2"
definition tp_already_shutdown :: int where "tp_already_shutdown = -3"
definition tp_cond_broadcast :: int where "tp_cond_broadcast = -4"
definition tp_thread_fail :: int where "tp_thread_fail = -5"

lemmas tp_codes = immediate_shutdown_def graceful_shutdown_def tp_invalid_def tp_lock_fail_def
  tp_already_shutdown_def tp_cond_broadcast_def tp_thread_fail_def

datatype tid = Main | Worker nat

record 'a threadpool =
  lock :: "tid option"
  head :: "'a list"
  thread_count :: int
  queue_size :: int
  shutdown :: int
  start_size :: int

datatype wake = No_wake | Signal | Broadcast

text \<open>A pthread call succeeds or fails.\<close>

definition sys_ok :: "os \<Rightarrow> bool \<times> os" where
  "sys_ok w = (case sys_call w of (r, w') \<Rightarrow> (0 \<le> r, w'))"

section \<open>threadpool\_add\<close>

text \<open>The label \<open>out\<close>.\<close>

definition add_out :: "int \<Rightarrow> 'a threadpool \<Rightarrow> wake \<Rightarrow> os \<Rightarrow> int \<times> 'a threadpool \<times> wake \<times> os" where
  "add_out err p wk w =
     (case sys_ok w of (ok, w') \<Rightarrow>
        if ok then (err, p\<lparr>lock := None\<rparr>, wk, w') else (-1, p, wk, w'))"

text \<open>With the lock held: a full heap returns without releasing it.\<close>

definition add_section :: "'a \<Rightarrow> 'a threadpool \<Rightarrow> os \<Rightarrow> int \<times> 'a threadpool \<times> wake \<times> os" where
  "add_section task p w =
     (if shutdown p \<noteq> 0 then add_out tp_already_shutdown p No_wake w
      else (case sys_malloc w of (got, w1) \<Rightarrow>
              if \<not> got then (-1, p, No_wake, w1)
              else (case sys_ok w1 of (rc, w2) \<Rightarrow>
                      add_out 0 (p\<lparr>head := task # head p, queue_size := queue_size p + 1\<rparr>)
                        (if rc then Signal else No_wake) w2)))"

text \<open>A call by a thread that finds the lock free.\<close>

definition threadpool_add ::
  "tid \<Rightarrow> 'a threadpool option \<Rightarrow> 'a option \<Rightarrow> os \<Rightarrow> int \<times> 'a threadpool option \<times> wake \<times> os" where
  "threadpool_add self pool task w =
     (case pool of
        None \<Rightarrow> (-1, pool, No_wake, w)
      | Some p \<Rightarrow>
          (case task of
             None \<Rightarrow> (-1, pool, No_wake, w)
           | Some t \<Rightarrow>
               (case sys_ok w of (ok, w1) \<Rightarrow>
                  if \<not> ok then (-1, pool, No_wake, w1)
                  else (case add_section t (p\<lparr>lock := Some self\<rparr>) w1 of (r, p', wk, w2) \<Rightarrow>
                          (r, Some p', wk, w2)))))"

section \<open>threadpool\_free and threadpool\_destroy\<close>

text \<open>The thread array and every queued task are freed, the dummy head and the pool itself are not.\<close>

definition threadpool_free :: "'a threadpool option \<Rightarrow> os \<Rightarrow> int \<times> 'a threadpool option \<times> os" where
  "threadpool_free pool w =
     (case pool of
        None \<Rightarrow> (-1, pool, w)
      | Some p \<Rightarrow>
          if start_size p > 0 then (-1, pool, w)
          else (0, Some (p\<lparr>head := []\<rparr>), (sys_free ^^ length (head p)) (sys_free w)))"

text \<open>With the lock held: only the successful path releases it.\<close>

definition destroy_section ::
  "bool \<Rightarrow> 'a threadpool \<Rightarrow> os \<Rightarrow> int \<times> 'a threadpool \<times> wake \<times> os" where
  "destroy_section graceful p w =
     (if shutdown p \<noteq> 0 then (tp_already_shutdown, p, No_wake, w)
      else
        let p1 = p\<lparr>shutdown := (if graceful then graceful_shutdown else immediate_shutdown)\<rparr>
        in (case sys_ok w of (bc, w1) \<Rightarrow>
              if \<not> bc then (tp_cond_broadcast, p1, No_wake, w1)
              else (case sys_ok w1 of (ul, w2) \<Rightarrow>
                      if \<not> ul then (tp_lock_fail, p1, Broadcast, w2)
                      else (0, p1\<lparr>lock := None\<rparr>, Broadcast, w2))))"

fun join_all :: "nat \<Rightarrow> int \<Rightarrow> os \<Rightarrow> int \<times> os" where
  "join_all 0 err w = (err, w)"
| "join_all (Suc n) err w =
     (case sys_ok w of (ok, w1) \<Rightarrow> join_all n (if ok then err else tp_thread_fail) w1)"

text \<open>After the joins.\<close>

definition destroy_finish :: "int \<Rightarrow> 'a threadpool \<Rightarrow> os \<Rightarrow> int \<times> 'a threadpool \<times> os" where
  "destroy_finish err p w =
     (if err = 0 then (case threadpool_free (Some p) w of (_, p', w') \<Rightarrow> (err, the p', w'))
      else (err, p, w))"

text \<open>A joined worker has left its loop, where it counted itself out.\<close>

definition workers_gone :: "'a threadpool \<Rightarrow> 'a threadpool" where
  "workers_gone p = p\<lparr>start_size := start_size p - thread_count p\<rparr>"

definition threadpool_destroy ::
  "tid \<Rightarrow> 'a threadpool option \<Rightarrow> bool \<Rightarrow> os \<Rightarrow> int \<times> 'a threadpool option \<times> wake \<times> os" where
  "threadpool_destroy self pool graceful w =
     (case pool of
        None \<Rightarrow> (tp_invalid, pool, No_wake, w)
      | Some p \<Rightarrow>
          (case sys_ok w of (ok, w1) \<Rightarrow>
             if \<not> ok then (tp_lock_fail, pool, No_wake, w1)
             else
               (case destroy_section graceful (p\<lparr>lock := Some self\<rparr>) w1 of (err, p1, wk, w2) \<Rightarrow>
                  if err \<noteq> 0 then (err, Some p1, wk, w2)
                  else
                    (case join_all (nat (thread_count p1)) 0 w2 of (err', w3) \<Rightarrow>
                       (case destroy_finish err' (workers_gone p1) w3 of (r, p2, w4) \<Rightarrow>
                          (r, Some p2, wk, w4))))))"

section \<open>threadpool\_init\<close>

text \<open>A failing \<open>pthread_create\<close> shuts the pool down again.\<close>

fun create_threads :: "nat \<Rightarrow> 'a threadpool \<Rightarrow> os \<Rightarrow> 'a threadpool option \<times> os" where
  "create_threads 0 p w = (Some p, w)"
| "create_threads (Suc n) p w =
     (case sys_ok w of (ok, w1) \<Rightarrow>
        if \<not> ok then (case threadpool_destroy Main (Some p) False w1 of (_, _, _, w2) \<Rightarrow> (None, w2))
        else create_threads n (p\<lparr>thread_count := thread_count p + 1, start_size := start_size p + 1\<rparr>) w1)"

definition new_pool :: "'a threadpool" where
  "new_pool = \<lparr>lock = None, head = [], thread_count = 0, queue_size = 0, shutdown = 0, start_size = 0\<rparr>"

text \<open>
  When one of the two allocations fails, the error path reads \<open>head->next\<close> of a head that is NULL or
  not yet initialised.
\<close>

definition threadpool_init :: "int \<Rightarrow> os \<Rightarrow> ('a threadpool option \<times> os) option" where
  "threadpool_init thread_num w =
     (if thread_num \<le> 0 then Some (None, w)
      else
        (case sys_malloc w of (pool_ok, w1) \<Rightarrow>
           if \<not> pool_ok then Some (None, w1)
           else
             (case sys_malloc w1 of (threads_ok, w2) \<Rightarrow>
                (case sys_malloc w2 of (head_ok, w3) \<Rightarrow>
                   if \<not> threads_ok \<or> \<not> head_ok then None
                   else
                     (case sys_ok w3 of (mutex_ok, w4) \<Rightarrow>
                        if \<not> mutex_ok
                        then (case threadpool_free (Some (new_pool :: 'a threadpool)) w4 of (_, _, w5) \<Rightarrow> Some (None, w5))
                        else
                          (case sys_ok w4 of (cond_ok, w5) \<Rightarrow>
                             if \<not> cond_ok
                             then (case threadpool_free (Some (new_pool :: 'a threadpool)) w5 of (_, _, w6) \<Rightarrow> Some (None, w6))
                             else Some (create_threads (nat thread_num) new_pool w5)))))))"

section \<open>threadpool\_worker\<close>

datatype 'a action = Wait | Exit | Retry | Run 'a

text \<open>
  What a worker does with the lock held, from the test of the inner loop to the point where it releases
  the lock: it waits, leaves, tries again, or takes the first task.
\<close>

definition worker_section :: "'a threadpool \<Rightarrow> 'a action \<times> 'a threadpool" where
  "worker_section p =
     (if queue_size p = 0 \<and> shutdown p = 0 then (Wait, p\<lparr>lock := None\<rparr>)
      else if shutdown p = immediate_shutdown \<or> shutdown p = graceful_shutdown \<and> queue_size p = 0
      then (Exit, p\<lparr>start_size := start_size p - 1, lock := None\<rparr>)
      else (case head p of
              [] \<Rightarrow> (Retry, p\<lparr>lock := None\<rparr>)
            | t # ts \<Rightarrow> (Run t, p\<lparr>head := ts, queue_size := queue_size p - 1, lock := None\<rparr>)))"

end
