(* ===== verification/Transition.thy ===== *)
theory Transition
  imports Main
begin

text \<open>
  State machines: the reachable states of a step relation, and the interface of an inductive
  invariant. Each concurrent or event-driven component interprets \<open>inductive_invariant\<close> on its own
  initial states, step relation and invariant.
\<close>

inductive reach :: "('s \<Rightarrow> bool) \<Rightarrow> ('s \<Rightarrow> 's \<Rightarrow> bool) \<Rightarrow> 's \<Rightarrow> bool" for init and step where
  reach_init: "init s \<Longrightarrow> reach init step s"
| reach_step: "reach init step s \<Longrightarrow> step s s' \<Longrightarrow> reach init step s'"

locale inductive_invariant =
  fixes init :: "'s \<Rightarrow> bool" and step :: "'s \<Rightarrow> 's \<Rightarrow> bool" and inv :: "'s \<Rightarrow> bool"
  assumes inv_init: "init s \<Longrightarrow> inv s"
    and inv_step: "inv s \<Longrightarrow> step s s' \<Longrightarrow> inv s'"
begin

lemma reach_inv: "reach init step s \<Longrightarrow> inv s"
  by (induction rule: reach.induct) (auto intro: inv_init inv_step)

lemma steps_inv: "step\<^sup>*\<^sup>* s s' \<Longrightarrow> inv s \<Longrightarrow> inv s'"
  by (induction rule: rtranclp.induct) (auto intro: inv_step)

end

text \<open>A stronger invariant may use what is already known of every reachable state.\<close>

locale relative_invariant = base: inductive_invariant init step base_inv
  for init :: "'s \<Rightarrow> bool" and step base_inv +
  fixes inv :: "'s \<Rightarrow> bool"
  assumes rel_init: "init s \<Longrightarrow> inv s"
    and rel_step: "base_inv s \<Longrightarrow> inv s \<Longrightarrow> step s s' \<Longrightarrow> inv s'"
begin

sublocale both: inductive_invariant init step "\<lambda>s. base_inv s \<and> inv s"
  by unfold_locales (auto intro: base.inv_init base.inv_step rel_init rel_step)

lemma reach_rel: "reach init step s \<Longrightarrow> inv s"
  using both.reach_inv by blast

end

text \<open>
  A detailed system simulates an abstract one when every step of it is a step of the abstract system
  on the projected states. Reachability, and with it every invariant of the abstract system, carries over.
\<close>

locale simulation =
  fixes init :: "'s \<Rightarrow> bool" and step :: "'s \<Rightarrow> 's \<Rightarrow> bool"
    and ainit :: "'a \<Rightarrow> bool" and astep :: "'a \<Rightarrow> 'a \<Rightarrow> bool" and proj :: "'s \<Rightarrow> 'a"
  assumes sim_init: "init s \<Longrightarrow> ainit (proj s)"
    and sim_step: "step s s' \<Longrightarrow> astep (proj s) (proj s')"
begin

lemma reach_proj: "reach init step s \<Longrightarrow> reach ainit astep (proj s)"
  by (induction rule: reach.induct) (auto intro: reach_init reach_step sim_init sim_step)

lemma steps_proj: "step\<^sup>*\<^sup>* s s' \<Longrightarrow> astep\<^sup>*\<^sup>* (proj s) (proj s')"
  by (induction rule: rtranclp.induct) (auto intro: rtranclp.rtrancl_into_rtrancl sim_step)

end

locale simulated_invariant = simulation init step ainit astep proj + abs: inductive_invariant ainit astep ainv
  for init :: "'s \<Rightarrow> bool" and step ainit astep and proj :: "'s \<Rightarrow> 'a" and ainv
begin

sublocale conc: inductive_invariant init step "\<lambda>s. ainv (proj s)"
  by unfold_locales (auto intro: abs.inv_init abs.inv_step sim_init sim_step)

end

text \<open>A system whose every step lowers a natural number stops.\<close>

locale bounded_run =
  fixes step :: "'s \<Rightarrow> 's \<Rightarrow> bool" and inv :: "'s \<Rightarrow> bool" and weight :: "'s \<Rightarrow> nat"
  assumes keeps: "inv s \<Longrightarrow> step s s' \<Longrightarrow> inv s'"
    and lowers: "inv s \<Longrightarrow> step s s' \<Longrightarrow> weight s' < weight s"
begin

lemma run_bounded: "(step ^^ n) s s' \<Longrightarrow> inv s \<Longrightarrow> n + weight s' \<le> weight s \<and> inv s'"
proof (induction n arbitrary: s')
  case (Suc n)
  then obtain s1 where "(step ^^ n) s s1" "step s1 s'" by auto
  moreover from this Suc have "n + weight s1 \<le> weight s \<and> inv s1" by blast
  ultimately show ?case using keeps [of s1 s'] lowers [of s1 s'] by fastforce
qed auto

end

end
