(* ===== verification/Thread_Pool_Run.thy ===== *)
theory Thread_Pool_Run
  imports Thread_Pool Transition "HOL-Library.Multiset"
begin

text \<open>
  \<open>threadpool.c\<close>, all threads together: the workers run \<open>threadpool_worker\<close> and one caller (the main
  thread of the server) calls \<open>threadpool_add\<close> and \<open>threadpool_destroy\<close>. A step of the interleaved
  semantics takes the lock, runs one critical section, runs one task, or wakes a waiting worker without
  a reason. Which waiting worker a signal wakes is arbitrary.
\<close>

section \<open>States and steps\<close>

text \<open>Where a worker is: before the lock, inside the critical section, waiting, woken but without the lock
  yet, running a task, or gone.\<close>

datatype 'a wpc = W_start | W_crit | W_wait | W_woken | W_run 'a | W_done

datatype 'a cpc = C_idle | C_add 'a | C_destroy bool | C_join | C_end int

record 'a run =
  pool :: "'a threadpool"
  nworkers :: nat
  pcs :: "nat \<Rightarrow> 'a wpc"
  caller :: "'a cpc"
  submitted :: "'a list"
  completed :: "'a list"
  lost :: "'a list"
  sig_failed :: bool

fun after :: "'a action \<Rightarrow> 'a wpc" where
  "after Wait = W_wait"
| "after Exit = W_done"
| "after Retry = W_start"
| "after (Run t) = W_run t"

definition wake_all :: "(nat \<Rightarrow> 'a wpc) \<Rightarrow> nat \<Rightarrow> 'a wpc" where
  "wake_all f i = (if f i = W_wait then W_woken else f i)"

fun wakes :: "wake \<Rightarrow> nat \<Rightarrow> (nat \<Rightarrow> 'a wpc) \<Rightarrow> (nat \<Rightarrow> 'a wpc) \<Rightarrow> bool" where
  "wakes No_wake n f g \<longleftrightarrow> g = f"
| "wakes Broadcast n f g \<longleftrightarrow> g = wake_all f"
| "wakes Signal n f g \<longleftrightarrow>
     (if \<exists>i < n. f i = W_wait then \<exists>i < n. f i = W_wait \<and> g = f(i := W_woken) else g = f)"

definition pool_start :: "'a run \<Rightarrow> bool" where
  "pool_start s \<longleftrightarrow> 0 < nworkers s \<and>
     pool s = new_pool\<lparr>thread_count := int (nworkers s), start_size := int (nworkers s)\<rparr> \<and>
     pcs s = (\<lambda>_. W_start) \<and> caller s = C_idle \<and> submitted s = [] \<and> completed s = [] \<and> lost s = [] \<and>
     \<not> sig_failed s"

inductive pool_step :: "'a run \<Rightarrow> 'a run \<Rightarrow> bool" where
  worker_lock: "i < nworkers s \<Longrightarrow> pcs s i = W_start \<or> pcs s i = W_woken \<Longrightarrow> lock (pool s) = None \<Longrightarrow>
    pool_step s (s\<lparr>pool := (pool s)\<lparr>lock := Some (Worker i)\<rparr>, pcs := (pcs s)(i := W_crit)\<rparr>)"
| worker_acts: "i < nworkers s \<Longrightarrow> pcs s i = W_crit \<Longrightarrow> worker_section (pool s) = (a, p) \<Longrightarrow>
    pool_step s (s\<lparr>pool := p, pcs := (pcs s)(i := after a)\<rparr>)"
| worker_ran: "i < nworkers s \<Longrightarrow> pcs s i = W_run t \<Longrightarrow>
    pool_step s (s\<lparr>pcs := (pcs s)(i := W_start), completed := t # completed s\<rparr>)"
| spurious: "i < nworkers s \<Longrightarrow> pcs s i = W_wait \<Longrightarrow>
    pool_step s (s\<lparr>pcs := (pcs s)(i := W_woken)\<rparr>)"
| add_lock: "caller s = C_idle \<Longrightarrow> lock (pool s) = None \<Longrightarrow>
    pool_step s (s\<lparr>pool := (pool s)\<lparr>lock := Some Main\<rparr>, caller := C_add t\<rparr>)"
| add_acts: "caller s = C_add t \<Longrightarrow> add_section t (pool s) w = (r, p, wk, w') \<Longrightarrow>
    wakes wk (nworkers s) (pcs s) f \<Longrightarrow>
    pool_step s (s\<lparr>pool := p, pcs := f, caller := C_idle,
      submitted := (if head p = head (pool s) then submitted s else t # submitted s),
      sig_failed := (sig_failed s \<or> head p \<noteq> head (pool s) \<and> wk = No_wake)\<rparr>)"
| destroy_lock: "caller s = C_idle \<Longrightarrow> lock (pool s) = None \<Longrightarrow>
    pool_step s (s\<lparr>pool := (pool s)\<lparr>lock := Some Main\<rparr>, caller := C_destroy g\<rparr>)"
| destroy_acts: "caller s = C_destroy g \<Longrightarrow> destroy_section g (pool s) w = (r, p, wk, w') \<Longrightarrow>
    wakes wk (nworkers s) (pcs s) f \<Longrightarrow>
    pool_step s (s\<lparr>pool := p, pcs := f, caller := (if r = 0 then C_join else C_idle)\<rparr>)"
| joined: "caller s = C_join \<Longrightarrow> \<forall>i < nworkers s. pcs s i = W_done \<Longrightarrow>
    join_all (nat (thread_count (pool s))) 0 w = (err, w1) \<Longrightarrow> destroy_finish err (pool s) w1 = (r, p, w2) \<Longrightarrow>
    pool_step s (s\<lparr>pool := p, caller := C_end r,
      lost := (if head p = head (pool s) then lost s else head (pool s))\<rparr>)"

inductive_cases pool_stepE: "pool_step s s'"

section \<open>Counting workers\<close>

text \<open>The sum of a quantity over all workers, and how a step of one worker changes it.\<close>

definition over :: "('a wpc \<Rightarrow> 'b::comm_monoid_add) \<Rightarrow> 'a run \<Rightarrow> 'b" where
  "over q s = (\<Sum>i < nworkers s. q (pcs s i))"

lemma sum_update:
  fixes q :: "'c \<Rightarrow> 'b::comm_monoid_add" and i :: nat
  assumes "i < n"
  shows "(\<Sum>j < n. q ((f(i := x)) j)) + q (f i) = (\<Sum>j < n. q (f j)) + q x"
proof -
  have "{..<n} = insert i ({..<n} - {i})" using assms by auto
  then have "(\<Sum>j < n. h j) = h i + (\<Sum>j \<in> {..<n} - {i}. h j)" for h :: "nat \<Rightarrow> 'b"
    by (metis Diff_iff finite_Diff finite_lessThan insertCI sum.insert)
  then have "(\<Sum>j < n. q ((f(i := x)) j)) = q x + (\<Sum>j \<in> {..<n} - {i}. q (f j))"
    "(\<Sum>j < n. q (f j)) = q (f i) + (\<Sum>j \<in> {..<n} - {i}. q (f j))" by simp_all
  then show ?thesis by (simp add: ac_simps)
qed

lemma over_update:
  assumes "i < nworkers s" "nworkers s' = nworkers s" "pcs s' = (pcs s)(i := x)"
  shows "over q s' + q (pcs s i) = over q s + q x"
  using sum_update [OF assms(1), of q "pcs s" x] assms(2,3) by (simp add: over_def)

lemma over_wakes:
  assumes "wakes wk (nworkers s) (pcs s) f" "nworkers s' = nworkers s" "pcs s' = f"
    "q W_woken = q W_wait"
  shows "over q s' = (over q s :: 'b::cancel_comm_monoid_add)"
proof (cases wk)
  case Broadcast
  then have "q (f i) = q (pcs s i)" for i using assms by (simp add: wake_all_def)
  with assms show ?thesis by (simp add: over_def)
next
  case Signal
  show ?thesis
  proof (cases "\<exists>i < nworkers s. pcs s i = W_wait")
    case True
    with Signal assms obtain i where "i < nworkers s" "pcs s i = W_wait" "pcs s' = (pcs s)(i := W_woken)"
      by auto
    with over_update [OF this(1) assms(2) this(3), of q] assms(4) show ?thesis by simp
  qed (use Signal assms in \<open>simp add: over_def\<close>)
qed (use assms in \<open>simp add: over_def\<close>)

lemma wakes_cases:
  assumes "wakes wk n f g"
  shows "g i = f i \<or> f i = W_wait \<and> g i = W_woken"
  using assms by (cases wk) (auto simp: wake_all_def split: if_splits)

text \<open>What the sections do, as far as the invariants need it.\<close>

lemma add_sectionD:
  assumes "add_section t p w = (r, p', wk, w')"
  shows "thread_count p' = thread_count p" "start_size p' = start_size p" "shutdown p' = shutdown p"
    "lock p' = lock p \<or> lock p' = None" "wk \<noteq> Broadcast"
    "head p' = head p \<and> queue_size p' = queue_size p \<and> wk = No_wake \<or>
     head p' = t # head p \<and> queue_size p' = queue_size p + 1 \<and> shutdown p = 0"
  using assms by (auto simp: add_section_def add_out_def split: prod.splits if_splits)

lemma destroy_sectionD:
  assumes "destroy_section g p w = (r, p', wk, w')"
  shows "thread_count p' = thread_count p" "start_size p' = start_size p" "head p' = head p"
    "queue_size p' = queue_size p" "lock p' = lock p \<or> lock p' = None" "wk \<noteq> Signal"
    "shutdown p \<noteq> 0 \<Longrightarrow> shutdown p' = shutdown p"
    "shutdown p = 0 \<Longrightarrow> shutdown p' = (if g then graceful_shutdown else immediate_shutdown)"
    "r = 0 \<Longrightarrow> wk = Broadcast \<and> shutdown p = 0"
  using assms
  by (auto simp: destroy_section_def Let_def tp_codes split: prod.splits if_splits)

lemma worker_sectionD:
  assumes "worker_section p = (a, p')"
  shows "thread_count p' = thread_count p" "shutdown p' = shutdown p" "lock p' = None"
    "a = Exit \<and> start_size p' = start_size p - 1 \<and> shutdown p \<noteq> 0 \<or> a \<noteq> Exit \<and> start_size p' = start_size p"
    "(case a of Run t \<Rightarrow> head p = t # head p' \<and> queue_size p' = queue_size p - 1
      | _ \<Rightarrow> head p' = head p \<and> queue_size p' = queue_size p)"
    "a = Wait \<Longrightarrow> queue_size p = 0 \<and> shutdown p = 0"
    "a = Exit \<Longrightarrow> shutdown p = graceful_shutdown \<Longrightarrow> queue_size p = 0"
    "a = Retry \<Longrightarrow> head p = [] \<and> (queue_size p \<noteq> 0 \<or> shutdown p \<notin> {0, 1, 2})"
  using assms by (auto simp: worker_section_def tp_codes split: if_splits list.splits)

lemma destroy_finishD:
  assumes "destroy_finish err p w = (r, p', w')"
  shows "lock p' = lock p" "thread_count p' = thread_count p" "start_size p' = start_size p"
    "queue_size p' = queue_size p" "shutdown p' = shutdown p" "r = err" "head p' = head p \<or> head p' = []"
    "err = 0 \<Longrightarrow> start_size p \<le> 0 \<Longrightarrow> head p' = []"
  using assms by (auto simp: destroy_finish_def threadpool_free_def split: if_splits prod.splits)

section \<open>Mutual exclusion\<close>

definition mutex_inv :: "'a run \<Rightarrow> bool" where
  "mutex_inv s \<longleftrightarrow>
     (\<forall>i < nworkers s. pcs s i = W_crit \<longleftrightarrow> lock (pool s) = Some (Worker i)) \<and>
     (\<forall>i. lock (pool s) = Some (Worker i) \<longrightarrow> i < nworkers s) \<and>
     ((\<exists>t. caller s = C_add t) \<or> (\<exists>g. caller s = C_destroy g) \<longrightarrow> lock (pool s) = Some Main)"

lemma after_not_crit [simp]: "after a \<noteq> W_crit" "after a \<noteq> W_woken"
  by (cases a; simp)+

lemma wakes_crit: "wakes wk n f g \<Longrightarrow> g i = W_crit \<longleftrightarrow> f i = W_crit"
  using wakes_cases [of wk n f g i] by auto

lemma mutex_inv_step: "mutex_inv s \<Longrightarrow> pool_step s s' \<Longrightarrow> mutex_inv s'"
proof (erule pool_stepE, goal_cases)
  case (2 i a p)
  from worker_sectionD(3) [OF 2(5)] have "lock p = None" .
  with 2 show ?case by (auto simp: mutex_inv_def)
next
  case (6 t w r p wk w' f)
  with add_sectionD(4) [OF 6(4)] wakes_crit [OF 6(5)] show ?case by (auto simp: mutex_inv_def)
next
  case (8 g w r p wk w' f)
  with destroy_sectionD(5) [OF 8(4)] wakes_crit [OF 8(5)] show ?case by (auto simp: mutex_inv_def)
next
  case (9 w err w1 r p w2)
  with destroy_finishD(1) [OF 9(6)] show ?case by (auto simp: mutex_inv_def)
qed (auto simp: mutex_inv_def)

interpretation mutex: inductive_invariant pool_start pool_step mutex_inv
proof unfold_locales
  show "mutex_inv s" if "pool_start s" for s :: "'a run"
    using that by (simp add: pool_start_def mutex_inv_def new_pool_def)
qed (rule mutex_inv_step)

section \<open>The counters\<close>

definition alive :: "'a wpc \<Rightarrow> int" where
  "alive c = (if c = W_done then 0 else 1)"

definition count_inv :: "'a run \<Rightarrow> bool" where
  "count_inv s \<longleftrightarrow>
     ((\<forall>r. caller s \<noteq> C_end r) \<longrightarrow> queue_size (pool s) = int (length (head (pool s)))) \<and>
     start_size (pool s) = over alive s \<and> thread_count (pool s) = int (nworkers s)"

lemma alive_simps [simp]: "alive W_start = 1" "alive W_crit = 1" "alive W_wait = 1" "alive W_woken = 1"
  "alive (W_run t) = 1" "alive W_done = 0"
  by (simp_all add: alive_def)

lemma alive_after: "alive (after a) = (if a = Exit then 0 else 1)"
  by (cases a) simp_all

lemma over_same: "nworkers s' = nworkers s \<Longrightarrow> pcs s' = pcs s \<Longrightarrow> over q s' = over q s"
  by (simp add: over_def)

lemma count_inv_step: "count_inv s \<Longrightarrow> pool_step s s' \<Longrightarrow> count_inv s'"
proof (erule pool_stepE, goal_cases)
  case (1 i)
  from over_update [OF 1(3), of s' W_crit alive] 1 show ?case by (auto simp: count_inv_def)
next
  case (2 i a p)
  from over_update [OF 2(3), of s' "after a" alive] 2 worker_sectionD(1,4,5) [OF 2(5)] show ?case
    by (auto simp: count_inv_def alive_after split: if_splits action.splits)
next
  case (3 i t)
  from over_update [OF 3(3), of s' W_start alive] 3 show ?case by (simp add: count_inv_def)
next
  case (4 i)
  from over_update [OF 4(3), of s' W_woken alive] 4 show ?case by (simp add: count_inv_def)
next
  case (6 t w r p wk w' f)
  from over_wakes [OF 6(5), of s' alive] add_sectionD(1,2,6) [OF 6(4)] 6 show ?case
    by (auto simp: count_inv_def)
next
  case (8 g w r p wk w' f)
  from over_wakes [OF 8(5), of s' alive] destroy_sectionD(1-4) [OF 8(4)] 8 show ?case
    by (auto simp: count_inv_def)
next
  case (9 w err w1 r p w2)
  from destroy_finishD(2-4) [OF 9(6)] over_same [of s' s alive] 9 show ?case by (simp add: count_inv_def)
qed (simp_all add: count_inv_def over_def)

lemma over_const: "over (\<lambda>_. c) s = of_nat (nworkers s) * (c :: int)"
  by (simp add: over_def)

interpretation counts: inductive_invariant pool_start pool_step count_inv
proof unfold_locales
  show "count_inv s" if "pool_start s" for s :: "'a run"
    using that by (simp add: pool_start_def count_inv_def new_pool_def over_def)
qed (rule count_inv_step)

section \<open>Tasks are neither lost nor run twice\<close>

fun running :: "'a wpc \<Rightarrow> 'a multiset" where
  "running (W_run t) = {#t#}"
| "running _ = {#}"

definition tasks_inv :: "'a run \<Rightarrow> bool" where
  "tasks_inv s \<longleftrightarrow>
     mset (submitted s) = mset (completed s) + mset (head (pool s)) + over running s + mset (lost s) \<and>
     ((\<forall>r. caller s \<noteq> C_end r) \<longrightarrow> lost s = [])"

lemma tasks_inv_step: "tasks_inv s \<Longrightarrow> pool_step s s' \<Longrightarrow> tasks_inv s'"
proof (erule pool_stepE, goal_cases)
  case (1 i)
  from over_update [OF 1(3), of s' W_crit running] 1 show ?case by (auto simp: tasks_inv_def)
next
  case (2 i a p)
  from over_update [OF 2(3), of s' "after a" running] 2 worker_sectionD(5) [OF 2(5)] show ?case
    by (auto simp: tasks_inv_def split: action.splits)
next
  case (3 i t)
  from over_update [OF 3(3), of s' W_start running] 3 show ?case by (simp add: tasks_inv_def)
next
  case (4 i)
  from over_update [OF 4(3), of s' W_woken running] 4 show ?case by (simp add: tasks_inv_def)
next
  case (6 t w r p wk w' f)
  from over_wakes [OF 6(5), of s' running] add_sectionD(6) [OF 6(4)] 6 show ?case
    by (auto simp: tasks_inv_def)
next
  case (8 g w r p wk w' f)
  from over_wakes [OF 8(5), of s' running] destroy_sectionD(3) [OF 8(4)] 8 show ?case
    by (auto simp: tasks_inv_def)
next
  case (9 w err w1 r p w2)
  from destroy_finishD(7) [OF 9(6)] over_same [of s' s running] 9 show ?case by (auto simp: tasks_inv_def)
qed (simp_all add: tasks_inv_def over_def)

interpretation tasks: inductive_invariant pool_start pool_step tasks_inv
proof unfold_locales
  show "tasks_inv s" if "pool_start s" for s :: "'a run"
    using that by (simp add: pool_start_def tasks_inv_def new_pool_def over_def)
qed (rule tasks_inv_step)

section \<open>Shutting down\<close>

definition ended :: "'a cpc \<Rightarrow> bool" where
  "ended c \<longleftrightarrow> c = C_join \<or> (\<exists>r. c = C_end r)"

definition shutdown_inv :: "'a run \<Rightarrow> bool" where
  "shutdown_inv s \<longleftrightarrow>
     shutdown (pool s) \<in> {0, 1, 2} \<and>
     (shutdown (pool s) = 0 \<longrightarrow> (\<forall>i < nworkers s. pcs s i \<noteq> W_done)) \<and>
     (shutdown (pool s) = 2 \<and> (\<exists>i < nworkers s. pcs s i = W_done) \<longrightarrow> head (pool s) = [] \<and> lost s = []) \<and>
     (ended (caller s) \<longrightarrow> shutdown (pool s) \<noteq> 0 \<and> (\<forall>i < nworkers s. pcs s i \<noteq> W_wait)) \<and>
     (\<forall>r. caller s = C_end r \<longrightarrow> (\<forall>i < nworkers s. pcs s i = W_done))"

lemma ended_simps [simp]: "ended C_join" "ended (C_end r)" "\<not> ended C_idle" "\<not> ended (C_add t)"
  "\<not> ended (C_destroy g)"
  by (auto simp: ended_def)

lemma after_done [simp]: "after a = W_done \<longleftrightarrow> a = Exit" "after a = W_wait \<longleftrightarrow> a = Wait"
  by (cases a; simp)+

lemma wakes_done: "wakes wk n f g \<Longrightarrow> g i = W_done \<longleftrightarrow> f i = W_done"
  using wakes_cases [of wk n f g i] by auto

lemma broadcast_no_wait: "wakes Broadcast n f g \<Longrightarrow> g i \<noteq> W_wait"
  by (simp add: wake_all_def)

definition pool_base :: "'a run \<Rightarrow> bool" where
  "pool_base s \<longleftrightarrow> mutex_inv s \<and> count_inv s \<and> tasks_inv s"

interpretation base: inductive_invariant pool_start pool_step pool_base
  unfolding pool_base_def
  by unfold_locales (blast intro: mutex.inv_init counts.inv_init tasks.inv_init,
      blast intro: mutex_inv_step count_inv_step tasks_inv_step)

lemma shutdown_inv_worker_acts:
  assumes base: "pool_base s" and inv: "shutdown_inv s" and i: "i < nworkers s" "pcs s i = W_crit"
    and act: "worker_section (pool s) = (a, p)" and s': "s' = s\<lparr>pool := p, pcs := (pcs s)(i := after a)\<rparr>"
  shows "shutdown_inv s'"
proof -
  note d = worker_sectionD [OF act]
  have ne: "caller s \<noteq> C_end r" for r using inv i by (auto simp: shutdown_inv_def)
  then have qs: "queue_size (pool s) = int (length (head (pool s)))" and lost: "lost s = []"
    using base by (simp_all add: pool_base_def count_inv_def tasks_inv_def)
  have hd: "head (pool s) = [] \<Longrightarrow> head p = []" using d(5) by (auto split: action.splits)
  have exit: "head p = []" if "a = Exit" "shutdown (pool s) = 2"
    using d(5,7) that qs hd by (auto simp: tp_codes)
  have wait: "shutdown (pool s) = 0" if "a = Wait" using d(6) that by blast
  have nz: "shutdown (pool s) \<noteq> 0" if "a = Exit" using d(4) that by auto
  show ?thesis
    using inv d(2) ne lost hd exit wait nz unfolding s' shutdown_inv_def by (auto simp: ended_def)
qed

lemma shutdown_inv_step:
  assumes "pool_base s" "shutdown_inv s" "pool_step s s'"
  shows "shutdown_inv s'"
proof (rule pool_stepE [OF assms(3)], goal_cases)
  case (2 i a p)
  then show ?case using shutdown_inv_worker_acts [OF assms(1,2)] by blast
next
  case (6 t w r p wk w' f)
  with add_sectionD(3,6) [OF 6(3)] wakes_done [OF 6(4)] assms(2) show ?case
    by (auto simp: shutdown_inv_def)
next
  case (8 g w r p wk w' f)
  note d = destroy_sectionD [OF 8(3)]
  have "wk = Broadcast" if "r = 0" using d(9) that by blast
  then have "\<forall>i. f i \<noteq> W_wait" if "r = 0" using broadcast_no_wait 8(4) that by metis
  with d(3,7,8,9) wakes_done [OF 8(4)] assms(2) show ?case
    unfolding 8 shutdown_inv_def by (auto simp: tp_codes split: if_splits)
next
  case (9 w err w1 r p w2)
  with destroy_finishD(5,7) [OF 9(5)] assms(2) show ?case by (auto simp: shutdown_inv_def)
qed (use assms(2) in \<open>auto simp: shutdown_inv_def\<close>)

interpretation shut: relative_invariant pool_start pool_step pool_base shutdown_inv
proof unfold_locales
  show "shutdown_inv s" if "pool_start s" for s :: "'a run"
    using that by (simp add: pool_start_def shutdown_inv_def new_pool_def)
qed (rule shutdown_inv_step)

section \<open>No wake-up is lost\<close>

definition ready :: "'a wpc \<Rightarrow> nat" where
  "ready c = (if c = W_start \<or> c = W_crit \<or> c = W_woken then 1 else 0)"

lemma ready_simps [simp]: "ready W_start = 1" "ready W_crit = 1" "ready W_woken = 1" "ready W_wait = 0"
  "ready (W_run t) = 0" "ready W_done = 0"
  by (simp_all add: ready_def)

definition wakeup_inv :: "'a run \<Rightarrow> bool" where
  "wakeup_inv s \<longleftrightarrow>
     (\<not> sig_failed s \<and> shutdown (pool s) = 0 \<and> (\<exists>i < nworkers s. pcs s i = W_wait) \<longrightarrow>
        length (head (pool s)) \<le> over ready s)"

lemma wakeup_inv_add:
  assumes inv: "wakeup_inv s" and act: "add_section t (pool s) w = (r, p, wk, w')"
    and wk: "wakes wk (nworkers s) (pcs s) f"
    and s': "s' = s\<lparr>pool := p, pcs := f, caller := C_idle,
      submitted := (if head p = head (pool s) then submitted s else t # submitted s),
      sig_failed := (sig_failed s \<or> head p \<noteq> head (pool s) \<and> wk = No_wake)\<rparr>"
  shows "wakeup_inv s'"
  unfolding wakeup_inv_def
proof (intro impI, elim conjE exE)
  fix i
  assume a: "\<not> sig_failed s'" "shutdown (pool s') = 0" "i < nworkers s'" "pcs s' i = W_wait"
  note d = add_sectionD [OF act]
  have wt: "pcs s i = W_wait" using wakes_cases [OF wk, of i] a(4) s' by auto
  have old: "length (head (pool s)) \<le> over ready s"
    using inv a wt d(3) unfolding wakeup_inv_def s' by auto
  show "length (head (pool s')) \<le> over ready s'"
  proof (cases "wk = Signal")
    case True
    moreover have "\<exists>j < nworkers s. pcs s j = W_wait" using wt a(3) s' by auto
    ultimately obtain j where j: "j < nworkers s" "pcs s j = W_wait" "f = (pcs s)(j := W_woken)"
      using wk by auto
    have "over ready s' = over ready s + 1"
      using over_update [OF j(1), of s' W_woken ready] j(2,3) s' by simp
    with old d(6) show ?thesis by (auto simp: s')
  next
    case False
    then have nw: "wk = No_wake" using d(5) by (cases wk) auto
    with a(1) have "head p = head (pool s)" by (auto simp: s')
    moreover have "over ready s' = over ready s" using nw wk by (simp add: s' over_def)
    ultimately show ?thesis using old by (simp add: s')
  qed
qed

lemma wakeup_inv_worker_acts:
  assumes base: "pool_base s" and shut: "shutdown_inv s" and inv: "wakeup_inv s"
    and i: "i < nworkers s" "pcs s i = W_crit"
    and act: "worker_section (pool s) = (a, p)" and s': "s' = s\<lparr>pool := p, pcs := (pcs s)(i := after a)\<rparr>"
  shows "wakeup_inv s'"
proof -
  note d = worker_sectionD [OF act]
  have ov: "over ready s' + 1 = over ready s + ready (after a)"
    using over_update [OF i(1), of s' "after a" ready] i(2) s' by simp
  have qs: "queue_size (pool s) = int (length (head (pool s)))"
    using base shut i by (auto simp: pool_base_def count_inv_def shutdown_inv_def)
  show ?thesis
  proof (cases a)
    case (Run t)
    have "\<exists>j < nworkers s. pcs s j = W_wait" if "j < nworkers s'" "pcs s' j = W_wait" for j
      using that Run s' by (auto split: if_splits)
    with inv ov d(2,5) Run show ?thesis by (auto simp: wakeup_inv_def s')
  next
    case Wait
    with d(5,6) qs show ?thesis by (simp add: wakeup_inv_def s')
  next
    case Exit
    with d(2,4) show ?thesis by (auto simp: wakeup_inv_def s')
  next
    case Retry
    with d(5,8) show ?thesis by (simp add: wakeup_inv_def s')
  qed
qed

lemma wakeup_inv_step:
  assumes "pool_base s \<and> shutdown_inv s" "wakeup_inv s" "pool_step s s'"
  shows "wakeup_inv s'"
proof (rule pool_stepE [OF assms(3)], goal_cases)
  case (1 i)
  from over_update [OF 1(2), of s' W_crit ready] 1 assms(2) show ?case
    by (auto simp: wakeup_inv_def split: if_splits)
next
  case (2 i a p)
  then show ?case using wakeup_inv_worker_acts [of s i a p s'] assms(1,2) by blast
next
  case (3 i t)
  from over_update [OF 3(2), of s' W_start ready] 3 assms(2) show ?case
    by (fastforce simp: wakeup_inv_def split: if_splits)
next
  case (4 i)
  from over_update [OF 4(2), of s' W_woken ready] 4 assms(2) show ?case
    by (fastforce simp: wakeup_inv_def split: if_splits)
next
  case (6 t w r p wk w' f)
  then show ?case using wakeup_inv_add [OF assms(2) 6(3,4)] by blast
next
  case (8 g w r p wk w' f)
  note d = destroy_sectionD [OF 8(3)]
  have "shutdown p \<noteq> 0" using d(7,8) by (cases "shutdown (pool s) = 0") (auto simp: tp_codes)
  then show ?case by (simp add: 8 wakeup_inv_def)
next
  case (9 w err w1 r p w2)
  have "shutdown (pool s) \<noteq> 0" using assms(1) 9(2) by (simp add: shutdown_inv_def)
  with destroy_finishD(5) [OF 9(5)] show ?case by (simp add: 9 wakeup_inv_def)
qed (use assms(2) in \<open>simp_all add: wakeup_inv_def over_def\<close>)

interpretation wake: relative_invariant pool_start pool_step "\<lambda>s. pool_base s \<and> shutdown_inv s" wakeup_inv
proof unfold_locales
  show "wakeup_inv s" if "pool_start s" for s :: "'a run"
    using that by (simp add: pool_start_def wakeup_inv_def)
qed (use wakeup_inv_step in blast)+

end
