(* ===== verification/Thread_Pool_Spec.thy ===== *)
theory Thread_Pool_Spec
  imports Thread_Pool_Run
begin

text \<open>
  What the thread pool promises: exclusion, conservation of tasks, no lost wake-ups, an orderly
  shutdown, and how each operation answers.
\<close>

section \<open>The shutdown ends\<close>

definition join_inv :: "'a run \<Rightarrow> bool" where
  "join_inv s \<longleftrightarrow> (ended (caller s) \<longrightarrow> lock (pool s) \<noteq> Some Main)"

lemma destroy_section_unlocks: "destroy_section g p w = (0, p', wk, w') \<Longrightarrow> lock p' = None"
  by (auto simp: destroy_section_def Let_def tp_codes split: prod.splits if_splits)

lemma join_inv_step: "join_inv s \<Longrightarrow> pool_step s s' \<Longrightarrow> join_inv s'"
proof (erule pool_stepE, goal_cases)
  case (2 i a p)
  with worker_sectionD(3) [OF 2(5)] show ?case by (simp add: join_inv_def)
next
  case (8 g w r p wk w' f)
  then show ?case using destroy_section_unlocks [of g "pool s" w p wk w'] by (auto simp: join_inv_def)
next
  case (9 w err w1 r p w2)
  with destroy_finishD(1) [OF 9(6)] show ?case by (simp add: join_inv_def)
qed (auto simp: join_inv_def)

interpretation joins: inductive_invariant pool_start pool_step join_inv
proof unfold_locales
  show "join_inv s" if "pool_start s" for s :: "'a run"
    using that by (simp add: pool_start_def join_inv_def)
qed (rule join_inv_step)

fun effort :: "'a wpc \<Rightarrow> nat" where
  "effort W_start = 2"
| "effort W_crit = 1"
| "effort W_wait = 0"
| "effort W_woken = 2"
| "effort (W_run t) = 3"
| "effort W_done = 0"

definition closing :: "'a run \<Rightarrow> bool" where
  "closing s \<longleftrightarrow> pool_base s \<and> shutdown_inv s \<and> join_inv s \<and> ended (caller s)"

definition closing_weight :: "'a run \<Rightarrow> nat" where
  "closing_weight s = over effort s + 3 * length (head (pool s)) + (if caller s = C_join then 1 else 0)"

lemma closing_acts:
  assumes c: "closing s" and i: "i < nworkers s" "pcs s i = W_crit"
    and act: "worker_section (pool s) = (a, p)" and s': "s' = s\<lparr>pool := p, pcs := (pcs s)(i := after a)\<rparr>"
  shows "closing_weight s' < closing_weight s"
proof -
  note d = worker_sectionD [OF act]
  have ov: "over effort s' + 1 = over effort s + effort (after a)"
    using over_update [OF i(1), of s' "after a" effort] i(2) s' by simp
  have sh: "shutdown (pool s) \<in> {1, 2}" and ne: "caller s \<noteq> C_end r" for r
    using c i by (auto simp: closing_def shutdown_inv_def)
  then have qs: "queue_size (pool s) = int (length (head (pool s)))"
    using c by (simp add: closing_def pool_base_def count_inv_def)
  show ?thesis
  proof (cases a)
    case Retry
    with d(8) qs sh show ?thesis by auto
  next
    case (Run t)
    with ov d(5) show ?thesis by (simp add: closing_weight_def s')
  next
    case Exit
    with ov d(5) show ?thesis by (simp add: closing_weight_def s')
  next
    case Wait
    with d(6) sh show ?thesis by auto
  qed
qed

lemma closing_lowers: "closing s \<Longrightarrow> pool_step s s' \<Longrightarrow> closing_weight s' < closing_weight s"
proof (erule pool_stepE, goal_cases)
  case (1 i)
  from over_update [OF 1(3), of s' W_crit effort] 1 show ?case by (auto simp: closing_weight_def)
next
  case (2 i a p)
  then show ?case using closing_acts [of s i a p s'] by blast
next
  case (3 i t)
  from over_update [OF 3(3), of s' W_start effort] 3 show ?case by (auto simp: closing_weight_def)
next
  case (4 i)
  then show ?case by (auto simp: closing_def shutdown_inv_def)
next
  case (9 w err w1 r p w2)
  from destroy_finishD(7) [OF 9(6)] over_same [of s' s effort] 9 show ?case
    by (auto simp: closing_weight_def)
qed (auto simp: closing_def)

lemma ended_step: "ended (caller s) \<Longrightarrow> pool_step s s' \<Longrightarrow> ended (caller s')"
  by (erule pool_stepE) auto

interpretation close: bounded_run pool_step closing closing_weight
proof unfold_locales
  show "closing s'" if "closing s" "pool_step s s'" for s s' :: "'a run"
    using that unfolding closing_def
    by (blast intro: base.inv_step shutdown_inv_step join_inv_step ended_step)
qed (rule closing_lowers)

lemma closing_progress:
  assumes "closing s" "caller s = C_join"
  shows "\<exists>s'. pool_step s s'"
proof (cases "\<forall>i < nworkers s. pcs s i = W_done")
  case True
  obtain err w1 where j: "join_all (nat (thread_count (pool s))) 0 (os_with 1 []) = (err, w1)" by (metis surj_pair)
  obtain r p w2 where "destroy_finish err (pool s) w1 = (r, p, w2)" by (metis surj_pair)
  from joined [OF assms(2) True j this] show ?thesis by blast
next
  case False
  then obtain i where i: "i < nworkers s" "pcs s i \<noteq> W_done" by auto
  have m: "mutex_inv s" and nw: "pcs s i \<noteq> W_wait" and nm: "lock (pool s) \<noteq> Some Main"
    using assms i by (auto simp: closing_def pool_base_def shutdown_inv_def join_inv_def)
  show ?thesis
  proof (cases "lock (pool s)")
    case None
    then have "pcs s i \<noteq> W_crit" using m i by (auto simp: mutex_inv_def)
    with i nw consider "pcs s i = W_start \<or> pcs s i = W_woken" | t where "pcs s i = W_run t"
      by (cases "pcs s i") auto
    then show ?thesis
    proof cases
      case 1
      from worker_lock [OF i(1) this None] show ?thesis by (rule exI)
    next
      case 2
      from worker_ran [OF i(1) this] show ?thesis by (rule exI)
    qed
  next
    case (Some h)
    then obtain j where "h = Worker j" using nm by (cases h) auto
    with Some m have "j < nworkers s" "pcs s j = W_crit" by (auto simp: mutex_inv_def)
    moreover obtain a p where "worker_section (pool s) = (a, p)" by (metis surj_pair)
    ultimately have "pool_step s (s\<lparr>pool := p, pcs := (pcs s)(j := after a)\<rparr>)" by (intro worker_acts)
    then show ?thesis by (rule exI)
  qed
qed

lemma closing_weight_bound: "closing_weight s \<le> 3 * nworkers s + 3 * length (head (pool s)) + 1"
proof -
  have "effort c \<le> 3" for c :: "'a wpc" by (cases c) auto
  then have "over effort s \<le> (\<Sum>i < nworkers s. 3)" unfolding over_def by (intro sum_mono) simp
  then show ?thesis by (simp add: closing_weight_def)
qed

lemma reach_closing: "reach pool_start pool_step s \<Longrightarrow> caller s = C_join \<Longrightarrow> closing s"
  using base.reach_inv shut.reach_rel joins.reach_inv by (auto simp: closing_def)

lemma closing_steps: "pool_step\<^sup>*\<^sup>* s s' \<Longrightarrow> closing s \<Longrightarrow> closing s'"
  by (induction rule: rtranclp.induct) (auto intro: close.keeps)

section \<open>A lock that is never released\<close>

definition stuck :: "'a run \<Rightarrow> bool" where
  "stuck s \<longleftrightarrow> lock (pool s) = Some Main \<and> caller s = C_idle \<and> (\<forall>i < nworkers s. pcs s i \<noteq> W_crit)"

lemma stuck_step: "stuck s \<Longrightarrow> pool_step s s' \<Longrightarrow> stuck s' \<and> head (pool s') = head (pool s)"
  by (erule pool_stepE) (auto simp: stuck_def)

lemma stuck_steps:
  assumes "pool_step\<^sup>*\<^sup>* s s'" "stuck s"
  shows "stuck s' \<and> head (pool s') = head (pool s)"
  using assms by (induction rule: rtranclp.induct) (auto dest: stuck_step)

section \<open>The operations when no call fails\<close>

lemma sys_ok_quiet: "quiet w \<Longrightarrow> sys_ok w = (True, w\<lparr>tick := Suc (tick w)\<rparr>)"
  by (simp add: sys_ok_def quiet_call)

lemma sys_malloc_quiet:
  assumes "quiet w"
  shows "sys_malloc w = (True, w\<lparr>tick := Suc (tick w), live := live w + 1\<rparr>)"
  using quiet_call [OF assms] by (simp add: sys_malloc_def)

lemma join_all_quiet: "quiet w \<Longrightarrow> join_all n err w = (err, w\<lparr>tick := tick w + n\<rparr>)"
proof (induction n arbitrary: w)
  case (Suc n)
  have "quiet (w\<lparr>tick := Suc (tick w)\<rparr>)" using Suc.prems by (rule quiet_call)
  from Suc.IH [OF this] show ?case by (simp add: sys_ok_quiet [OF Suc.prems])
qed simp

lemma create_threads_quiet:
  "quiet w \<Longrightarrow> create_threads n p w =
     (Some (p\<lparr>thread_count := thread_count p + int n, start_size := start_size p + int n\<rparr>), w\<lparr>tick := tick w + n\<rparr>)"
proof (induction n arbitrary: w p)
  case (Suc n)
  have "quiet (w\<lparr>tick := Suc (tick w)\<rparr>)" using Suc.prems by (rule quiet_call)
  from Suc.IH [OF this] show ?case by (simp add: sys_ok_quiet [OF Suc.prems] add.assoc)
qed simp

lemma sys_free_n: "(sys_free ^^ n) w = w\<lparr>live := live w - int n\<rparr>"
  by (induction n) (simp_all add: sys_free_def)

text \<open>The world after \<open>k\<close> calls, with \<open>l\<close> more blocks allocated.\<close>

definition later :: "nat \<Rightarrow> int \<Rightarrow> os \<Rightarrow> os" where
  "later k l w = w\<lparr>tick := tick w + k, live := live w + l\<rparr>"

lemma later_simps [simp]: "later k l (later k' l' w) = later (k' + k) (l' + l) w" "live (later k l w) = live w + l"
  "later 0 0 w = w"
  by (simp_all add: later_def add.assoc)

lemma quiet_later_calls: "quiet w \<Longrightarrow> quiet (later k l w)"
  by (simp add: quiet_def later_def)

lemma calls_quiet:
  assumes "quiet w"
  shows "sys_ok w = (True, later 1 0 w)" "sys_malloc w = (True, later 1 1 w)"
    "join_all n err w = (err, later n 0 w)" "sys_free w = later 0 (-1) w"
    "create_threads n p w =
      (Some (p\<lparr>thread_count := thread_count p + int n, start_size := start_size p + int n\<rparr>), later n 0 w)"
  using sys_ok_quiet [OF assms] sys_malloc_quiet [OF assms] join_all_quiet [OF assms]
    create_threads_quiet [OF assms]
  by (simp_all add: later_def sys_free_def)

lemma threadpool_init_quiet:
  assumes "quiet w" "0 < n"
  shows "threadpool_init (int n) w =
    Some (Some (new_pool\<lparr>thread_count := int n, start_size := int n\<rparr>), later (5 + n) 3 w)"
proof -
  note q = quiet_later_calls [OF assms(1)]
  show ?thesis
    using assms(2) by (simp add: threadpool_init_def calls_quiet [OF assms(1)] calls_quiet [OF q])
      (simp add: new_pool_def eval_nat_numeral)
qed

section \<open>An example run\<close>

text \<open>One worker and one task: the task is added, the pool is closed gracefully, the worker runs the task
  and leaves.\<close>

definition demo :: "tid option \<Rightarrow> nat list \<Rightarrow> int \<Rightarrow> int \<Rightarrow> nat wpc \<Rightarrow> nat cpc \<Rightarrow> nat list \<Rightarrow> nat list \<Rightarrow> nat run" where
  "demo l h sh st c m sub dn =
     \<lparr>pool = \<lparr>lock = l, head = h, thread_count = 1, queue_size = int (length h), shutdown = sh, start_size = st\<rparr>,
      nworkers = 1, pcs = (\<lambda>_. W_start)(0 := c), caller = m, submitted = sub, completed = dn, lost = [],
      sig_failed = False\<rparr>"

definition demo0 :: "nat run" where "demo0 = demo None [] 0 1 W_start C_idle [] []"
definition demo_added :: "nat run" where "demo_added = demo None [7] 0 1 W_start C_idle [7] []"
definition demo_closing :: "nat run" where "demo_closing = demo None [7] 2 1 W_start C_join [7] []"
definition demo_end :: "nat run" where "demo_end = demo None [] 2 0 W_done (C_end 0) [7] [7]"

lemma os1_ok: "sys_ok (os_with 1 []) = (True, (os_with 1 [])\<lparr>tick := 1\<rparr>)"
  "sys_ok ((os_with 1 [])\<lparr>tick := n\<rparr>) = (True, (os_with 1 [])\<lparr>tick := Suc n\<rparr>)"
  by (simp_all add: sys_ok_def sys_call_def os_with_def)

lemma demo_step:
  "pool_step demo0 (demo (Some Main) [] 0 1 W_start (C_add 7) [] [])"
  "pool_step (demo (Some Main) [] 0 1 W_start (C_add 7) [] []) demo_added"
  "pool_step demo_added (demo (Some Main) [7] 0 1 W_start (C_destroy True) [7] [])"
  "pool_step (demo (Some Main) [7] 0 1 W_start (C_destroy True) [7] []) demo_closing"
  "pool_step demo_closing (demo (Some (Worker 0)) [7] 2 1 W_crit C_join [7] [])"
  "pool_step (demo (Some (Worker 0)) [7] 2 1 W_crit C_join [7] []) (demo None [] 2 1 (W_run 7) C_join [7] [])"
  "pool_step (demo None [] 2 1 (W_run 7) C_join [7] []) (demo None [] 2 1 W_start C_join [7] [7])"
  "pool_step (demo None [] 2 1 W_start C_join [7] [7]) (demo (Some (Worker 0)) [] 2 1 W_crit C_join [7] [7])"
  "pool_step (demo (Some (Worker 0)) [] 2 1 W_crit C_join [7] [7]) (demo None [] 2 0 W_done C_join [7] [7])"
  "pool_step (demo None [] 2 0 W_done C_join [7] [7]) demo_end"
proof -
  note defs = demo_def demo0_def demo_added_def demo_closing_def demo_end_def
  show "pool_step demo0 (demo (Some Main) [] 0 1 W_start (C_add 7) [] [])"
    using add_lock [of demo0 7] by (simp add: defs)
  show "pool_step demo_added (demo (Some Main) [7] 0 1 W_start (C_destroy True) [7] [])"
    using destroy_lock [of demo_added True] by (simp add: defs)
  show "pool_step demo_closing (demo (Some (Worker 0)) [7] 2 1 W_crit C_join [7] [])"
    using worker_lock [of 0 demo_closing] by (simp add: defs)
  show "pool_step (demo None [] 2 1 W_start C_join [7] [7]) (demo (Some (Worker 0)) [] 2 1 W_crit C_join [7] [7])"
    using worker_lock [of 0 "demo None [] 2 1 W_start C_join [7] [7]"] by (simp add: defs)
  show "pool_step (demo None [] 2 1 (W_run 7) C_join [7] []) (demo None [] 2 1 W_start C_join [7] [7])"
    using worker_ran [of 0 "demo None [] 2 1 (W_run 7) C_join [7] []" 7] by (simp add: defs)
  show "pool_step (demo (Some (Worker 0)) [7] 2 1 W_crit C_join [7] []) (demo None [] 2 1 (W_run 7) C_join [7] [])"
    using worker_acts [of 0 "demo (Some (Worker 0)) [7] 2 1 W_crit C_join [7] []", OF _ _ surjective_pairing]
    by (simp add: defs worker_section_def tp_codes)
  show "pool_step (demo (Some (Worker 0)) [] 2 1 W_crit C_join [7] [7]) (demo None [] 2 0 W_done C_join [7] [7])"
    using worker_acts [of 0 "demo (Some (Worker 0)) [] 2 1 W_crit C_join [7] [7]", OF _ _ surjective_pairing]
    by (simp add: defs worker_section_def tp_codes)
  show "pool_step (demo (Some Main) [] 0 1 W_start (C_add 7) [] []) demo_added"
  proof -
    let ?s = "demo (Some Main) [] 0 1 W_start (C_add 7) [] []"
    have a: "\<exists>w'. add_section 7 (pool ?s) (os_with 1 []) = (0, pool demo_added, Signal, w')"
      by (simp add: defs add_section_def sys_malloc_def sys_call_def os_with_def add_out_def sys_ok_def)
    then show ?thesis using add_acts [of ?s 7 "os_with 1 []" 0 "pool demo_added" Signal _ "pcs ?s"]
      by (auto simp: defs)
  qed
  show "pool_step (demo (Some Main) [7] 0 1 W_start (C_destroy True) [7] []) demo_closing"
  proof -
    let ?s = "demo (Some Main) [7] 0 1 W_start (C_destroy True) [7] []"
    have "\<exists>w'. destroy_section True (pool ?s) (os_with 1 []) = (0, pool demo_closing, Broadcast, w')"
      by (simp add: defs destroy_section_def os1_ok tp_codes)
    moreover have "wakes Broadcast (nworkers ?s) (pcs ?s) (pcs demo_closing)" by (auto simp: defs wake_all_def)
    ultimately show ?thesis
      using destroy_acts [of ?s True "os_with 1 []" 0 "pool demo_closing" Broadcast _ "pcs demo_closing"]
      by (auto simp: defs)
  qed
  show "pool_step (demo None [] 2 0 W_done C_join [7] [7]) demo_end"
  proof -
    let ?s = "demo None [] 2 0 W_done C_join [7] [7]"
    have "join_all (nat (thread_count (pool ?s))) 0 (os_with 1 []) = (0, (os_with 1 [])\<lparr>tick := 1\<rparr>)"
      by (simp add: defs os1_ok)
    moreover have "\<exists>w. destroy_finish 0 (pool ?s) ((os_with 1 [])\<lparr>tick := 1\<rparr>) = (0, pool demo_end, w)"
      by (simp add: defs destroy_finish_def threadpool_free_def)
    ultimately show ?thesis
      using joined [of ?s "os_with 1 []" 0 "(os_with 1 [])\<lparr>tick := 1\<rparr>" 0 "pool demo_end"] by (auto simp: defs)
  qed
qed

lemma demo_reach:
  "reach pool_start pool_step demo_added" "reach pool_start pool_step demo_closing" "reach pool_start pool_step demo_end"
proof -
  have "pool_start demo0" by (simp add: demo0_def demo_def pool_start_def new_pool_def fun_upd_idem)
  then have "reach pool_start pool_step demo0" by (rule reach_init)
  from reach_step [OF reach_step [OF this demo_step(1)] demo_step(2)]
  show a: "reach pool_start pool_step demo_added" .
  from reach_step [OF reach_step [OF a demo_step(3)] demo_step(4)]
  show c: "reach pool_start pool_step demo_closing" .
  from reach_step [OF reach_step [OF reach_step [OF c demo_step(5)] demo_step(6)] demo_step(7)]
  have "reach pool_start pool_step (demo None [] 2 1 W_start C_join [7] [7])" .
  from reach_step [OF reach_step [OF reach_step [OF this demo_step(8)] demo_step(9)] demo_step(10)]
  show "reach pool_start pool_step demo_end" .
qed

section \<open>The properties of the pool\<close>







text \<open>C18: A graceful shutdown that returns success has run every task that was ever queued.\<close>

theorem pool_graceful_drains:
  assumes "reach pool_start pool_step s" and "caller s = C_end r" and "shutdown (pool s) = graceful_shutdown"
    and "0 < nworkers s"
  shows "mset (submitted s) = mset (completed s)"
proof -
  have sd: "shutdown_inv s" and ti: "tasks_inv s"
    using shut.reach_rel [OF assms(1)] tasks.reach_inv [OF assms(1)] by blast+
  from sd assms(2) have dn: "\<forall>i < nworkers s. pcs s i = W_done" by (simp add: shutdown_inv_def)
  then have "over running s = {#}" by (simp add: over_def)
  moreover have "head (pool s) = [] \<and> lost s = []"
    using sd dn assms(3,4) by (auto simp: shutdown_inv_def tp_codes)
  ultimately show ?thesis using ti by (simp add: tasks_inv_def)
qed

theorem pool_graceful_drains_witness: "mset (submitted demo_end) = mset (completed demo_end)"
  by (rule pool_graceful_drains [OF demo_reach(3)]) (simp_all add: demo_end_def demo_def tp_codes)



text \<open>A \<open>threadpool_add\<close> that finds no memory returns -1 with the lock still held: from then on, whatever
  happens, no worker enters a critical section and the queue never changes again.\<close>

theorem pool_add_no_memory_blocks:
  assumes "reach pool_start pool_step s" and "caller s = C_add t" and "shutdown (pool s) = 0"
    and "sr_ret (ans w (tick w)) < 0"
  shows "\<exists>w'. add_section t (pool s) w = (-1, pool s, No_wake, w') \<and>
    (\<forall>s'. pool_step\<^sup>*\<^sup>* (s\<lparr>caller := C_idle\<rparr>) s' \<longrightarrow>
       lock (pool s') = Some Main \<and> head (pool s') = head (pool s) \<and> (\<forall>i < nworkers s'. pcs s' i \<noteq> W_crit))"
proof -
  have m: "mutex_inv s" using mutex.reach_inv [OF assms(1)] .
  then have "lock (pool s) = Some Main" using assms(2) by (simp add: mutex_inv_def)
  with m have "stuck (s\<lparr>caller := C_idle\<rparr>)" by (simp add: stuck_def mutex_inv_def)
  from stuck_steps [OF _ this] show ?thesis
    using assms(3,4) by (simp add: add_section_def sys_malloc_def sys_call_fail) (auto simp: stuck_def)
qed

theorem pool_add_no_memory_blocks_witness:
  "\<exists>w'. add_section 7 (pool (demo (Some Main) [] 0 1 W_start (C_add 7) [] [])) (os_with (-1) []) =
     (-1, pool (demo (Some Main) [] 0 1 W_start (C_add 7) [] []), No_wake, w')"
proof -
  have "pool_start demo0" by (simp add: demo0_def demo_def pool_start_def new_pool_def fun_upd_idem)
  then have r: "reach pool_start pool_step (demo (Some Main) [] 0 1 W_start (C_add 7) [] [])"
    using demo_step(1) by (blast intro: reach_init reach_step)
  have f: "caller (demo (Some Main) [] 0 1 W_start (C_add 7) [] []) = C_add 7"
    "shutdown (pool (demo (Some Main) [] 0 1 W_start (C_add 7) [] [])) = 0"
    "sr_ret (ans (os_with (-1) []) (tick (os_with (-1) []))) < 0"
    by (simp_all add: demo_def os_with_def)
  from pool_add_no_memory_blocks [OF r f] show ?thesis by (elim exE conjE) (rule exI)
qed

text \<open>The task queue is last in, first out: after a successful add the next worker that enters an open pool takes
  the new task, however many older ones are waiting, and leaves those as they were.\<close>

theorem pool_last_in_first_out:
  assumes "quiet w" and "shutdown p = 0" and "queue_size p = int (length (head p))"
  shows "\<exists>p' w'. threadpool_add Main (Some p) (Some t) w = (0, Some p', Signal, w') \<and> lock p' = None \<and>
    fst (worker_section p') = Run t \<and> head (snd (worker_section p')) = head p"
proof -
  note q = calls_quiet [OF assms(1)] calls_quiet [OF quiet_later_calls [OF assms(1)]]
  let ?p = "p\<lparr>lock := Some Main, head := t # head p, queue_size := queue_size p + 1, lock := None\<rparr>"
  have "\<exists>w'. threadpool_add Main (Some p) (Some t) w = (0, Some ?p, Signal, w')"
    using assms(2) by (simp add: threadpool_add_def add_section_def add_out_def q)
  moreover have "lock ?p = None \<and> fst (worker_section ?p) = Run t \<and> head (snd (worker_section ?p)) = head p"
    using assms(2,3) by (simp add: worker_section_def tp_codes)
  ultimately show ?thesis by blast
qed

theorem pool_last_in_first_out_witness:
  "\<exists>p' w'. threadpool_add Main (Some (pool demo_added)) (Some 9) (os_with 1 []) = (0, Some p', Signal, w') \<and>
     fst (worker_section p') = Run 9"
proof -
  have "quiet (os_with 1 [])" by (simp add: quiet_def os_with_def)
  from pool_last_in_first_out [OF this, of "pool demo_added" 9] show ?thesis
    by (auto simp: demo_added_def demo_def)
qed

text \<open>\<open>threadpool_init\<close> for \<open>n\<close> threads, when no call fails, gives an open, unlocked, empty pool of \<open>n\<close>
  workers, and closing it again returns 0 but leaves two blocks allocated (the pool and the dummy head
  are never freed).\<close>

theorem pool_life_cycle:
  assumes "quiet w" and "0 < n"
  shows "\<exists>(p :: 'a threadpool) w1 p' wk w2. threadpool_init (int n) w = Some (Some p, w1) \<and> lock p = None \<and> head p = [] \<and>
      thread_count p = int n \<and> start_size p = int n \<and> shutdown p = 0 \<and>
      threadpool_destroy Main (Some p) g w1 = (0, Some p', wk, w2) \<and> start_size p' = 0 \<and> live w2 = live w + 2"
proof -
  let ?p = "(new_pool :: 'a threadpool)\<lparr>thread_count := int n, start_size := int n\<rparr>"
  note q = calls_quiet [OF quiet_later_calls [OF assms(1)]]
  have "\<exists>p' wk w2. threadpool_destroy Main (Some ?p) g (later (5 + n) 3 w) = (0, Some p', wk, w2) \<and>
      start_size p' = 0 \<and> live w2 = live w + 2"
    by (simp add: threadpool_destroy_def q destroy_section_def Let_def new_pool_def workers_gone_def
        destroy_finish_def threadpool_free_def)
  moreover have "lock ?p = None" "head ?p = []" "thread_count ?p = int n" "start_size ?p = int n" "shutdown ?p = 0"
    by (simp_all add: new_pool_def)
  ultimately show ?thesis using threadpool_init_quiet [OF assms] by blast
qed

theorem pool_life_cycle_witness:
  "\<exists>(p :: nat threadpool) w1. threadpool_init 5 (os_with 1 []) = Some (Some p, w1) \<and> thread_count p = 5"
proof -
  have "quiet (os_with 1 [])" by (simp add: quiet_def os_with_def)
  from pool_life_cycle [OF this, of 5 True] show ?thesis by auto
qed

text \<open>When the pool itself cannot be allocated \<open>threadpool_init\<close> returns NULL, but when the thread array or the
  dummy head cannot, its error path is undefined behaviour: it reads the list behind a head that is NULL
  or not yet initialised.\<close>

theorem pool_init_no_memory:
  assumes "0 < n"
  shows "(sr_ret (ans w (tick w)) < 0 \<longrightarrow> (\<exists>w'. threadpool_init n w = Some (None, w'))) \<and>
    (0 \<le> sr_ret (ans w (tick w)) \<and>
       (sr_ret (ans w (Suc (tick w))) < 0 \<or> sr_ret (ans w (Suc (Suc (tick w)))) < 0) \<longrightarrow>
     threadpool_init n w = None)"
  using assms
  by (auto simp: threadpool_init_def sys_malloc_def sys_call_def Let_def split: if_splits)

theorem pool_init_no_memory_witness:
  "threadpool_init 5 ((os_with 1 [])\<lparr>ans := \<lambda>k. \<lparr>sr_ret = (if k = 1 then -1 else 1), sr_errno = 12\<rparr>\<rparr>) = None"
  using pool_init_no_memory [of 5 "(os_with 1 [])\<lparr>ans := \<lambda>k. \<lparr>sr_ret = (if k = 1 then -1 else 1), sr_errno = 12\<rparr>\<rparr>"]
  by (simp add: os_with_def)

end
