(* ===== verification/Http_Server.thy ===== *)
theory Http_Server
  imports Comm_Socket Thread_Pool Transition
begin

text \<open>
  \<open>epoll.c\<close> and the main function of \<open>httpd.c\<close>: the event loop that accepts connections, registers
  them for one event each, and hands every connection with input to the thread pool.

  The kernel's side of epoll is its interest list: per registered descriptor the event structure and
  whether it is armed. A wait reports ready descriptors that are armed, and disarms those registered
  with \<open>EPOLLONESHOT\<close>. Which descriptors are ready, and with which flags, is the environment's choice.
\<close>

unbundle bit_operations_syntax

section \<open>epoll.c\<close>

definition EPOLLIN :: int where "EPOLLIN = 1"
definition EPOLLERR :: int where "EPOLLERR = 8"
definition EPOLLHUP :: int where "EPOLLHUP = 16"
definition EPOLLONESHOT :: int where "EPOLLONESHOT = 1073741824"
definition EPOLLET :: int where "EPOLLET = 2147483648"
definition MAXEVENTS :: nat where "MAXEVENTS = 1024"

lemmas epoll_flags = EPOLLIN_def EPOLLERR_def EPOLLHUP_def EPOLLONESHOT_def EPOLLET_def

record epoll_event =
  ev_events :: int
  ev_fd :: int

type_synonym epoll_set = "int \<Rightarrow> (epoll_event \<times> bool) option"

definition My_epoll_create :: "int \<Rightarrow> os \<Rightarrow> int \<times> bool \<times> os" where
  "My_epoll_create fl w =
     (case sys_call w of (fd, w1) \<Rightarrow> (case sys_malloc w1 of (ok, w2) \<Rightarrow> (fd, ok, w2)))"

definition My_epoll_add :: "int \<Rightarrow> epoll_event \<Rightarrow> epoll_set \<Rightarrow> os \<Rightarrow> epoll_set \<times> os" where
  "My_epoll_add fd event es w =
     (case sys_call w of (rc, w') \<Rightarrow>
        if rc < 0 \<or> es fd \<noteq> None then (es, w') else (es(fd \<mapsto> (event, True)), w'))"

definition My_epoll_mod :: "int \<Rightarrow> epoll_event \<Rightarrow> epoll_set \<Rightarrow> os \<Rightarrow> epoll_set \<times> os" where
  "My_epoll_mod fd event es w =
     (case sys_call w of (rc, w') \<Rightarrow>
        if rc < 0 \<or> es fd = None then (es, w') else (es(fd \<mapsto> (event, True)), w'))"

definition My_epoll_del :: "int \<Rightarrow> epoll_set \<Rightarrow> os \<Rightarrow> epoll_set \<times> os" where
  "My_epoll_del fd es w =
     (case sys_call w of (rc, w') \<Rightarrow> if rc < 0 then (es, w') else (es(fd := None), w'))"

fun deliver :: "(int \<times> int) list \<Rightarrow> epoll_set \<Rightarrow> epoll_event list \<times> epoll_set" where
  "deliver [] es = ([], es)"
| "deliver ((fd, fl) # rdy) es =
     (case es fd of
        Some (ev, True) \<Rightarrow>
          (case deliver rdy (if ev_events ev AND EPOLLONESHOT \<noteq> 0 then es(fd \<mapsto> (ev, False)) else es) of
             (evs, es') \<Rightarrow> (\<lparr>ev_events = fl, ev_fd = ev_fd ev\<rparr> # evs, es'))
      | _ \<Rightarrow> deliver rdy es)"

definition My_epoll_wait ::
  "nat \<Rightarrow> (int \<times> int) list \<Rightarrow> epoll_set \<Rightarrow> os \<Rightarrow> int \<times> epoll_event list \<times> epoll_set \<times> os" where
  "My_epoll_wait maxevents rdy es w =
     (case sys_call w of (r, w') \<Rightarrow>
        if r < 0 then (-1, [], es, w')
        else (case deliver (take maxevents rdy) es of (evs, es') \<Rightarrow> (int (length evs), evs, es', w')))"

section \<open>The state of the server\<close>

text \<open>
  \<open>events\<close> is what is left of the array the last wait filled; \<open>running\<close> are the connections the workers
  are serving, \<open>opened\<close> the connected sockets that are not closed and \<open>backlog\<close> how many connections wait
  to be accepted.
\<close>

record server =
  listenfd :: int
  interest :: epoll_set
  events :: "epoll_event list"
  tp :: "int threadpool option"
  count :: int
  running :: "int list"
  halted :: bool
  opened :: "int set"
  backlog :: nat

definition conn_event :: "int \<Rightarrow> epoll_event" where
  "conn_event conn = \<lparr>ev_events = EPOLLIN OR EPOLLET OR EPOLLONESHOT, ev_fd = conn\<rparr>"

definition close_conn :: "int \<Rightarrow> server \<Rightarrow> server" where
  "close_conn fd s = s\<lparr>opened := opened s - {fd}, interest := (interest s)(fd := None)\<rparr>"

text \<open>\<open>accept\<close> gives a descriptor that is not in use, or fails.\<close>

definition accept_conn :: "server \<Rightarrow> os \<Rightarrow> int \<times> os" where
  "accept_conn s w =
     (case sys_accept w of (r, w') \<Rightarrow>
        if r < 0 \<or> backlog s = 0 \<or> r = listenfd s \<or> r \<in> opened s then (-1, w') else (r, w'))"

text \<open>One accepted connection: count it, make it non-blocking, register it for one event.\<close>

definition register_conn :: "int \<Rightarrow> server \<Rightarrow> os \<Rightarrow> server \<times> os" where
  "register_conn conn s w =
     (case activate_nonblock conn w of (_, w1) \<Rightarrow>
        (case My_epoll_add conn (conn_event conn) (interest s) w1 of (es, w2) \<Rightarrow>
           (s\<lparr>count := count s + 1, interest := es, opened := insert conn (opened s),
              backlog := backlog s - 1\<rparr>, w2)))"

function accept_loop :: "server \<Rightarrow> os \<Rightarrow> server \<times> os" where
  "accept_loop s w =
     (case accept_conn s w of (conn, w1) \<Rightarrow>
        if conn < 0 then (s, w1)
        else (case register_conn conn s w1 of (s', w2) \<Rightarrow> accept_loop s' w2))"
  by pat_completeness auto
termination
  by (relation "measure (\<lambda>(s, w). backlog s)")
    (auto simp: accept_conn_def register_conn_def split: prod.splits if_splits)

declare accept_loop.simps [simp del]

section \<open>The event loop\<close>

definition is_error_event :: "epoll_event \<Rightarrow> bool" where
  "is_error_event ev \<longleftrightarrow>
     ev_events ev AND EPOLLERR \<noteq> 0 \<or> ev_events ev AND EPOLLHUP \<noteq> 0 \<or> ev_events ev AND EPOLLIN = 0"

text \<open>The body of the \<open>for\<close> loop.\<close>

definition handle_event :: "epoll_event \<Rightarrow> server \<Rightarrow> os \<Rightarrow> server \<times> os" where
  "handle_event ev s w =
     (let fd = ev_fd ev
      in if listenfd s = fd then accept_loop s w
         else if is_error_event ev then (close_conn fd s, sys_close fd w)
         else (case threadpool_add Main (tp s) (Some fd) w of (_, pool, _, w') \<Rightarrow> (s\<lparr>tp := pool\<rparr>, w')))"

text \<open>Set-up; the result is the exit code of \<open>main\<close> or the server about to enter its loop.\<close>

definition server_start ::
  "(string \<Rightarrow> int) \<Rightarrow> string list \<Rightarrow> nat \<Rightarrow> os \<Rightarrow> (int + server \<times> os) option" where
  "server_start inet_addr argv pending w =
     (if length argv \<noteq> 3 then Some (Inl 1)
      else
        let port = signed_take_bit 15 (atoi (argv ! 2)); ip = argv ! 1
        in (case Server_init inet_addr (Some ip) (take_bit 16 port) w of (lfd, w1) \<Rightarrow>
              if lfd < 0 then Some (Inl (-1))
              else
                (case activate_nonblock lfd w1 of (_, w2) \<Rightarrow>
                   (case My_epoll_create 0 w2 of (_, _, w3) \<Rightarrow>
                      (case My_epoll_add lfd \<lparr>ev_events = EPOLLIN OR EPOLLET, ev_fd = lfd\<rparr> (\<lambda>_. None) w3 of (es, w4) \<Rightarrow>
                         (case threadpool_init 5 w4 of
                            None \<Rightarrow> None
                          | Some (pool, w5) \<Rightarrow>
                              Some (Inr (\<lparr>listenfd = lfd, interest = es, events = [], tp = pool, count = 0,
                                          running = [], halted = False, opened = {}, backlog = pending\<rparr>, w5))))))))"

text \<open>
  The server at work. The main thread waits when it has handled all events and handles the next one
  otherwise; it leaves the loop and destroys the pool when the wait fails. A worker takes a connection
  from the pool and later finishes serving it, closing it or not (\<open>accept_request\<close> leaves it open on its
  error paths); clients connect.
\<close>

definition pool_free :: "server \<Rightarrow> bool" where
  "pool_free s \<longleftrightarrow> (case tp s of None \<Rightarrow> True | Some p \<Rightarrow> lock p = None)"

definition for_pool :: "epoll_event \<Rightarrow> server \<Rightarrow> bool" where
  "for_pool ev s \<longleftrightarrow> listenfd s \<noteq> ev_fd ev \<and> \<not> is_error_event ev"

inductive server_step :: "server \<Rightarrow> server \<Rightarrow> bool" where
  waits: "\<not> halted s \<Longrightarrow> events s = [] \<Longrightarrow>
    My_epoll_wait MAXEVENTS rdy (interest s) w = (n, evs, es, w') \<Longrightarrow> 0 \<le> n \<Longrightarrow>
    server_step s (s\<lparr>interest := es, events := evs\<rparr>)"
| stops: "\<not> halted s \<Longrightarrow> events s = [] \<Longrightarrow> pool_free s \<Longrightarrow>
    My_epoll_wait MAXEVENTS rdy (interest s) w = (n, evs, es, w1) \<Longrightarrow> n < 0 \<Longrightarrow>
    threadpool_destroy Main (tp s) False w1 = (r, pool, wk, w2) \<Longrightarrow>
    server_step s (s\<lparr>tp := pool, halted := True\<rparr>)"
| handles: "\<not> halted s \<Longrightarrow> events s = ev # evs \<Longrightarrow> for_pool ev s \<longrightarrow> pool_free s \<Longrightarrow>
    handle_event ev (s\<lparr>events := evs\<rparr>) w = (s', w') \<Longrightarrow> server_step s s'"
| takes: "tp s = Some p \<Longrightarrow> lock p = None \<Longrightarrow> worker_section p = (Run fd, p') \<Longrightarrow>
    server_step s (s\<lparr>tp := Some p', running := fd # running s\<rparr>)"
| closes: "fd \<in> set (running s) \<Longrightarrow>
    server_step s (close_conn fd (s\<lparr>running := remove1 fd (running s)\<rparr>))"
| abandons: "fd \<in> set (running s) \<Longrightarrow> server_step s (s\<lparr>running := remove1 fd (running s)\<rparr>)"
| connects: "server_step s (s\<lparr>backlog := Suc (backlog s)\<rparr>)"

inductive_cases server_stepE: "server_step s s'"

end
