(* ===== verification/Http_Server_Spec.thy ===== *)
theory Http_Server_Spec
  imports Http_Server
begin

text \<open>
  The event loop keeps connections apart: a connection is queued, being served, reported and not yet
  handled, or armed in epoll, and never two of these at once. Because no registration is ever armed
  again, a connection that was served without being closed stays open for good.
\<close>

section \<open>The invariant\<close>

definition queued :: "server \<Rightarrow> int list" where
  "queued s = (case tp s of None \<Rightarrow> [] | Some p \<Rightarrow> head p)"

definition reported :: "server \<Rightarrow> int list" where
  "reported s = filter (\<lambda>fd. fd \<noteq> listenfd s) (map ev_fd (events s))"

definition busy :: "server \<Rightarrow> int list" where
  "busy s = queued s @ Http_Server.running s @ reported s"

definition armed :: "epoll_set \<Rightarrow> int \<Rightarrow> bool" where
  "armed es fd \<longleftrightarrow> (\<exists>ev. es fd = Some (ev, True))"

definition registered_ok :: "int \<Rightarrow> int set \<Rightarrow> epoll_set \<Rightarrow> bool" where
  "registered_ok lfd conns es \<longleftrightarrow>
     (\<forall>fd ev b. es fd = Some (ev, b) \<longrightarrow>
        ev_fd ev = fd \<and> (fd = lfd \<or> fd \<in> conns \<and> ev_events ev AND EPOLLONESHOT \<noteq> 0))"

definition server_inv :: "server \<Rightarrow> bool" where
  "server_inv s \<longleftrightarrow>
     listenfd s \<notin> opened s \<and> registered_ok (listenfd s) (opened s) (interest s) \<and>
     distinct (busy s) \<and> (\<forall>fd \<in> set (busy s). fd \<in> opened s \<and> \<not> armed (interest s) fd)"

lemma deliver_spec:
  assumes "deliver rdy es = (evs, es')" "registered_ok lfd conns es"
  shows "registered_ok lfd conns es' \<and> distinct (filter (\<lambda>fd. fd \<noteq> lfd) (map ev_fd evs)) \<and>
    (\<forall>fd. armed es' fd \<longrightarrow> armed es fd) \<and>
    (\<forall>fd \<in> set (map ev_fd evs). fd \<noteq> lfd \<longrightarrow> armed es fd \<and> \<not> armed es' fd \<and> fd \<in> conns)"
  using assms
proof (induction rdy arbitrary: es evs)
  case (Cons r rdy)
  obtain fd fl where r: "r = (fd, fl)" by (cases r)
  show ?case
  proof (cases "\<exists>ev. es fd = Some (ev, True)")
    case False
    have "deliver rdy es = (evs, es')"
    proof (cases "es fd")
      case None
      then show ?thesis using Cons.prems(1) by (simp add: r)
    next
      case (Some eb)
      then obtain ev where "es fd = Some (ev, False)" using False by (cases eb; case_tac b) auto
      then show ?thesis using Cons.prems(1) by (simp add: r)
    qed
    from Cons.IH [OF this Cons.prems(2)] show ?thesis .
  next
    case True
    then obtain ev where ev: "es fd = Some (ev, True)" by blast
    define es1 where "es1 = (if ev_events ev AND EPOLLONESHOT \<noteq> 0 then es(fd \<mapsto> (ev, False)) else es)"
    obtain evs1 where d: "deliver rdy es1 = (evs1, es')" and evs: "evs = \<lparr>ev_events = fl, ev_fd = ev_fd ev\<rparr> # evs1"
      using Cons.prems(1) ev by (auto simp: r es1_def split: prod.splits)
    have k: "ev_fd ev = fd" "fd = lfd \<or> fd \<in> conns \<and> ev_events ev AND EPOLLONESHOT \<noteq> 0"
      using Cons.prems(2) ev unfolding registered_ok_def by blast+
    have "registered_ok lfd conns es1"
      using Cons.prems(2) ev k by (auto simp: registered_ok_def es1_def)
    from Cons.IH [OF d this] have IH: "registered_ok lfd conns es'"
      "distinct (filter (\<lambda>fd. fd \<noteq> lfd) (map ev_fd evs1))" "\<And>g. armed es' g \<Longrightarrow> armed es1 g"
      "\<And>g. g \<in> set (map ev_fd evs1) \<Longrightarrow> g \<noteq> lfd \<Longrightarrow> armed es1 g \<and> \<not> armed es' g \<and> g \<in> conns" by blast+
    have a1: "armed es1 g \<Longrightarrow> armed es g" for g by (auto simp: armed_def es1_def split: if_splits)
    have off: "fd \<noteq> lfd \<Longrightarrow> \<not> armed es1 fd" using k(2) by (auto simp: armed_def es1_def)
    have "fd \<noteq> lfd \<Longrightarrow> fd \<notin> set (map ev_fd evs1)" using IH(4) off by blast
    moreover have "armed es fd" using ev by (auto simp: armed_def)
    ultimately show ?thesis using IH a1 off k evs by auto
  qed
qed auto

section \<open>Accepting\<close>

lemma accept_connD:
  assumes "accept_conn s w = (conn, w')" "\<not> conn < 0"
  shows "conn \<noteq> listenfd s" "conn \<notin> opened s" "0 < backlog s"
  using assms by (auto simp: accept_conn_def split: prod.splits if_splits)

lemma register_connD:
  assumes "register_conn conn s w = (s', w')"
  shows "listenfd s' = listenfd s" "events s' = events s" "tp s' = tp s" "Http_Server.running s' = Http_Server.running s"
    "halted s' = halted s" "opened s' = insert conn (opened s)" "backlog s' = backlog s - 1"
    "interest s' = interest s \<or> interest s conn = None \<and> interest s' = (interest s)(conn \<mapsto> (conn_event conn, True))"
  using assms
  by (cases "interest s conn"; auto simp: register_conn_def My_epoll_add_def split: prod.splits if_splits)+

lemma conn_event_oneshot: "ev_events (conn_event conn) AND EPOLLONESHOT \<noteq> 0" "ev_fd (conn_event conn) = conn"
  by (simp_all add: conn_event_def epoll_flags)

lemma register_conn_inv:
  assumes "server_inv s" "register_conn conn s w = (s', w')" "conn \<noteq> listenfd s" "conn \<notin> opened s"
  shows "server_inv s' \<and> busy s' = busy s"
proof -
  note d = register_connD [OF assms(2)]
  have b: "busy s' = busy s" by (simp add: busy_def queued_def reported_def d)
  have nb: "conn \<notin> set (busy s)" using assms(1,4) by (auto simp: server_inv_def)
  have r: "registered_ok (listenfd s) (opened s) (interest s)" using assms(1) by (simp add: server_inv_def)
  have "registered_ok (listenfd s) (insert conn (opened s)) (interest s')"
    using d(8)
  proof (elim disjE conjE)
    show ?thesis if "interest s' = interest s" using r unfolding that registered_ok_def by blast
    show ?thesis if "interest s' = (interest s)(conn \<mapsto> (conn_event conn, True))"
      using r conn_event_oneshot [of conn] unfolding that registered_ok_def by (metis fun_upd_apply insert_iff option.inject prod.inject)
  qed
  moreover have "\<forall>fd \<in> set (busy s). \<not> armed (interest s') fd"
    using assms(1) d(8) nb by (auto simp: server_inv_def armed_def split: if_splits)
  ultimately show ?thesis using assms(1,3) b by (auto simp: server_inv_def d(1,6))
qed

lemma accept_loop_inv:
  assumes "accept_loop s w = (s', w')" "server_inv s"
  shows "server_inv s' \<and> busy s' = busy s \<and> opened s \<subseteq> opened s' \<and> halted s' = halted s \<and>
    (\<forall>fd \<in> opened s. interest s' fd = interest s fd)"
  using assms
proof (induction s w rule: accept_loop.induct)
  case (1 s w)
  obtain conn w1 where a: "accept_conn s w = (conn, w1)" by force
  show ?case
  proof (cases "conn < 0")
    case True
    with a "1.prems" show ?thesis by (subst (asm) accept_loop.simps) simp
  next
    case False
    obtain s1 w2 where r: "register_conn conn s w1 = (s1, w2)" by force
    have "accept_loop s1 w2 = (s', w')" using "1.prems"(1) a False r by (subst (asm) accept_loop.simps) simp
    moreover have i: "server_inv s1 \<and> busy s1 = busy s"
      by (rule register_conn_inv [OF "1.prems"(2) r]) (use accept_connD [OF a False] in simp_all)
    ultimately have "server_inv s' \<and> busy s' = busy s1 \<and> opened s1 \<subseteq> opened s' \<and> halted s' = halted s1 \<and>
        (\<forall>fd \<in> opened s1. interest s' fd = interest s1 fd)"
      using "1.IH" [OF a [symmetric] False r [symmetric]] by blast
    moreover have "interest s1 fd = interest s fd" if "fd \<in> opened s" for fd
      using register_connD(8) [OF r] accept_connD(2) [OF a False] that by auto
    ultimately show ?thesis using i register_connD(5,6) [OF r] by auto
  qed
qed

section \<open>Handing over to the pool\<close>

lemma threadpool_add_head:
  assumes "threadpool_add self pool (Some t) w = (r, pool', wk, w')"
  shows "(case pool' of None \<Rightarrow> [] | Some p \<Rightarrow> head p) = (case pool of None \<Rightarrow> [] | Some p \<Rightarrow> head p) \<or>
    (case pool' of None \<Rightarrow> [] | Some p \<Rightarrow> head p) = t # (case pool of None \<Rightarrow> [] | Some p \<Rightarrow> head p)"
  using assms
  by (auto simp: threadpool_add_def add_section_def add_out_def split: option.splits prod.splits if_splits)

lemma threadpool_destroy_head:
  assumes "threadpool_destroy self pool g w = (r, pool', wk, w')"
  shows "(case pool' of None \<Rightarrow> [] | Some p \<Rightarrow> head p) = (case pool of None \<Rightarrow> [] | Some p \<Rightarrow> head p) \<or>
    (case pool' of None \<Rightarrow> [] | Some p \<Rightarrow> head p) = []"
  using assms
  by (auto simp: threadpool_destroy_def destroy_section_def destroy_finish_def threadpool_free_def workers_gone_def
      Let_def split: option.splits prod.splits if_splits)

lemma close_conn_fields [simp]:
  "listenfd (close_conn fd s) = listenfd s" "events (close_conn fd s) = events s" "tp (close_conn fd s) = tp s"
  "Http_Server.running (close_conn fd s) = Http_Server.running s" "halted (close_conn fd s) = halted s"
  "opened (close_conn fd s) = opened s - {fd}" "interest (close_conn fd s) = (interest s)(fd := None)"
  by (simp_all add: close_conn_def)

lemma registered_ok_remove:
  assumes "registered_ok lfd conns es"
  shows "registered_ok lfd (conns - {fd}) (es(fd := None))"
  unfolding registered_ok_def
proof (intro allI impI)
  fix g ev b
  assume "(es(fd := None)) g = Some (ev, b)"
  then have "g \<noteq> fd" "es g = Some (ev, b)" by (auto split: if_splits)
  with assms show "ev_fd ev = g \<and> (g = lfd \<or> g \<in> conns - {fd} \<and> ev_events ev AND EPOLLONESHOT \<noteq> 0)"
    unfolding registered_ok_def by blast
qed

text \<open>Anything that only shrinks the busy connections, and closes at most one that is no longer busy.\<close>

lemma server_inv_shrink:
  assumes "server_inv s" "listenfd s' = listenfd s" "distinct (busy s')" "set (busy s') \<subseteq> set (busy s)"
    "opened s' = opened s \<and> interest s' = interest s \<or>
     opened s' = opened s - {fd} \<and> interest s' = (interest s)(fd := None) \<and> fd \<notin> set (busy s')"
  shows "server_inv s'"
proof -
  have r: "registered_ok (listenfd s) (opened s) (interest s)" using assms(1) by (simp add: server_inv_def)
  have "registered_ok (listenfd s) (opened s') (interest s')"
    using assms(5) r registered_ok_remove [OF r] by auto
  then show ?thesis using assms by (auto simp: server_inv_def armed_def split: if_splits)
qed

lemma handle_event_inv:
  assumes "server_inv s" "events s = ev # evs" "handle_event ev (s\<lparr>events := evs\<rparr>) w = (s', w')"
  shows "server_inv s'"
proof -
  let ?s = "s\<lparr>events := evs\<rparr>"
  have q: "queued ?s = queued s" by (simp add: queued_def)
  have rep: "reported s = (if ev_fd ev = listenfd s then reported ?s else ev_fd ev # reported ?s)"
    by (simp add: reported_def assms(2))
  have d: "distinct (busy s)" using assms(1) by (simp add: server_inv_def)
  have i: "server_inv ?s"
    by (rule server_inv_shrink [OF assms(1)]) (use d in \<open>auto simp: busy_def q rep split: if_splits\<close>)
  consider (listen) "listenfd s = ev_fd ev" "accept_loop ?s w = (s', w')"
    | (error) "listenfd s \<noteq> ev_fd ev" "s' = close_conn (ev_fd ev) ?s"
    | (pool) r p wk where "listenfd s \<noteq> ev_fd ev" "threadpool_add Main (tp s) (Some (ev_fd ev)) w = (r, p, wk, w')"
        "s' = ?s\<lparr>tp := p\<rparr>"
    using assms(3) by (auto simp: handle_event_def Let_def split: if_splits prod.splits)
  then show ?thesis
  proof cases
    case listen
    with accept_loop_inv i show ?thesis by blast
  next
    case error
    have "busy s' = busy ?s" by (simp add: error(2) busy_def queued_def reported_def)
    then show ?thesis
      using d error by (intro server_inv_shrink [OF i, where fd = "ev_fd ev"]) (auto simp: busy_def q rep)
  next
    case pool
    have b: "queued s' = queued s \<or> queued s' = ev_fd ev # queued s"
      using threadpool_add_head [OF pool(2)] by (simp add: pool(3) queued_def)
    have "reported s' = reported ?s" "Http_Server.running s' = Http_Server.running s"
      by (simp_all add: pool(3) reported_def)
    with b d pool(1) show ?thesis
      by (intro server_inv_shrink [OF assms(1)]) (auto simp: busy_def rep pool(3))
  qed
qed

lemma server_inv_step: "server_inv s \<Longrightarrow> server_step s s' \<Longrightarrow> server_inv s'"
proof (erule server_stepE, goal_cases)
  case (1 rdy w n evs es w')
  obtain evs' es' where d: "deliver (take MAXEVENTS rdy) (interest s) = (evs', es')" by force
  have e: "evs' = evs" "es' = es" using 1(5,6) d by (auto simp: My_epoll_wait_def split: prod.splits if_splits)
  have "registered_ok (listenfd s) (opened s) (interest s)" using 1 by (simp add: server_inv_def)
  from deliver_spec [OF d this] 1 show ?case
    by (auto simp: server_inv_def busy_def queued_def reported_def e)
next
  case (2 rdy w n evs es w1 r p wk w2)
  have "queued s' = queued s \<or> queued s' = []"
    using threadpool_destroy_head [OF 2(8)] by (simp add: 2(2) queued_def)
  with 2 show ?case
    by (intro server_inv_shrink [OF 2(1)]) (auto simp: busy_def reported_def server_inv_def)
next
  case (3 ev evs w w')
  then show ?case using handle_event_inv by blast
next
  case (4 p fd p')
  have "queued s = fd # queued s'"
    using 4(3,5) by (auto simp: queued_def 4(2) worker_section_def split: if_splits list.splits)
  then have "set (busy s') = set (busy s)" "distinct (busy s') \<longleftrightarrow> distinct (busy s)"
    by (auto simp: busy_def reported_def 4(2))
  then show ?case
    using 4(1) by (intro server_inv_shrink [OF 4(1)]) (auto simp: 4(2) server_inv_def)
next
  case (5 fd)
  let ?rest = "remove1 fd (Http_Server.running s)"
  have q: "queued s' = queued s" "reported s' = reported s" "Http_Server.running s' = ?rest"
    by (simp_all add: 5(2) queued_def reported_def)
  have d: "distinct (queued s @ Http_Server.running s @ reported s)"
    using 5(1) by (simp add: server_inv_def busy_def)
  then have "distinct (busy s') \<and> set (busy s') \<subseteq> set (busy s) \<and> fd \<notin> set (busy s')"
    using 5(3) unfolding busy_def q by (auto simp: distinct_remove1 dest: notin_set_remove1)
  then show ?case by (intro server_inv_shrink [OF 5(1), where fd = fd]) (auto simp: 5(2))
next
  case (6 fd)
  show ?case
    using 6(1) by (intro server_inv_shrink [OF 6(1)])
      (auto simp: 6(2) busy_def queued_def reported_def server_inv_def dest: notin_set_remove1)
qed (simp add: server_inv_def busy_def queued_def reported_def)

section \<open>Starting\<close>

definition server_begin :: "server \<Rightarrow> bool" where
  "server_begin s \<longleftrightarrow> (\<exists>inet_addr argv n w w'. server_start inet_addr argv n w = Some (Inr (s, w')))"

lemma create_threads_head: "create_threads n p w = (Some p', w') \<Longrightarrow> head p' = head p \<and> lock p' = lock p"
  by (induction n arbitrary: p w) (fastforce split: prod.splits if_splits)+

lemma threadpool_init_head: "threadpool_init n w = Some (Some p, w') \<Longrightarrow> head p = [] \<and> lock p = None"
  by (auto simp: threadpool_init_def new_pool_def dest!: create_threads_head split: prod.splits if_splits)

lemma server_startD:
  assumes "server_start inet_addr argv n w = Some (Inr (s, w'))"
  shows "events s = []" "Http_Server.running s = []" "opened s = {}" "\<not> halted s" "queued s = []" "length argv = 3"
    "interest s = (\<lambda>_. None) \<or>
     interest s = (\<lambda>_. None)(listenfd s \<mapsto> (\<lparr>ev_events = EPOLLIN OR EPOLLET, ev_fd = listenfd s\<rparr>, True))"
proof -
  show "events s = []" "Http_Server.running s = []" "opened s = {}" "\<not> halted s" "length argv = 3"
    using assms by (auto simp: server_start_def Let_def split: if_splits prod.splits option.splits)
  show "interest s = (\<lambda>_. None) \<or>
     interest s = (\<lambda>_. None)(listenfd s \<mapsto> (\<lparr>ev_events = EPOLLIN OR EPOLLET, ev_fd = listenfd s\<rparr>, True))"
    using assms by (auto simp: server_start_def Let_def My_epoll_add_def split: if_splits prod.splits option.splits)
  obtain w4 where "threadpool_init 5 w4 = Some (tp s, w')"
    using assms by (auto simp: server_start_def Let_def split: if_splits prod.splits option.splits)
  then show "queued s = []" by (auto simp: queued_def dest: threadpool_init_head split: option.splits)
qed

interpretation srv: inductive_invariant server_begin server_step server_inv
proof unfold_locales
  fix s
  assume "server_begin s"
  then obtain inet_addr argv n w w' where "server_start inet_addr argv n w = Some (Inr (s, w'))"
    by (auto simp: server_begin_def)
  from server_startD [OF this] show "server_inv s"
    by (auto simp: server_inv_def busy_def reported_def registered_ok_def split: if_splits)
qed (rule server_inv_step)

section \<open>Connections nobody will serve again\<close>

definition forgotten :: "int \<Rightarrow> server \<Rightarrow> bool" where
  "forgotten fd s \<longleftrightarrow> fd \<in> opened s \<and> fd \<notin> set (busy s) \<and> \<not> armed (interest s) fd"

lemma forgotten_same:
  assumes "forgotten fd s" "opened s' = opened s" "interest s' = interest s" "set (busy s') \<subseteq> set (busy s)"
  shows "forgotten fd s'"
  using assms by (auto simp: forgotten_def)

lemma forgotten_handle:
  assumes inv: "server_inv s" and f: "forgotten fd s" and ev: "events s = ev # evs"
    and h: "handle_event ev (s\<lparr>events := evs\<rparr>) w = (s', w')"
  shows "forgotten fd s'"
proof -
  let ?s = "s\<lparr>events := evs\<rparr>"
  have q: "queued ?s = queued s" by (simp add: queued_def)
  have rep: "reported s = (if ev_fd ev = listenfd s then reported ?s else ev_fd ev # reported ?s)"
    by (simp add: reported_def ev)
  have f': "forgotten fd ?s"
    by (rule forgotten_same [OF f]) (auto simp: busy_def q rep)
  consider (listen) "accept_loop ?s w = (s', w')"
    | (error) "listenfd s \<noteq> ev_fd ev" "s' = close_conn (ev_fd ev) ?s"
    | (pool) r p wk where "listenfd s \<noteq> ev_fd ev" "threadpool_add Main (tp s) (Some (ev_fd ev)) w = (r, p, wk, w')"
        "s' = ?s\<lparr>tp := p\<rparr>"
    using h by (auto simp: handle_event_def Let_def split: if_splits prod.splits)
  then show ?thesis
  proof cases
    case listen
    have "server_inv ?s"
      using inv by (intro server_inv_shrink [OF inv]) (auto simp: busy_def q rep server_inv_def split: if_splits)
    from accept_loop_inv [OF listen this] f' show ?thesis by (auto simp: forgotten_def armed_def)
  next
    case error
    then have "fd \<noteq> ev_fd ev" using f by (auto simp: forgotten_def busy_def rep)
    moreover have "busy s' = busy ?s" by (simp add: error(2) busy_def queued_def reported_def)
    ultimately show ?thesis using f' by (auto simp: forgotten_def armed_def error(2))
  next
    case pool
    then have "fd \<noteq> ev_fd ev" using f by (auto simp: forgotten_def busy_def rep)
    moreover have "queued s' = queued s \<or> queued s' = ev_fd ev # queued s"
      using threadpool_add_head [OF pool(2)] by (simp add: pool(3) queued_def)
    ultimately show ?thesis
      using f f' by (auto simp: forgotten_def busy_def reported_def pool(3))
  qed
qed

lemma forgotten_step: "server_inv s \<Longrightarrow> forgotten fd s \<Longrightarrow> server_step s s' \<Longrightarrow> forgotten fd s'"
proof (erule server_stepE, goal_cases)
  case (1 rdy w n evs es w')
  obtain evs' es' where d: "deliver (take MAXEVENTS rdy) (interest s) = (evs', es')" by force
  have e: "evs' = evs" "es' = es" using 1(6,7) d by (auto simp: My_epoll_wait_def split: prod.splits if_splits)
  have "registered_ok (listenfd s) (opened s) (interest s)" using 1 by (simp add: server_inv_def)
  from deliver_spec [OF d this] 1 show ?case
    by (auto simp: forgotten_def busy_def queued_def reported_def e)
next
  case (2 rdy w n evs es w1 r p wk w2)
  have "queued s' = queued s \<or> queued s' = []"
    using threadpool_destroy_head [OF 2(9)] by (simp add: 2(3) queued_def)
  then show ?case by (intro forgotten_same [OF 2(2)]) (auto simp: 2(3) busy_def reported_def)
next
  case (3 ev evs w w')
  then show ?case using forgotten_handle by blast
next
  case (4 p g p')
  have "queued s = g # queued s'"
    using 4(4,6) by (auto simp: queued_def 4(3) worker_section_def split: if_splits list.splits)
  then have "set (busy s') = set (busy s)" by (auto simp: busy_def reported_def 4(3))
  then show ?case by (intro forgotten_same [OF 4(2)]) (auto simp: 4(3))
next
  case (5 g)
  have "g \<in> set (busy s)" using 5(4) by (simp add: busy_def)
  then have "g \<noteq> fd" using 5(2) by (auto simp: forgotten_def)
  moreover have "set (busy s') \<subseteq> set (busy s)"
    by (auto simp: 5(3) busy_def queued_def reported_def dest: notin_set_remove1)
  ultimately show ?case using 5(2) by (auto simp: 5(3) forgotten_def armed_def)
next
  case (6 g)
  have "set (busy s') \<subseteq> set (busy s)"
    by (auto simp: 6(3) busy_def queued_def reported_def dest: notin_set_remove1)
  then show ?case by (intro forgotten_same [OF 6(2)]) (auto simp: 6(3))
qed (auto simp: forgotten_def busy_def queued_def reported_def)

section \<open>The address the server listens on\<close>

lemma bound_frames:
  "sys_ok w = (b, w') \<Longrightarrow> bound w' = bound w" "sys_malloc w = (b, w') \<Longrightarrow> bound w' = bound w"
  "sys_call w = (r, w') \<Longrightarrow> bound w' = bound w"
  by (auto simp: sys_ok_def sys_malloc_def sys_call_def Let_def split: prod.splits if_splits)

lemma join_all_bound: "join_all n err w = (r, w') \<Longrightarrow> bound w' = bound w"
  by (induction n arbitrary: err w) (auto dest: bound_frames split: prod.splits)

lemma threadpool_free_bound: "threadpool_free p w = (r, p', w') \<Longrightarrow> bound w' = bound w"
proof -
  have "bound ((sys_free ^^ n) v) = bound v" for n v by (induction n) (simp_all add: sys_free_def)
  then show "threadpool_free p w = (r, p', w') \<Longrightarrow> bound w' = bound w"
    by (auto simp: threadpool_free_def sys_free_def split: option.splits if_splits)
qed

lemma threadpool_destroy_bound: "threadpool_destroy t p g w = (r, p', wk, w') \<Longrightarrow> bound w' = bound w"
  by (auto simp: threadpool_destroy_def destroy_section_def destroy_finish_def Let_def
      dest!: bound_frames join_all_bound threadpool_free_bound split: option.splits prod.splits if_splits)

lemma create_threads_bound: "create_threads n p w = (r, w') \<Longrightarrow> bound w' = bound w"
  by (induction n arbitrary: p w)
    (auto dest!: bound_frames threadpool_destroy_bound split: prod.splits if_splits)

lemma threadpool_init_bound: "threadpool_init n w = Some (p, w') \<Longrightarrow> bound w' = bound w"
  by (auto simp: threadpool_init_def dest!: bound_frames create_threads_bound threadpool_free_bound
      split: prod.splits if_splits)

lemma activate_nonblock_bound: "activate_nonblock fd w = (r, w') \<Longrightarrow> bound w' = bound w"
  by (auto simp: activate_nonblock_def sys_getfl_def sys_setfl_def dest!: bound_frames split: prod.splits if_splits)

lemma Server_init_bound:
  assumes "Server_init inet_addr (Some ip) port w = (fd, w')" "0 \<le> fd"
  shows "bound w' fd = Some \<lparr>sin_family = 2, sin_port = htons port, sin_addr = inet_addr ip\<rparr>"
  using assms by (auto simp: Server_init_def sys_bind_def Let_def dest!: bound_frames split: prod.splits if_splits)

section \<open>An example\<close>

definition demo_server :: server where
  "demo_server = \<lparr>listenfd = 3, interest = (\<lambda>_. None)(3 \<mapsto> (\<lparr>ev_events = EPOLLIN OR EPOLLET, ev_fd = 3\<rparr>, True)),
     events = [], tp = Some (new_pool\<lparr>thread_count := 5, start_size := 5\<rparr>), count = 0, running = [],
     halted = False, opened = {}, backlog = 1\<rparr>"

text \<open>The kernel accepts one connection, as descriptor 7, and then fails every call.\<close>

definition one_conn :: os where
  "one_conn = (os_with 7 [])\<lparr>ans := \<lambda>k. \<lparr>sr_ret = (if k = 0 then 7 else -1), sr_errno = 11\<rparr>\<rparr>"

lemma demo_server_start:
  "\<exists>w'. server_start (\<lambda>_. 0) [''httpd'', ''0.0.0.0'', ''8080''] 1 (os_with 3 []) = Some (Inr (demo_server, w'))"
  by (simp add: server_start_def Server_init_def sys_call_def sys_bind_def os_with_def activate_nonblock_def
      sys_getfl_def sys_setfl_def My_epoll_create_def My_epoll_add_def sys_malloc_def threadpool_init_def sys_ok_def
      demo_server_def new_pool_def eval_nat_numeral)

lemma demo_server_reach: "reach server_begin server_step demo_server"
proof (rule reach_init)
  show "server_begin demo_server" unfolding server_begin_def using demo_server_start by blast
qed

definition demo_forgotten :: server where
  "demo_forgotten = demo_server\<lparr>count := 1, opened := {7}, backlog := 0\<rparr>"

lemma demo_forgotten_reach: "reach server_begin server_step demo_forgotten"
proof -
  let ?ev = "\<lparr>ev_events = 1, ev_fd = 3\<rparr>"
  have "\<exists>w'. My_epoll_wait MAXEVENTS [(3, 1)] (interest demo_server) (os_with 1 []) =
      (1, [?ev], interest demo_server, w')"
    by (simp add: My_epoll_wait_def sys_call_def os_with_def MAXEVENTS_def demo_server_def epoll_flags)
  then have "server_step demo_server (demo_server\<lparr>events := [?ev]\<rparr>)"
    using waits [of demo_server "[(3, 1)]" "os_with 1 []" 1 "[?ev]" "interest demo_server"]
    by (auto simp: demo_server_def)
  moreover have "accept_loop demo_server one_conn = accept_loop demo_forgotten (one_conn\<lparr>tick := 3, errno := 11\<rparr>)"
    by (subst accept_loop.simps)
      (simp add: accept_conn_def sys_call_def one_conn_def os_with_def demo_server_def register_conn_def
        activate_nonblock_def sys_getfl_def My_epoll_add_def demo_forgotten_def eval_nat_numeral)
  then have "fst (accept_loop demo_server one_conn) = demo_forgotten"
    by (simp, subst accept_loop.simps)
      (simp add: accept_conn_def sys_call_def one_conn_def os_with_def)
  then obtain w' where "accept_loop demo_server one_conn = (demo_forgotten, w')" by (metis prod.collapse)
  then have "server_step (demo_server\<lparr>events := [?ev]\<rparr>) demo_forgotten"
    using handles [of "demo_server\<lparr>events := [?ev]\<rparr>" ?ev "[]" one_conn demo_forgotten w']
    by (simp add: handle_event_def demo_server_def for_pool_def)
  ultimately show ?thesis using demo_server_reach by (blast intro: reach_step)
qed

section \<open>The properties of the event loop\<close>

text \<open>C20: A connection is never in two hands: in every reachable state of the server the connections queued in the
  pool, being served by workers or reported and not yet handled are pairwise different, all of them are
  open sockets, and none of them is armed in epoll; so no two workers ever serve the same connection.\<close>

theorem server_connections_exclusive:
  assumes "reach server_begin server_step s"
  shows "distinct (queued s @ Http_Server.running s @ reported s) \<and>
    (\<forall>fd \<in> set (queued s @ Http_Server.running s @ reported s). fd \<in> opened s \<and> \<not> armed (interest s) fd)"
  using srv.reach_inv [OF assms] by (simp add: server_inv_def busy_def)

theorem server_connections_exclusive_witness:
  "distinct (queued demo_forgotten @ Http_Server.running demo_forgotten @ reported demo_forgotten)"
  using server_connections_exclusive [OF demo_forgotten_reach] by (rule conjunct1)

text \<open>C40: Registrations are one-shot and never armed again: a connection that is open but neither armed nor queued
  nor served (served without being closed, refused by the pool, or not registered because \<open>epoll_ctl\<close>
  failed) stays open and unserved in every later state.\<close>

theorem server_connection_leak:
  assumes "reach server_begin server_step s" and "fd \<in> opened s" and "fd \<notin> set (busy s)"
    and "\<not> armed (interest s) fd" and "server_step\<^sup>*\<^sup>* s s'"
  shows "fd \<in> opened s' \<and> fd \<notin> set (queued s') \<and> fd \<notin> set (Http_Server.running s')"
proof -
  have "forgotten fd s' \<and> server_inv s'"
    using assms(5)
  proof induction
    case base
    then show ?case using srv.reach_inv [OF assms(1)] assms(2-4) by (simp add: forgotten_def)
  qed (auto intro: forgotten_step server_inv_step)
  then show ?thesis by (auto simp: forgotten_def busy_def)
qed

theorem server_connection_leak_witness:
  "\<not> (\<exists>s'. server_step\<^sup>*\<^sup>* demo_forgotten s' \<and> (7 \<in> opened s' \<longrightarrow> 7 \<in> set (queued s')))"
proof (intro notI, elim exE conjE)
  fix s'
  assume r: "server_step\<^sup>*\<^sup>* demo_forgotten s'" and "7 \<in> opened s' \<longrightarrow> 7 \<in> set (queued s')"
  moreover have "7 \<in> opened s' \<and> 7 \<notin> set (queued s') \<and> 7 \<notin> set (Http_Server.running s')"
    by (rule server_connection_leak [OF demo_forgotten_reach _ _ _ r])
      (simp_all add: demo_forgotten_def demo_server_def busy_def queued_def reported_def armed_def new_pool_def)
  ultimately show False by blast
qed

text \<open>A server that starts listens on the given address, at the port given on the command line modulo 65536,
  in network byte order, and has its listening socket as the only candidate for events.\<close>

theorem server_start_address:
  assumes "server_start inet_addr argv n w = Some (Inr (s, w'))"
  shows "bound w' (listenfd s) =
      Some \<lparr>sin_family = 2, sin_port = htons (take_bit 16 (atoi (argv ! 2))), sin_addr = inet_addr (argv ! 1)\<rparr> \<and>
    dom (interest s) \<subseteq> {listenfd s} \<and> busy s = []"
proof -
  let ?port = "take_bit 16 (signed_take_bit 15 (atoi (argv ! 2)))"
  have port: "?port = take_bit 16 (atoi (argv ! 2))" by (simp add: take_bit_signed_take_bit)
  obtain lfd w1 r2 w2 e3 o3 w3 es w4 where st: "Server_init inet_addr (Some (argv ! 1)) ?port w = (lfd, w1)"
    "0 \<le> lfd" "activate_nonblock lfd w1 = (r2, w2)" "My_epoll_create 0 w2 = (e3, o3, w3)"
    "My_epoll_add lfd \<lparr>ev_events = EPOLLIN OR EPOLLET, ev_fd = lfd\<rparr> (\<lambda>_. None) w3 = (es, w4)"
    "threadpool_init 5 w4 = Some (tp s, w')" "lfd = listenfd s"
    using assms by (auto simp: server_start_def Let_def not_less split: if_splits prod.splits option.splits)
  have "bound w4 = bound w1"
    using activate_nonblock_bound [OF st(3)] st(4,5)
    by (auto simp: My_epoll_create_def My_epoll_add_def dest!: bound_frames split: prod.splits if_splits)
  then have "bound w' lfd = bound w1 lfd" using threadpool_init_bound [OF st(6)] by simp
  with Server_init_bound [OF st(1,2)] port st(7) server_startD [OF assms] show ?thesis
    by (auto simp: busy_def reported_def dom_def split: if_splits)
qed

theorem server_start_address_witness:
  "\<exists>w'. server_start (\<lambda>_. 0) [''httpd'', ''0.0.0.0'', ''8080''] 1 (os_with 3 []) = Some (Inr (demo_server, w')) \<and>
     bound w' 3 = Some \<lparr>sin_family = 2, sin_port = htons (take_bit 16 (atoi ''8080'')), sin_addr = 0\<rparr>"
proof -
  obtain w' where w': "server_start (\<lambda>_. 0) [''httpd'', ''0.0.0.0'', ''8080''] 1 (os_with 3 []) = Some (Inr (demo_server, w'))"
    using demo_server_start by blast
  have "listenfd demo_server = 3" "[''httpd'', ''0.0.0.0'', ''8080''] ! 2 = ''8080''"
    by (simp_all add: demo_server_def)
  with server_start_address [OF w'] w' show ?thesis by auto
qed

end
