(* ===== verification/Timers.thy ===== *)
theory Timers
  imports C_Prelude "HOL-Library.Monad_Syntax"
begin

text \<open>
  \<open>timers.c\<close>: the timer package of the load generator. Timers live on a heap of records linked by
  \<open>prev\<close> and \<open>next\<close> (here \<open>next_t\<close>): 67 doubly linked lists, indexed by a hash of the trigger time and sorted by it, and
  a singly linked free list.

  The state is a record that the load generator extends with its own variables. Pointers are
  addresses, \<open>None\<close> is NULL. An operation that would read or write through a NULL or dangling pointer,
  or index the table outside its bounds, has no result (\<open>None\<close>). \<open>malloc\<close> returns fresh addresses as
  long as \<open>mem_left\<close> allows. A callback may end the process with \<open>exit\<close>: \<open>exit_code\<close> is then set, and
  nothing that follows the call happens.
\<close>

unbundle bit_operations_syntax

section \<open>Data\<close>

type_synonym addr = nat

record timeval =
  tv_sec :: int
  tv_usec :: int

record ('p, 'd) timer =
  timer_proc :: 'p
  client_data :: 'd
  msecs :: int
  periodic :: bool
  time :: timeval
  prev :: "addr option"
  next_t :: "addr option"
  hash_of :: nat

record ('p, 'd) tmr =
  heap :: "addr \<Rightarrow> ('p, 'd) timer option"
  timers :: "nat \<Rightarrow> addr option"
  free_timers :: "addr option"
  brk :: addr
  mem_left :: nat
  clock :: timeval
  exit_code :: "int option"

definition HASH_SIZE :: nat where "HASH_SIZE = 67"
definition INFTIM :: int where "INFTIM = -1"

abbreviation exited :: "('p, 'd, 'z) tmr_scheme \<Rightarrow> bool" where
  "exited s \<equiv> exit_code s \<noteq> None"

section \<open>Pointers\<close>

definition get :: "addr \<Rightarrow> ('p, 'd, 'z) tmr_scheme \<Rightarrow> ('p, 'd) timer option" where
  "get a s = heap s a"

definition upd ::
  "addr \<Rightarrow> (('p, 'd) timer \<Rightarrow> ('p, 'd) timer) \<Rightarrow> ('p, 'd, 'z) tmr_scheme \<Rightarrow> ('p, 'd, 'z) tmr_scheme option" where
  "upd a f s = (case heap s a of None \<Rightarrow> None | Some t \<Rightarrow> Some (s\<lparr>heap := (heap s)(a \<mapsto> f t)\<rparr>))"

definition get_bucket :: "nat \<Rightarrow> ('p, 'd, 'z) tmr_scheme \<Rightarrow> addr option option" where
  "get_bucket h s = (if h < HASH_SIZE then Some (timers s h) else None)"

definition set_bucket :: "nat \<Rightarrow> addr option \<Rightarrow> ('p, 'd, 'z) tmr_scheme \<Rightarrow> ('p, 'd, 'z) tmr_scheme option" where
  "set_bucket h p s = (if h < HASH_SIZE then Some (s\<lparr>timers := (timers s)(h := p)\<rparr>) else None)"

section \<open>The lists\<close>

definition hash_time :: "timeval \<Rightarrow> nat" where
  "hash_time tv = nat (take_bit 32 (tv_sec tv) XOR take_bit 32 (tv_usec tv)) mod HASH_SIZE"

definition hash :: "('p, 'd) timer \<Rightarrow> nat" where
  "hash t = hash_time (time t)"

text \<open>\<open>t->time <= t2->time\<close>, as the list code writes it.\<close>

definition tv_le :: "timeval \<Rightarrow> timeval \<Rightarrow> bool" where
  "tv_le u v \<longleftrightarrow> tv_sec u < tv_sec v \<or> tv_sec u = tv_sec v \<and> tv_usec u \<le> tv_usec v"

partial_function (option) l_add_walk ::
  "addr \<Rightarrow> addr \<Rightarrow> addr option \<Rightarrow> ('p, 'd, 'z) tmr_scheme \<Rightarrow> ('p, 'd, 'z) tmr_scheme option" where
  "l_add_walk t t2prev t2 s =
     (case t2 of
        None \<Rightarrow> do {
          s \<leftarrow> upd t2prev (next_t_update (\<lambda>_. Some t)) s;
          s \<leftarrow> upd t (prev_update (\<lambda>_. Some t2prev)) s;
          upd t (next_t_update (\<lambda>_. None)) s
        }
      | Some b \<Rightarrow> do {
          tm \<leftarrow> get t s;
          tb \<leftarrow> get b s;
          if tv_le (time tm) (time tb) then do {
            s \<leftarrow> upd t2prev (next_t_update (\<lambda>_. Some t)) s;
            s \<leftarrow> upd t (prev_update (\<lambda>_. Some t2prev)) s;
            s \<leftarrow> upd t (next_t_update (\<lambda>_. Some b)) s;
            upd b (prev_update (\<lambda>_. Some t)) s
          } else l_add_walk t b (next_t tb) s
        })"

definition l_add :: "addr \<Rightarrow> ('p, 'd, 'z) tmr_scheme \<Rightarrow> ('p, 'd, 'z) tmr_scheme option" where
  "l_add t s = do {
     tm \<leftarrow> get t s;
     t2 \<leftarrow> get_bucket (hash_of tm) s;
     case t2 of
       None \<Rightarrow> do {
         s \<leftarrow> set_bucket (hash_of tm) (Some t) s;
         s \<leftarrow> upd t (next_t_update (\<lambda>_. None)) s;
         upd t (prev_update (\<lambda>_. None)) s
       }
     | Some b \<Rightarrow> do {
         tb \<leftarrow> get b s;
         if tv_le (time tm) (time tb) then do {
           s \<leftarrow> set_bucket (hash_of tm) (Some t) s;
           s \<leftarrow> upd t (prev_update (\<lambda>_. None)) s;
           s \<leftarrow> upd t (next_t_update (\<lambda>_. Some b)) s;
           upd b (prev_update (\<lambda>_. Some t)) s
         } else l_add_walk t b (next_t tb) s
       }
   }"

definition l_remove :: "addr \<Rightarrow> ('p, 'd, 'z) tmr_scheme \<Rightarrow> ('p, 'd, 'z) tmr_scheme option" where
  "l_remove t s = do {
     tm \<leftarrow> get t s;
     s \<leftarrow> (case prev tm of
            None \<Rightarrow> set_bucket (hash_of tm) (next_t tm) s
          | Some p \<Rightarrow> upd p (next_t_update (\<lambda>_. next_t tm)) s);
     tm \<leftarrow> get t s;
     (case next_t tm of
        None \<Rightarrow> Some s
      | Some n \<Rightarrow> upd n (prev_update (\<lambda>_. prev tm)) s)
   }"

definition l_resort :: "addr \<Rightarrow> ('p, 'd, 'z) tmr_scheme \<Rightarrow> ('p, 'd, 'z) tmr_scheme option" where
  "l_resort t s = do {
     s \<leftarrow> l_remove t s;
     s \<leftarrow> upd t (\<lambda>tm. tm\<lparr>hash_of := hash tm\<rparr>) s;
     l_add t s
   }"

section \<open>The interface\<close>

text \<open>The static table starts out zeroed; \<open>tmr_init\<close> clears it and leaves the free list alone.\<close>

definition tmr_init :: "('p, 'd, 'z) tmr_scheme \<Rightarrow> ('p, 'd, 'z) tmr_scheme" where
  "tmr_init s = s\<lparr>timers := (\<lambda>h. if h < HASH_SIZE then None else timers s h)\<rparr>"

text \<open>The trigger time \<open>ms\<close> milliseconds after \<open>tv\<close>, normalised once.\<close>

definition tv_carry :: "timeval \<Rightarrow> timeval" where
  "tv_carry tv =
     (if tv_usec tv \<ge> 1000000
      then \<lparr>tv_sec = tv_sec tv + tv_usec tv sdiv 1000000, tv_usec = tv_usec tv smod 1000000\<rparr> else tv)"

definition tv_add_ms :: "timeval \<Rightarrow> int \<Rightarrow> timeval" where
  "tv_add_ms tv ms =
     tv_carry \<lparr>tv_sec = tv_sec tv + ms sdiv 1000, tv_usec = tv_usec tv + (ms smod 1000) * 1000\<rparr>"

text \<open>A timer from the free list, or a fresh one.\<close>

definition tmr_alloc :: "('p, 'd, 'z) tmr_scheme \<Rightarrow> (addr option \<times> ('p, 'd, 'z) tmr_scheme) option" where
  "tmr_alloc s =
     (case free_timers s of
        Some t \<Rightarrow> do { tm \<leftarrow> get t s; Some (Some t, s\<lparr>free_timers := next_t tm\<rparr>) }
      | None \<Rightarrow>
          if mem_left s = 0 then Some (None, s)
          else Some (Some (brk s), s\<lparr>brk := Suc (brk s), mem_left := mem_left s - 1\<rparr>))"

definition new_timer :: "'p \<Rightarrow> 'd \<Rightarrow> int \<Rightarrow> bool \<Rightarrow> timeval \<Rightarrow> ('p, 'd) timer" where
  "new_timer proc data ms per tv =
     \<lparr>timer_proc = proc, client_data = data, msecs = ms, periodic = per, time = tv_add_ms tv ms,
      prev = None, next_t = None, hash_of = hash_time (tv_add_ms tv ms)\<rparr>"

definition tmr_create ::
  "timeval option \<Rightarrow> 'p \<Rightarrow> 'd \<Rightarrow> int \<Rightarrow> bool \<Rightarrow> ('p, 'd, 'z) tmr_scheme \<Rightarrow>
   (addr option \<times> ('p, 'd, 'z) tmr_scheme) option" where
  "tmr_create nowP proc data ms per s = do {
     (t, s) \<leftarrow> tmr_alloc s;
     case t of
       None \<Rightarrow> Some (None, s)
     | Some a \<Rightarrow> do {
         let tv = (case nowP of Some n \<Rightarrow> n | None \<Rightarrow> clock s);
         s \<leftarrow> l_add a (s\<lparr>heap := (heap s)(a \<mapsto> new_timer proc data ms per tv)\<rparr>);
         Some (Some a, s)
       }
   }"

definition ms_until :: "timeval \<Rightarrow> timeval \<Rightarrow> int" where
  "ms_until now tv = (tv_sec tv - tv_sec now) * 1000 + (tv_usec tv - tv_usec now) sdiv 1000"

text \<open>The loop over the heads of the lists; the accumulator is \<open>None\<close> while \<open>gotone\<close> is 0.\<close>

fun mstimeout_loop :: "timeval \<Rightarrow> nat list \<Rightarrow> int option \<Rightarrow> ('p, 'd, 'z) tmr_scheme \<Rightarrow> int option option" where
  "mstimeout_loop now [] acc s = Some acc"
| "mstimeout_loop now (h # hs) acc s =
     (case timers s h of
        None \<Rightarrow> mstimeout_loop now hs acc s
      | Some t \<Rightarrow> do {
          tm \<leftarrow> get t s;
          let m = ms_until now (time tm);
          mstimeout_loop now hs (case acc of None \<Rightarrow> Some m | Some ms \<Rightarrow> Some (if m < ms then m else ms)) s
        })"

definition tmr_mstimeout :: "timeval \<Rightarrow> ('p, 'd, 'z) tmr_scheme \<Rightarrow> int option" where
  "tmr_mstimeout now s = do {
     acc \<leftarrow> mstimeout_loop now [0..<HASH_SIZE] None s;
     Some (case acc of None \<Rightarrow> INFTIM | Some ms \<Rightarrow> if ms \<le> 0 then 0 else ms)
   }"

definition tmr_timeout :: "timeval \<Rightarrow> ('p, 'd, 'z) tmr_scheme \<Rightarrow> timeval option option" where
  "tmr_timeout now s = do {
     ms \<leftarrow> tmr_mstimeout now s;
     Some (if ms = INFTIM then None
           else Some \<lparr>tv_sec = ms sdiv 1000, tv_usec = (ms smod 1000) * 1000\<rparr>)
   }"

definition tmr_reset :: "timeval \<Rightarrow> addr \<Rightarrow> ('p, 'd, 'z) tmr_scheme \<Rightarrow> ('p, 'd, 'z) tmr_scheme option" where
  "tmr_reset now t s = do {
     s \<leftarrow> upd t (\<lambda>tm. tm\<lparr>time := tv_add_ms now (msecs tm)\<rparr>) s;
     l_resort t s
   }"

definition tmr_cancel :: "addr \<Rightarrow> ('p, 'd, 'z) tmr_scheme \<Rightarrow> ('p, 'd, 'z) tmr_scheme option" where
  "tmr_cancel t s = do {
     s \<leftarrow> l_remove t s;
     s \<leftarrow> upd t (next_t_update (\<lambda>_. free_timers s)) s;
     upd t (prev_update (\<lambda>_. None)) (s\<lparr>free_timers := Some t\<rparr>)
   }"

text \<open>
  One list of \<open>tmr_run\<close>. The callback is given the whole state; the record is read again after it,
  as the code does. \<open>nowP\<close> is a pointer to a variable of the caller, which the callback gets too and may
  change: here the function that reads that variable, applied at every test.
\<close>

definition fire ::
  "('p \<Rightarrow> 'd \<Rightarrow> ('p, 'd, 'z) tmr_scheme \<Rightarrow> ('p, 'd, 'z) tmr_scheme option) \<Rightarrow> addr \<Rightarrow>
   ('p, 'd, 'z) tmr_scheme \<Rightarrow> ('p, 'd, 'z) tmr_scheme option" where
  "fire call t s = do {
     tm \<leftarrow> get t s;
     s \<leftarrow> call (timer_proc tm) (client_data tm) s;
     if exited s then Some s
     else do {
       tm \<leftarrow> get t s;
       if periodic tm
       then do { s \<leftarrow> upd t (\<lambda>tm. tm\<lparr>time := tv_add_ms (time tm) (msecs tm)\<rparr>) s; l_resort t s }
       else tmr_cancel t s
     }
   }"

definition tv_after :: "timeval \<Rightarrow> timeval \<Rightarrow> bool" where
  "tv_after u v \<longleftrightarrow> tv_sec u > tv_sec v \<or> tv_sec u = tv_sec v \<and> tv_usec u > tv_usec v"

partial_function (option) tmr_run_list ::
  "('p \<Rightarrow> 'd \<Rightarrow> ('p, 'd, 'z) tmr_scheme \<Rightarrow> ('p, 'd, 'z) tmr_scheme option) \<Rightarrow>
   (('p, 'd, 'z) tmr_scheme \<Rightarrow> timeval) \<Rightarrow> addr option \<Rightarrow>
   ('p, 'd, 'z) tmr_scheme \<Rightarrow> ('p, 'd, 'z) tmr_scheme option" where
  "tmr_run_list call nowP t s =
     (case t of
        None \<Rightarrow> Some s
      | Some a \<Rightarrow> do {
          tm \<leftarrow> get a s;
          if tv_after (time tm) (nowP s) then Some s
          else do {
            s \<leftarrow> fire call a s;
            if exited s then Some s else tmr_run_list call nowP (next_t tm) s
          }
        })"

fun tmr_run_from ::
  "('p \<Rightarrow> 'd \<Rightarrow> ('p, 'd, 'z) tmr_scheme \<Rightarrow> ('p, 'd, 'z) tmr_scheme option) \<Rightarrow>
   (('p, 'd, 'z) tmr_scheme \<Rightarrow> timeval) \<Rightarrow> nat list \<Rightarrow>
   ('p, 'd, 'z) tmr_scheme \<Rightarrow> ('p, 'd, 'z) tmr_scheme option" where
  "tmr_run_from call nowP [] s = Some s"
| "tmr_run_from call nowP (h # hs) s = do {
     s \<leftarrow> tmr_run_list call nowP (timers s h) s;
     if exited s then Some s else tmr_run_from call nowP hs s
   }"

definition tmr_run ::
  "('p \<Rightarrow> 'd \<Rightarrow> ('p, 'd, 'z) tmr_scheme \<Rightarrow> ('p, 'd, 'z) tmr_scheme option) \<Rightarrow>
   (('p, 'd, 'z) tmr_scheme \<Rightarrow> timeval) \<Rightarrow>
   ('p, 'd, 'z) tmr_scheme \<Rightarrow> ('p, 'd, 'z) tmr_scheme option" where
  "tmr_run call nowP s = tmr_run_from call nowP [0..<HASH_SIZE] s"

text \<open>Freeing the free list, and cancelling everything first.\<close>

partial_function (option) tmr_cleanup :: "('p, 'd, 'z) tmr_scheme \<Rightarrow> ('p, 'd, 'z) tmr_scheme option" where
  "tmr_cleanup s =
     (case free_timers s of
        None \<Rightarrow> Some s
      | Some t \<Rightarrow> do {
          tm \<leftarrow> get t s;
          tmr_cleanup (s\<lparr>free_timers := next_t tm, heap := (heap s)(t := None)\<rparr>)
        })"

partial_function (option) cancel_bucket :: "nat \<Rightarrow> ('p, 'd, 'z) tmr_scheme \<Rightarrow> ('p, 'd, 'z) tmr_scheme option" where
  "cancel_bucket h s =
     (case timers s h of None \<Rightarrow> Some s | Some t \<Rightarrow> do { s \<leftarrow> tmr_cancel t s; cancel_bucket h s })"

fun cancel_buckets :: "nat list \<Rightarrow> ('p, 'd, 'z) tmr_scheme \<Rightarrow> ('p, 'd, 'z) tmr_scheme option" where
  "cancel_buckets [] s = Some s"
| "cancel_buckets (h # hs) s = do { s \<leftarrow> cancel_bucket h s; cancel_buckets hs s }"

definition tmr_destroy :: "('p, 'd, 'z) tmr_scheme \<Rightarrow> ('p, 'd, 'z) tmr_scheme option" where
  "tmr_destroy s = do { s \<leftarrow> cancel_buckets [0..<HASH_SIZE] s; tmr_cleanup s }"

end
