(* ===== verification/Timers_Rep.thy ===== *)
theory Timers_Rep
  imports Timers
begin

text \<open>
  What the linked timers represent: for each bucket the list of the addresses on it, and the list of
  free ones. The operations on the lists are shown to implement ordered insertion and removal.
\<close>

section \<open>Doubly linked segments\<close>

text \<open>\<open>dseg hp pv p xs q\<close>: following \<open>next_t\<close> from \<open>p\<close> visits \<open>xs\<close> and arrives at \<open>q\<close>, each \<open>prev\<close> points back
  and the first one's is \<open>pv\<close>.\<close>

fun dseg :: "(addr \<Rightarrow> ('p, 'd) timer option) \<Rightarrow> addr option \<Rightarrow> addr option \<Rightarrow> addr list \<Rightarrow> addr option \<Rightarrow> bool" where
  "dseg hp pv p [] q \<longleftrightarrow> p = q"
| "dseg hp pv p (a # xs) q \<longleftrightarrow>
     p = Some a \<and> (\<exists>t. hp a = Some t \<and> prev t = pv \<and> dseg hp (Some a) (next_t t) xs q)"

definition lastp :: "addr option \<Rightarrow> addr list \<Rightarrow> addr option" where
  "lastp pv xs = (if xs = [] then pv else Some (last xs))"

lemma dseg_append:
  "dseg hp pv p (xs @ ys) q \<longleftrightarrow> (\<exists>r. dseg hp pv p xs r \<and> dseg hp (lastp pv xs) r ys q)"
  by (induction xs arbitrary: pv p) (auto simp: lastp_def)

lemma dseg_frame: "a \<notin> set xs \<Longrightarrow> dseg (hp(a := v)) pv p xs q = dseg hp pv p xs q"
  by (induction xs arbitrary: pv p) auto

lemma dseg_cong: "\<forall>a \<in> set xs. hp' a = hp a \<Longrightarrow> dseg hp' pv p xs q = dseg hp pv p xs q"
  by (induction xs arbitrary: pv p) auto

lemma dseg_alloc: "dseg hp pv p xs q \<Longrightarrow> a \<in> set xs \<Longrightarrow> \<exists>t. hp a = Some t"
  by (induction xs arbitrary: pv p) auto

text \<open>Redirecting the end of a segment, and its first back pointer.\<close>

lemma dseg_new_end:
  assumes "dseg hp pv p (xs @ [l]) q" "l \<notin> set xs" "hp l = Some te"
  shows "dseg (hp(l \<mapsto> te\<lparr>next_t := q'\<rparr>)) pv p (xs @ [l]) q'"
  using assms by (auto simp: dseg_append dseg_frame)

lemma dseg_new_start:
  assumes "dseg hp pv p (b # ys) q" "b \<notin> set ys" "hp b = Some tb"
  shows "dseg (hp(b \<mapsto> tb\<lparr>prev := pv'\<rparr>)) pv' p (b # ys) q"
  using assms by (auto simp: dseg_frame)

fun sseg :: "(addr \<Rightarrow> ('p, 'd) timer option) \<Rightarrow> addr option \<Rightarrow> addr list \<Rightarrow> bool" where
  "sseg hp p [] \<longleftrightarrow> p = None"
| "sseg hp p (a # xs) \<longleftrightarrow> p = Some a \<and> (\<exists>t. hp a = Some t \<and> sseg hp (next_t t) xs)"

lemma sseg_cong: "\<forall>a \<in> set xs. hp' a = hp a \<Longrightarrow> sseg hp' p xs = sseg hp p xs"
  by (induction xs arbitrary: p) auto

lemma sseg_alloc: "sseg hp p xs \<Longrightarrow> a \<in> set xs \<Longrightarrow> \<exists>t. hp a = Some t"
  by (induction xs arbitrary: p) auto

section \<open>What stays the same\<close>

definition payload :: "('p, 'd) timer \<Rightarrow> ('p, 'd) timer" where
  "payload t = t\<lparr>prev := None, next_t := None\<rparr>"

definition same_payload :: "(addr \<Rightarrow> ('p, 'd) timer option) \<Rightarrow> (addr \<Rightarrow> ('p, 'd) timer option) \<Rightarrow> bool" where
  "same_payload hp hp' \<longleftrightarrow> (\<forall>a. map_option payload (hp' a) = map_option payload (hp a))"

lemma same_payload_refl [simp]: "same_payload hp hp"
  by (simp add: same_payload_def)

lemma same_payload_trans: "same_payload hp hp1 \<Longrightarrow> same_payload hp1 hp2 \<Longrightarrow> same_payload hp hp2"
  by (simp add: same_payload_def)

lemma same_payload_upd:
  "same_payload hp hp' \<Longrightarrow> hp' a = Some t \<Longrightarrow> payload t' = payload t \<Longrightarrow> same_payload hp (hp'(a \<mapsto> t'))"
  unfolding same_payload_def by (auto simp: fun_upd_def) (metis option.map(2))

lemma payload_links [simp]: "payload (t\<lparr>next_t := n\<rparr>) = payload t" "payload (t\<lparr>prev := p\<rparr>) = payload t"
  by (simp_all add: payload_def)

lemma payload_fields:
  "payload t = payload t' \<Longrightarrow> time t = time t' \<and> hash_of t = hash_of t' \<and> msecs t = msecs t' \<and>
     periodic t = periodic t' \<and> timer_proc t = timer_proc t' \<and> client_data t = client_data t'"
  unfolding payload_def by (cases t, cases t') simp

lemma same_payloadD:
  assumes "same_payload hp hp'" "hp a = Some t"
  obtains t' where "hp' a = Some t'" "payload t' = payload t"
  using assms unfolding same_payload_def by (metis map_option_eq_Some)

lemma same_payload_None: "same_payload hp hp' \<Longrightarrow> hp' a = None \<longleftrightarrow> hp a = None"
  unfolding same_payload_def by (metis map_option_is_None)

section \<open>Insertion\<close>

fun tins :: "(addr \<Rightarrow> addr \<Rightarrow> bool) \<Rightarrow> addr \<Rightarrow> addr list \<Rightarrow> addr list" where
  "tins le x [] = [x]"
| "tins le x (y # ys) = (if le x y then x # y # ys else y # tins le x ys)"

lemma set_tins [simp]: "set (tins le x ys) = insert x (set ys)"
  by (induction ys) auto

lemma distinct_tins [simp]: "distinct (tins le x ys) \<longleftrightarrow> x \<notin> set ys \<and> distinct ys"
  by (induction ys) auto

lemma tins_cong: "\<forall>y \<in> set ys. le' x y = le x y \<Longrightarrow> tins le' x ys = tins le x ys"
  by (induction ys) auto

lemma remove1_tins: "x \<notin> set ys \<Longrightarrow> remove1 x (tins le x ys) = ys"
  by (induction ys) auto

lemma sorted_tins:
  assumes "sorted_wrt le ys" "\<And>a b. le a b \<or> le b a" "\<And>a b c. le a b \<Longrightarrow> le b c \<Longrightarrow> le a c"
  shows "sorted_wrt le (tins le x ys)"
  using assms(1)
proof (induction ys)
  case (Cons y ys)
  then show ?case using assms(2,3) by (auto split: if_splits)
qed simp

definition t_le :: "(addr \<Rightarrow> ('p, 'd) timer option) \<Rightarrow> addr \<Rightarrow> addr \<Rightarrow> bool" where
  "t_le hp a b \<longleftrightarrow> tv_le (time (the (hp a))) (time (the (hp b)))"

text \<open>A timer linked in before the first one of a segment.\<close>

lemma dseg_insert:
  assumes "dseg hp pv p (b # zs) q" "hp b = Some tb" "hp t = Some tm" "t \<notin> set (b # zs)" "b \<notin> set zs"
  defines "hp' \<equiv> hp(t \<mapsto> tm\<lparr>prev := pv, next_t := Some b\<rparr>, b \<mapsto> tb\<lparr>prev := Some t\<rparr>)"
  shows "dseg hp' pv (Some t) (t # b # zs) q" "same_payload hp hp'" "\<And>a. a \<notin> {t, b} \<Longrightarrow> hp' a = hp a"
proof -
  have "\<forall>a \<in> set zs. hp' a = hp a" using assms(4,5) by (auto simp: hp'_def)
  with assms(1,2) have "dseg hp' (Some b) (next_t tb) zs q" using dseg_cong by fastforce
  then show "dseg hp' pv (Some t) (t # b # zs) q" using assms(4) by (simp add: hp'_def)
  show "same_payload hp hp'" unfolding hp'_def
    by (intro same_payload_upd [where t = tb] same_payload_upd [where t = tm] same_payload_refl) (use assms in simp_all)
qed (simp add: hp'_def)

lemma l_add_walk_list:
  assumes "dseg (heap s) (Some p) q ys None" "heap s p = Some tp" "next_t tp = q" "heap s t = Some tm"
    "t \<notin> set ys" "p \<noteq> t" "p \<notin> set ys" "distinct ys"
  shows "\<exists>hp' q'. l_add_walk t p q s = Some (s\<lparr>heap := hp'\<rparr>) \<and> hp' p = Some (tp\<lparr>next_t := q'\<rparr>) \<and>
    dseg hp' (Some p) q' (tins (t_le (heap s)) t ys) None \<and>
    (\<forall>a. a \<notin> insert p (insert t (set ys)) \<longrightarrow> hp' a = heap s a) \<and> same_payload (heap s) hp'"
  using assms
proof (induction ys arbitrary: p q tp)
  case Nil
  define hp1 where "hp1 = (heap s)(p \<mapsto> tp\<lparr>next_t := Some t\<rparr>, t \<mapsto> tm\<lparr>prev := Some p, next_t := None\<rparr>)"
  have "l_add_walk t p q s = Some (s\<lparr>heap := hp1\<rparr>)"
    using Nil by (subst l_add_walk.simps) (auto simp: upd_def hp1_def)
  moreover have "same_payload (heap s) hp1" unfolding hp1_def
    by (intro same_payload_upd [where t = tm] same_payload_upd [where t = tp] same_payload_refl) (use Nil in simp_all)
  moreover have "hp1 p = Some (tp\<lparr>next_t := Some t\<rparr>)" "hp1 t = Some (tm\<lparr>prev := Some p, next_t := None\<rparr>)"
    "\<And>a. a \<noteq> p \<Longrightarrow> a \<noteq> t \<Longrightarrow> hp1 a = heap s a"
    using Nil.prems by (simp_all add: hp1_def)
  ultimately show ?case by (intro exI [of _ hp1] exI [of _ "Some t"]) auto
next
  case (Cons b zs)
  obtain tb where b: "heap s b = Some tb" "prev tb = Some p" "dseg (heap s) (Some b) (next_t tb) zs None" "q = Some b"
    using Cons.prems(1) by auto
  have ne: "b \<noteq> t" "b \<noteq> p" using Cons.prems by auto
  show ?case
  proof (cases "tv_le (time tm) (time tb)")
    case True
    let ?hp = "(heap s)(p \<mapsto> tp\<lparr>next_t := Some t\<rparr>)"
    let ?hp1 = "?hp(t \<mapsto> tm\<lparr>prev := Some p, next_t := Some b\<rparr>, b \<mapsto> tb\<lparr>prev := Some t\<rparr>)"
    have "dseg ?hp (Some p) q (b # zs) None" "?hp b = Some tb" "?hp t = Some tm" "t \<notin> set (b # zs)" "b \<notin> set zs"
      using Cons.prems b(1) ne by (simp_all add: dseg_frame)
    note ins = dseg_insert [OF this]
    have "l_add_walk t p q s = Some (s\<lparr>heap := ?hp1\<rparr>)"
      using Cons.prems b ne True by (subst l_add_walk.simps) (auto simp: upd_def get_def)
    moreover have "same_payload (heap s) ?hp1"
      by (rule same_payload_trans [OF _ ins(2)], rule same_payload_upd [where t = tp]) (use Cons.prems in simp_all)
    moreover have "?hp1 p = Some (tp\<lparr>next_t := Some t\<rparr>)" using Cons.prems ne by simp
    moreover have "\<forall>a. a \<notin> insert p (insert t (set (b # zs))) \<longrightarrow> ?hp1 a = heap s a" by simp
    ultimately show ?thesis using ins(1) True b Cons.prems(4)
      by (intro exI [of _ ?hp1] exI [of _ "Some t"]) (simp add: t_le_def del: fun_upd_apply)
  next
    case False
    have "l_add_walk t p q s = l_add_walk t b (next_t tb) s"
      using Cons.prems b False by (subst l_add_walk.simps) (simp add: get_def)
    moreover obtain hp' q' where w: "l_add_walk t b (next_t tb) s = Some (s\<lparr>heap := hp'\<rparr>)"
      "hp' b = Some (tb\<lparr>next_t := q'\<rparr>)" "dseg hp' (Some b) q' (tins (t_le (heap s)) t zs) None"
      "\<And>a. a \<notin> insert b (insert t (set zs)) \<Longrightarrow> hp' a = heap s a" "same_payload (heap s) hp'"
      using Cons.IH [OF b(3,1) refl Cons.prems(4)] Cons.prems ne by auto
    moreover have "hp' p = Some (tp\<lparr>next_t := Some b\<rparr>)"
      using w(4) [of p] Cons.prems ne b(4) by auto
    moreover have "dseg hp' (Some p) (Some b) (tins (t_le (heap s)) t (b # zs)) None"
      using w(2,3) b False Cons.prems by (simp add: t_le_def)
    ultimately show ?thesis
      by (intro exI [of _ hp'] exI [of _ "Some b"]) auto
  qed
qed

lemma l_add_list:
  assumes "dseg (heap s) None (timers s h) ys None" "heap s t = Some tm" "hash_of tm = h" "h < HASH_SIZE"
    "t \<notin> set ys" "distinct ys"
  shows "\<exists>hp' tb'. l_add t s = Some (s\<lparr>heap := hp', timers := tb'\<rparr>) \<and>
    dseg hp' None (tb' h) (tins (t_le (heap s)) t ys) None \<and> (\<forall>g. g \<noteq> h \<longrightarrow> tb' g = timers s g) \<and>
    (\<forall>a. a \<notin> insert t (set ys) \<longrightarrow> hp' a = heap s a) \<and> same_payload (heap s) hp'"
proof (cases ys)
  case Nil
  define hp1 tb1 where "hp1 = (heap s)(t \<mapsto> tm\<lparr>next_t := None, prev := None\<rparr>)" and "tb1 = (timers s)(h \<mapsto> t)"
  have "l_add t s = Some (s\<lparr>heap := hp1, timers := tb1\<rparr>)"
    using assms Nil by (simp add: l_add_def get_def get_bucket_def set_bucket_def upd_def hp1_def tb1_def)
  moreover have "same_payload (heap s) hp1" unfolding hp1_def
    by (intro same_payload_upd [where t = tm] same_payload_refl) (use assms in simp_all)
  moreover have "dseg hp1 None (tb1 h) [t] None" "\<And>a. a \<noteq> t \<Longrightarrow> hp1 a = heap s a" "\<And>g. g \<noteq> h \<Longrightarrow> tb1 g = timers s g"
    by (simp_all add: hp1_def tb1_def)
  ultimately show ?thesis
    using Nil by (intro exI [of _ hp1] exI [of _ tb1]) auto
next
  case (Cons b zs)
  obtain tb where b: "timers s h = Some b" "heap s b = Some tb" "prev tb = None" "dseg (heap s) (Some b) (next_t tb) zs None"
    using assms(1) Cons by auto
  have ne: "b \<noteq> t" using assms Cons by auto
  show ?thesis
  proof (cases "tv_le (time tm) (time tb)")
    case True
    let ?hp1 = "(heap s)(t \<mapsto> tm\<lparr>prev := None, next_t := Some b\<rparr>, b \<mapsto> tb\<lparr>prev := Some t\<rparr>)"
    let ?tb1 = "(timers s)(h \<mapsto> t)"
    have "dseg (heap s) None (timers s h) (b # zs) None" "t \<notin> set (b # zs)" "b \<notin> set zs" using assms Cons by simp_all
    note ins = dseg_insert [OF this(1) b(2) assms(2) this(2,3)]
    have "l_add t s = Some (s\<lparr>heap := ?hp1, timers := ?tb1\<rparr>)"
      using assms b ne True by (simp add: l_add_def get_def get_bucket_def set_bucket_def upd_def)
    moreover have "\<forall>a. a \<notin> insert t (set ys) \<longrightarrow> ?hp1 a = heap s a" using Cons by simp
    moreover have "tins (t_le (heap s)) t ys = t # b # zs" using True b(2) assms(2) Cons by (simp add: t_le_def)
    ultimately show ?thesis using ins(1,2) by (intro exI [of _ ?hp1] exI [of _ ?tb1]) simp
  next
    case False
    have "l_add t s = l_add_walk t b (next_t tb) s"
      using assms b False by (simp add: l_add_def get_def get_bucket_def)
    moreover obtain hp' q' where w: "l_add_walk t b (next_t tb) s = Some (s\<lparr>heap := hp'\<rparr>)"
      "hp' b = Some (tb\<lparr>next_t := q'\<rparr>)" "dseg hp' (Some b) q' (tins (t_le (heap s)) t zs) None"
      "\<And>a. a \<notin> insert b (insert t (set zs)) \<Longrightarrow> hp' a = heap s a" "same_payload (heap s) hp'"
      using l_add_walk_list [OF b(4,2) refl assms(2)] assms Cons ne by auto
    moreover have "dseg hp' None (timers s h) (tins (t_le (heap s)) t ys) None"
      using w(2,3) b False assms Cons by (simp add: t_le_def)
    moreover have "s\<lparr>heap := hp'\<rparr> = s\<lparr>heap := hp', timers := timers s\<rparr>" by simp
    ultimately show ?thesis using Cons
      by (intro exI [of _ hp'] exI [of _ "timers s"]) auto
  qed
qed

section \<open>Removal\<close>

text \<open>The first half of a removal: the link to the timer is moved behind it.\<close>

lemma unlink_front:
  assumes "dseg (heap s) None (timers s h) xs (Some t)" "prev tm = lastp None xs" "hash_of tm = h" "h < HASH_SIZE" "distinct xs"
  shows "\<exists>hp1 tb1. (case prev tm of None \<Rightarrow> set_bucket (hash_of tm) (next_t tm) s
        | Some p \<Rightarrow> upd p (next_t_update (\<lambda>_. next_t tm)) s) = Some (s\<lparr>heap := hp1, timers := tb1\<rparr>) \<and>
    dseg hp1 None (tb1 h) xs (next_t tm) \<and> (\<forall>g. g \<noteq> h \<longrightarrow> tb1 g = timers s g) \<and> (\<forall>a. a \<notin> set xs \<longrightarrow> hp1 a = heap s a) \<and>
    same_payload (heap s) hp1"
proof (cases xs rule: rev_cases)
  case Nil
  with assms show ?thesis
    by (intro exI [of _ "heap s"] exI [of _ "(timers s)(h := next_t tm)"]) (simp add: lastp_def set_bucket_def)
next
  case (snoc xs' l)
  obtain tl' where l: "heap s l = Some tl'" using assms(1) snoc by (auto simp: dseg_append)
  let ?hp1 = "(heap s)(l \<mapsto> tl'\<lparr>next_t := next_t tm\<rparr>)"
  have "dseg ?hp1 None (timers s h) xs (next_t tm)"
    unfolding snoc by (rule dseg_new_end [where q = "Some t"]) (use assms(1,5) snoc l in auto)
  moreover have "same_payload (heap s) ?hp1"
    by (intro same_payload_upd [where t = tl'] same_payload_refl) (use l in simp_all)
  moreover have "prev tm = Some l" using assms(2) snoc by (simp add: lastp_def)
  ultimately show ?thesis using l snoc by (intro exI [of _ ?hp1] exI [of _ "timers s"]) (simp add: upd_def)
qed

lemma l_remove_list:
  assumes "dseg (heap s) None (timers s h) (xs @ t # ys) None" "heap s t = Some tm" "hash_of tm = h" "h < HASH_SIZE"
    "distinct (xs @ t # ys)"
  shows "\<exists>hp' tb'. l_remove t s = Some (s\<lparr>heap := hp', timers := tb'\<rparr>) \<and>
    dseg hp' None (tb' h) (xs @ ys) None \<and> (\<forall>g. g \<noteq> h \<longrightarrow> tb' g = timers s g) \<and>
    (\<forall>a. a \<notin> set (xs @ ys) \<longrightarrow> hp' a = heap s a) \<and> same_payload (heap s) hp'"
proof -
  have seg: "dseg (heap s) None (timers s h) xs (Some t)" "prev tm = lastp None xs"
    "dseg (heap s) (Some t) (next_t tm) ys None"
    using assms(1,2) by (auto simp: dseg_append)
  from unlink_front [OF seg(1,2) assms(3,4)] assms(5) obtain hp1 tb1 where
    1: "(case prev tm of None \<Rightarrow> set_bucket (hash_of tm) (next_t tm) s
        | Some p \<Rightarrow> upd p (next_t_update (\<lambda>_. next_t tm)) s) = Some (s\<lparr>heap := hp1, timers := tb1\<rparr>)"
      "dseg hp1 None (tb1 h) xs (next_t tm)" "\<And>g. g \<noteq> h \<Longrightarrow> tb1 g = timers s g" "\<And>a. a \<notin> set xs \<Longrightarrow> hp1 a = heap s a"
      "same_payload (heap s) hp1" by auto
  have t1: "hp1 t = Some tm" and "\<forall>a \<in> set ys. hp1 a = heap s a" using 1(4) assms(2,5) by auto
  then have ys: "dseg hp1 (Some t) (next_t tm) ys None" using seg(3) dseg_cong by blast
  show ?thesis
  proof (cases ys)
    case Nil
    then have "next_t tm = None" using seg(3) by simp
    with 1 t1 assms(2) Nil show ?thesis
      by (intro exI [of _ hp1] exI [of _ tb1]) (auto simp: l_remove_def get_def)
  next
    case (Cons b zs)
    obtain tb where b: "hp1 b = Some tb" "next_t tm = Some b" using ys Cons by auto
    define hp2 where "hp2 = hp1(b \<mapsto> tb\<lparr>prev := prev tm\<rparr>)"
    have "l_remove t s = Some (s\<lparr>heap := hp2, timers := tb1\<rparr>)"
      using 1(1) t1 b assms(2) by (simp add: l_remove_def get_def upd_def hp2_def)
    moreover have "dseg hp2 (prev tm) (next_t tm) ys None"
      unfolding hp2_def Cons by (rule dseg_new_start [where pv = "Some t"]) (use ys b Cons assms(5) in auto)
    moreover have "dseg hp2 None (tb1 h) xs (next_t tm)"
      using 1(2) Cons assms(5) by (subst dseg_cong [of _ hp2 hp1]) (auto simp: hp2_def)
    ultimately show ?thesis
      using 1(3-5) b Cons seg(2) assms(5)
      by (intro exI [of _ hp2] exI [of _ tb1])
        (auto simp: dseg_append hp2_def intro!: same_payload_upd [where t = tb])
  qed
qed

section \<open>All lists together\<close>

definition bucket_ok :: "('p, 'd, 'z) tmr_scheme \<Rightarrow> nat \<Rightarrow> addr list \<Rightarrow> bool" where
  "bucket_ok s h xs \<longleftrightarrow>
     dseg (heap s) None (timers s h) xs None \<and> distinct xs \<and> (\<forall>a \<in> set xs. hash_of (the (heap s a)) = h)"

definition links :: "('p, 'd, 'z) tmr_scheme \<Rightarrow> (nat \<Rightarrow> addr list) \<Rightarrow> addr list \<Rightarrow> bool" where
  "links s B F \<longleftrightarrow>
     (\<forall>h < HASH_SIZE. bucket_ok s h (B h) \<and> set (B h) \<inter> set F = {}) \<and>
     sseg (heap s) (free_timers s) F \<and> distinct F \<and> (\<forall>a. heap s a \<noteq> None \<longrightarrow> a < brk s)"

definition active :: "(nat \<Rightarrow> addr list) \<Rightarrow> addr set" where
  "active B = (\<Union>h < HASH_SIZE. set (B h))"

lemma activeI: "h < HASH_SIZE \<Longrightarrow> a \<in> set (B h) \<Longrightarrow> a \<in> active B"
  by (auto simp: active_def)

lemma links_bucket: "links s B F \<Longrightarrow> h < HASH_SIZE \<Longrightarrow> bucket_ok s h (B h)"
  by (simp add: links_def)

lemma links_hash: "links s B F \<Longrightarrow> h < HASH_SIZE \<Longrightarrow> a \<in> set (B h) \<Longrightarrow> hash_of (the (heap s a)) = h"
  by (auto simp: links_def bucket_ok_def)

lemma links_alloc: "links s B F \<Longrightarrow> a \<in> active B \<union> set F \<Longrightarrow> \<exists>t. heap s a = Some t"
  by (auto simp: links_def bucket_ok_def active_def dest: dseg_alloc sseg_alloc)

lemma links_disjoint:
  "links s B F \<Longrightarrow> h < HASH_SIZE \<Longrightarrow> g < HASH_SIZE \<Longrightarrow> a \<in> set (B h) \<Longrightarrow> a \<in> set (B g) \<Longrightarrow> h = g"
  using links_hash by metis

text \<open>A change of one bucket that leaves the records of all other lists alone.\<close>

lemma links_update:
  assumes "links s B F" "h < HASH_SIZE" "dseg hp' None (tb' h) xs None" "distinct xs"
    "\<forall>a \<in> set xs. hash_of (the (heap s a)) = h \<and> heap s a \<noteq> None" "set xs \<inter> set F = {}"
    "\<forall>g. g \<noteq> h \<longrightarrow> tb' g = timers s g" "\<forall>a. a \<notin> set xs \<union> set (B h) \<longrightarrow> hp' a = heap s a"
    "same_payload (heap s) hp'"
  shows "links (s\<lparr>heap := hp', timers := tb'\<rparr>) (B(h := xs)) F"
proof -
  let ?s = "s\<lparr>heap := hp', timers := tb'\<rparr>"
  have hash: "hash_of (the (hp' a)) = hash_of (the (heap s a))" if "heap s a \<noteq> None" for a
    using that same_payloadD [OF assms(9)] by (metis option.exhaust_sel option.sel payload_fields)
  have other: "bucket_ok ?s g (B g)" if g: "g < HASH_SIZE" "g \<noteq> h" for g
  proof -
    have b: "bucket_ok s g (B g)" using links_bucket [OF assms(1) g(1)] .
    have "\<forall>a \<in> set (B g). a \<notin> set xs \<union> set (B h)"
      using b assms(5) g links_disjoint [OF assms(1)] assms(2) by (auto simp: bucket_ok_def)
    then have same: "\<forall>a \<in> set (B g). hp' a = heap s a" using assms(8) by blast
    have "dseg (heap s) None (timers s g) (B g) None" using b by (simp add: bucket_ok_def)
    then have "dseg hp' None (timers s g) (B g) None" using dseg_cong [OF same] by blast
    with b same assms(7) g show ?thesis by (simp add: bucket_ok_def)
  qed
  have "bucket_ok ?s h xs" using assms(3,4,5) hash by (auto simp: bucket_ok_def)
  moreover have "sseg hp' (free_timers s) F"
  proof -
    have "\<forall>a \<in> set F. hp' a = heap s a" using assms(1,2,6,8) by (auto simp: links_def)
    from sseg_cong [OF this] show ?thesis using assms(1) by (auto simp: links_def)
  qed
  moreover have "\<forall>a. hp' a \<noteq> None \<longrightarrow> a < brk s"
    using assms(1) same_payload_None [OF assms(9)] by (auto simp: links_def)
  ultimately show ?thesis using assms(1,6) other by (simp add: links_def)
qed

lemma l_add_links:
  assumes "links s B F" "heap s t = Some tm" "hash_of tm = h" "h < HASH_SIZE" "t \<notin> set (B h)" "t \<notin> set F"
  shows "\<exists>hp' tb'. l_add t s = Some (s\<lparr>heap := hp', timers := tb'\<rparr>) \<and>
    links (s\<lparr>heap := hp', timers := tb'\<rparr>) (B(h := tins (t_le (heap s)) t (B h))) F \<and> same_payload (heap s) hp'"
proof -
  have b: "dseg (heap s) None (timers s h) (B h) None" "distinct (B h)"
    using links_bucket [OF assms(1,4)] by (auto simp: bucket_ok_def)
  obtain hp' tb' where r: "l_add t s = Some (s\<lparr>heap := hp', timers := tb'\<rparr>)"
    "dseg hp' None (tb' h) (tins (t_le (heap s)) t (B h)) None" "\<forall>g. g \<noteq> h \<longrightarrow> tb' g = timers s g"
    "\<forall>a. a \<notin> insert t (set (B h)) \<longrightarrow> hp' a = heap s a" "same_payload (heap s) hp'"
    using l_add_list [OF b(1) assms(2-5) b(2)] by blast
  have "links (s\<lparr>heap := hp', timers := tb'\<rparr>) (B(h := tins (t_le (heap s)) t (B h))) F"
  proof (rule links_update [OF assms(1,4)])
    have "\<forall>a \<in> set (B h). heap s a \<noteq> None" using dseg_alloc [OF b(1)] by auto
    then show "\<forall>a \<in> set (tins (t_le (heap s)) t (B h)). hash_of (the (heap s a)) = h \<and> heap s a \<noteq> None"
      using links_hash [OF assms(1,4)] assms(2,3) by auto
    show "set (tins (t_le (heap s)) t (B h)) \<inter> set F = {}" using assms(1,4,6) by (auto simp: links_def)
  qed (use r b assms(5) in auto)
  with r show ?thesis by blast
qed

lemma l_remove_links:
  assumes "links s B F" "h < HASH_SIZE" "t \<in> set (B h)"
  shows "\<exists>hp' tb'. l_remove t s = Some (s\<lparr>heap := hp', timers := tb'\<rparr>) \<and>
    links (s\<lparr>heap := hp', timers := tb'\<rparr>) (B(h := remove1 t (B h))) F \<and> same_payload (heap s) hp' \<and> hp' t = heap s t"
proof -
  have b: "dseg (heap s) None (timers s h) (B h) None" "distinct (B h)"
    using links_bucket [OF assms(1,2)] by (auto simp: bucket_ok_def)
  obtain xs ys where xy: "B h = xs @ t # ys" using split_list [OF assms(3)] by blast
  have rm: "remove1 t (B h) = xs @ ys" using b(2) xy by (simp add: remove1_append)
  obtain tm where tm: "heap s t = Some tm" "hash_of tm = h"
    using dseg_alloc [OF b(1) assms(3)] links_hash [OF assms] by auto
  obtain hp' tb' where r: "l_remove t s = Some (s\<lparr>heap := hp', timers := tb'\<rparr>)"
    "dseg hp' None (tb' h) (xs @ ys) None" "\<forall>g. g \<noteq> h \<longrightarrow> tb' g = timers s g"
    "\<forall>a. a \<notin> set (xs @ ys) \<longrightarrow> hp' a = heap s a" "same_payload (heap s) hp'"
    using l_remove_list [OF _ tm assms(2)] b xy by metis
  have "links (s\<lparr>heap := hp', timers := tb'\<rparr>) (B(h := xs @ ys)) F"
  proof (rule links_update [OF assms(1,2)])
    show "\<forall>a \<in> set (xs @ ys). hash_of (the (heap s a)) = h \<and> heap s a \<noteq> None"
      using links_hash [OF assms(1,2)] dseg_alloc [OF b(1)] xy by fastforce
    have "set (B h) \<inter> set F = {}" using assms(1,2) by (simp add: links_def)
    then show "set (xs @ ys) \<inter> set F = {}" using xy by auto
  qed (use r b xy in auto)
  moreover have "hp' t = heap s t" using r(4) b(2) xy by auto
  ultimately show ?thesis using r rm by auto
qed

end
