(* ===== verification/Timers_Spec.thy ===== *)
theory Timers_Spec
  imports Timers_Rep
begin

text \<open>
  The timer package against its contract: a finite map from timers to what was scheduled. Creating,
  cancelling and resetting implement the corresponding changes of the map; the timeout is the time to
  the earliest timer; running the timers fires exactly the expired ones; destroying frees everything.
\<close>

section \<open>Order\<close>

definition ordered :: "('p, 'd, 'z) tmr_scheme \<Rightarrow> (nat \<Rightarrow> addr list) \<Rightarrow> bool" where
  "ordered s B \<longleftrightarrow>
     (\<forall>h < HASH_SIZE. sorted_wrt (t_le (heap s)) (B h) \<and> (\<forall>a \<in> set (B h). hash (the (heap s a)) = h))"

definition timers_inv :: "('p, 'd, 'z) tmr_scheme \<Rightarrow> (nat \<Rightarrow> addr list) \<Rightarrow> addr list \<Rightarrow> bool" where
  "timers_inv s B F \<longleftrightarrow> links s B F \<and> ordered s B"

lemma tv_le_total: "tv_le u v \<or> tv_le v u"
  by (auto simp: tv_le_def)

lemma tv_le_trans: "tv_le u v \<Longrightarrow> tv_le v w \<Longrightarrow> tv_le u w"
  by (auto simp: tv_le_def)

lemma tv_after_iff: "tv_after u v \<longleftrightarrow> \<not> tv_le u v"
  by (auto simp: tv_after_def tv_le_def)

lemma the_payload:
  assumes "same_payload hp hp'" "hp a \<noteq> None"
  shows "payload (the (hp' a)) = payload (the (hp a))"
  using assms same_payloadD [OF assms(1)] by (metis option.collapse option.sel)

lemma t_le_payload:
  "same_payload hp hp' \<Longrightarrow> hp a \<noteq> None \<Longrightarrow> hp b \<noteq> None \<Longrightarrow> t_le hp' a b = t_le hp a b"
  unfolding t_le_def by (metis payload_fields the_payload)

lemma hash_payload: "same_payload hp hp' \<Longrightarrow> hp a \<noteq> None \<Longrightarrow> hash (the (hp' a)) = hash (the (hp a))"
  unfolding hash_def by (metis payload_fields the_payload)

lemma ordered_payload:
  assumes "ordered s B" "same_payload (heap s) (heap s')" "\<forall>a \<in> active B. heap s a \<noteq> None"
  shows "ordered s' B"
  unfolding ordered_def
proof (intro allI impI conjI ballI)
  fix h
  assume h: "h < HASH_SIZE"
  have al: "heap s a \<noteq> None" if "a \<in> set (B h)" for a using assms(3) h that by (auto simp: active_def)
  have "sorted_wrt (t_le (heap s)) (B h)" using assms(1) h by (simp add: ordered_def)
  then show "sorted_wrt (t_le (heap s')) (B h)"
    by (rule sorted_wrt_mono_rel [rotated]) (use al t_le_payload [OF assms(2)] in blast)
  show "hash (the (heap s' a)) = h" if "a \<in> set (B h)" for a
    using assms(1) h that hash_payload [OF assms(2) al [OF that]] by (simp add: ordered_def)
qed

lemma sorted_wrt_remove1: "sorted_wrt r xs \<Longrightarrow> sorted_wrt r (remove1 x xs)"
  by (induction xs) (auto dest: notin_set_remove1)

lemma active_remove:
  assumes "links s B F" "h < HASH_SIZE" "t \<in> set (B h)"
  shows "active (B(h := remove1 t (B h))) = active B - {t}"
proof -
  have d: "distinct (B h)" using links_bucket [OF assms(1,2)] by (simp add: bucket_ok_def)
  have "t \<notin> set (B g)" if "g < HASH_SIZE" "g \<noteq> h" for g using links_disjoint [OF assms(1,2)] assms(3) that by blast
  with d assms(2,3) show ?thesis by (fastforce simp: active_def split: if_splits)
qed

lemma active_insert: "h < HASH_SIZE \<Longrightarrow> active (B(h := tins le t (B h))) = insert t (active B)"
  by (fastforce simp: active_def split: if_splits)

lemma hash_time_bound: "hash_time tv < HASH_SIZE"
  by (simp add: hash_time_def HASH_SIZE_def)

text \<open>Removal and insertion keep the order.\<close>

lemma ordered_remove:
  assumes "ordered s B" "same_payload (heap s) (heap s')" "\<forall>a \<in> active B. heap s a \<noteq> None" "h < HASH_SIZE"
  shows "ordered s' (B(h := remove1 t (B h)))"
proof -
  have o: "ordered s' B" by (rule ordered_payload [OF assms(1-3)])
  then show ?thesis by (auto simp: ordered_def sorted_wrt_remove1 dest: notin_set_remove1)
qed

lemma ordered_insert:
  assumes "ordered s B" "same_payload (heap s) (heap s')" "\<forall>a \<in> active B. heap s a \<noteq> None" "h < HASH_SIZE"
    "heap s t = Some tm" "hash tm = h"
  shows "ordered s' (B(h := tins (t_le (heap s)) t (B h)))"
proof -
  have o: "ordered s' B" by (rule ordered_payload [OF assms(1-3)])
  have eq: "tins (t_le (heap s)) t (B h) = tins (t_le (heap s')) t (B h)"
    by (rule tins_cong [symmetric]) (use t_le_payload [OF assms(2)] assms(3-5) in \<open>auto simp: active_def\<close>)
  have "sorted_wrt (t_le (heap s')) (tins (t_le (heap s')) t (B h))"
    using o assms(4) by (intro sorted_tins) (auto simp: ordered_def t_le_def tv_le_total intro: tv_le_trans)
  moreover have "hash (the (heap s' t)) = h" using hash_payload [OF assms(2), of t] assms(5,6) by simp
  ultimately show ?thesis using o eq by (auto simp: ordered_def)
qed

section \<open>The free list\<close>

lemma links_push_free:
  assumes "links s B F" "t \<notin> active B" "t \<notin> set F" "heap s t = Some tm"
  shows "links (s\<lparr>heap := (heap s)(t \<mapsto> tm\<lparr>next_t := free_timers s, prev := None\<rparr>), free_timers := Some t\<rparr>) B (t # F)"
proof -
  let ?hp = "(heap s)(t \<mapsto> tm\<lparr>next_t := free_timers s, prev := None\<rparr>)"
  have "bucket_ok (s\<lparr>heap := ?hp, free_timers := Some t\<rparr>) h (B h)" if h: "h < HASH_SIZE" for h
  proof -
    have t: "t \<notin> set (B h)" using assms(2) h by (auto simp: active_def)
    have "bucket_ok s h (B h)" using assms(1) h by (rule links_bucket)
    with t show ?thesis by (auto simp: bucket_ok_def dseg_frame)
  qed
  moreover have "sseg ?hp (free_timers s) F"
    using assms(1,3) sseg_cong [of F ?hp "heap s" "free_timers s"] by (auto simp: links_def)
  ultimately show ?thesis using assms by (auto simp: links_def active_def)
qed

lemma links_pop_free:
  assumes "links s B (t # F)" "heap s t = Some tm"
  shows "links (s\<lparr>free_timers := next_t tm\<rparr>) B F"
  using assms by (auto simp: links_def bucket_ok_def)

lemma links_fresh:
  assumes "links s B F"
  shows "links (s\<lparr>brk := Suc (brk s), mem_left := m\<rparr>) B F" "brk s \<notin> active B" "brk s \<notin> set F" "heap s (brk s) = None"
proof -
  have n: "heap s (brk s) = None" using assms by (auto simp: links_def)
  then show "brk s \<notin> active B" "brk s \<notin> set F" "heap s (brk s) = None"
    using links_alloc [OF assms, of "brk s"] by auto
  show "links (s\<lparr>brk := Suc (brk s), mem_left := m\<rparr>) B F"
    using assms by (auto simp: links_def bucket_ok_def intro: less_SucI)
qed

lemma links_put:
  assumes "links s B F" "a \<notin> active B" "a \<notin> set F" "a < brk s"
  shows "links (s\<lparr>heap := (heap s)(a \<mapsto> x)\<rparr>) B F"
proof -
  have "bucket_ok (s\<lparr>heap := (heap s)(a \<mapsto> x)\<rparr>) h (B h)" if h: "h < HASH_SIZE" for h
  proof -
    have t: "a \<notin> set (B h)" using assms(2) h by (auto simp: active_def)
    have "bucket_ok s h (B h)" using assms(1) h by (rule links_bucket)
    with t show ?thesis by (auto simp: bucket_ok_def dseg_frame)
  qed
  moreover have "sseg ((heap s)(a \<mapsto> x)) (free_timers s) F"
    using assms(1,3) sseg_cong [of F "(heap s)(a \<mapsto> x)" "heap s" "free_timers s"] by (auto simp: links_def)
  ultimately show ?thesis using assms by (auto simp: links_def)
qed

lemma ordered_put: "ordered s B \<Longrightarrow> a \<notin> active B \<Longrightarrow> ordered (s\<lparr>heap := (heap s)(a \<mapsto> x)\<rparr>) B"
proof -
  assume o: "ordered s B" and a: "a \<notin> active B"
  show ?thesis
    unfolding ordered_def
  proof (intro allI impI conjI ballI)
    fix h
    assume h: "h < HASH_SIZE"
    have ne: "b \<noteq> a" if "b \<in> set (B h)" for b using a h that by (auto simp: active_def)
    have "sorted_wrt (t_le (heap s)) (B h)" using o h by (simp add: ordered_def)
    then show "sorted_wrt (t_le (heap (s\<lparr>heap := (heap s)(a \<mapsto> x)\<rparr>))) (B h)"
      by (rule sorted_wrt_mono_rel [rotated]) (use ne in \<open>auto simp: t_le_def\<close>)
    show "hash (the (heap (s\<lparr>heap := (heap s)(a \<mapsto> x)\<rparr>) b)) = h" if "b \<in> set (B h)" for b
      using o h that ne [OF that] by (simp add: ordered_def)
  qed
qed

text \<open>A record may change its data as long as its links and its hash stay.\<close>

lemma links_time:
  assumes "links s B F" "heap s t = Some tm" "next_t tm' = next_t tm" "prev tm' = prev tm" "hash_of tm' = hash_of tm"
  shows "links (s\<lparr>heap := (heap s)(t \<mapsto> tm')\<rparr>) B F"
proof -
  have d: "dseg hp pv p xs q \<Longrightarrow> hp t = Some tm \<Longrightarrow> dseg (hp(t \<mapsto> tm')) pv p xs q" for hp pv p xs q
    by (induction xs arbitrary: pv p) (auto simp: assms(3,4))
  have f: "sseg hp p xs \<Longrightarrow> hp t = Some tm \<Longrightarrow> sseg (hp(t \<mapsto> tm')) p xs" for hp p xs
    by (induction xs arbitrary: p) (auto simp: assms(3))
  have "hash_of (the (((heap s)(t \<mapsto> tm')) a)) = hash_of (the (heap s a))" for a using assms(2,5) by simp
  then show ?thesis using assms(1,2) d f by (auto simp: links_def bucket_ok_def)
qed

lemma ordered_heap: "ordered s B \<Longrightarrow> heap s' = heap s \<Longrightarrow> ordered s' B"
  by (simp add: ordered_def)

section \<open>The operations\<close>

text \<open>What an operation of the package leaves alone.\<close>

definition frame_ok :: "('p, 'd, 'z) tmr_scheme \<Rightarrow> ('p, 'd, 'z) tmr_scheme \<Rightarrow> bool" where
  "frame_ok s s' \<longleftrightarrow> clock s' = clock s \<and> exit_code s' = exit_code s \<and> tmr.more s' = tmr.more s"

lemma timers_inv_alloc: "timers_inv s B F \<Longrightarrow> \<forall>a \<in> active B. heap s a \<noteq> None"
  using links_alloc by (fastforce simp: timers_inv_def)

lemma l_resort_inv:
  assumes "links s B F" "h < HASH_SIZE" "t \<in> set (B h)" "heap s t = Some tm"
    and "ordered s (B(h := remove1 t (B h)))"
  shows "\<exists>s' B'. l_resort t s = Some s' \<and> timers_inv s' B' F \<and> active B' = active B \<and> frame_ok s s' \<and>
    same_payload ((heap s)(t \<mapsto> tm\<lparr>hash_of := hash tm\<rparr>)) (heap s')"
proof -
  let ?B = "B(h := remove1 t (B h))" and ?g = "hash tm"
  obtain hp1 tb1 where 1: "l_remove t s = Some (s\<lparr>heap := hp1, timers := tb1\<rparr>)"
    "links (s\<lparr>heap := hp1, timers := tb1\<rparr>) ?B F" "same_payload (heap s) hp1" "hp1 t = Some tm"
    using l_remove_links [OF assms(1-3)] assms(4) by auto
  have na: "t \<notin> active ?B" using active_remove [OF assms(1-3)] by simp
  have nf: "t \<notin> set F" using assms(1-3) by (auto simp: links_def)
  have tb: "t < brk s" using assms(1,4) by (auto simp: links_def)
  have al: "\<forall>a \<in> active ?B. heap s a \<noteq> None" using links_alloc [OF assms(1)] active_remove [OF assms(1-3)] by auto
  let ?s1 = "s\<lparr>heap := hp1, timers := tb1\<rparr>"
  let ?s2 = "?s1\<lparr>heap := (heap ?s1)(t \<mapsto> tm\<lparr>hash_of := ?g\<rparr>)\<rparr>"
  have l2: "links ?s2 ?B F" by (rule links_put [OF 1(2) na nf]) (use tb in simp)
  have "ordered (s\<lparr>heap := hp1, timers := tb1\<rparr>) ?B" by (rule ordered_payload [OF assms(5)]) (use 1(3) al in simp_all)
  from ordered_put [OF this na] have o2: "ordered ?s2 ?B" .
  have g: "?g < HASH_SIZE" by (simp add: hash_def hash_time_bound)
  have nb: "t \<notin> set (?B ?g)" using na g by (auto simp: active_def)
  have ht: "heap ?s2 t = Some (tm\<lparr>hash_of := ?g\<rparr>)" by simp
  have hh: "hash_of (tm\<lparr>hash_of := ?g\<rparr>) = ?g" by simp
  obtain hp3 tb3 where 3: "l_add t ?s2 = Some (?s2\<lparr>heap := hp3, timers := tb3\<rparr>)"
    "links (?s2\<lparr>heap := hp3, timers := tb3\<rparr>) (?B(?g := tins (t_le (heap ?s2)) t (?B ?g))) F" "same_payload (heap ?s2) hp3"
    using l_add_links [OF l2 ht hh g nb nf] by (elim exE conjE)
  have al2: "\<forall>a \<in> active ?B. heap ?s2 a \<noteq> None"
  proof
    fix a
    assume "a \<in> active ?B"
    then have "hp1 a \<noteq> None" using al same_payload_None [OF 1(3)] by blast
    then show "heap ?s2 a \<noteq> None" by simp
  qed
  have "ordered (?s2\<lparr>heap := hp3, timers := tb3\<rparr>) (?B(?g := tins (t_le (heap ?s2)) t (?B ?g)))"
    by (rule ordered_insert [OF o2 _ al2 g ht]) (use 3(3) in \<open>simp_all add: hash_def\<close>)
  moreover have "l_resort t s = Some (?s2\<lparr>heap := hp3, timers := tb3\<rparr>)"
    using 1(1,4) 3(1) by (simp add: l_resort_def upd_def)
  moreover have "active (?B(?g := tins (t_le (heap ?s2)) t (?B ?g))) = active B"
    using active_insert [OF g, of ?B] active_remove [OF assms(1-3)] assms(2,3) activeI by (metis insert_Diff)
  moreover have "same_payload ((heap s)(t \<mapsto> tm\<lparr>hash_of := ?g\<rparr>)) hp3"
  proof (rule same_payload_trans)
    show "same_payload ((heap s)(t \<mapsto> tm\<lparr>hash_of := ?g\<rparr>)) (hp1(t \<mapsto> tm\<lparr>hash_of := ?g\<rparr>))"
      using 1(3) by (simp add: same_payload_def)
  qed (use 3(3) in simp)
  ultimately show ?thesis
    using 3(2) by (intro exI [of _ "?s2\<lparr>heap := hp3, timers := tb3\<rparr>"]) (auto simp: timers_inv_def frame_ok_def)
qed

lemma tmr_cancel_inv:
  assumes "timers_inv s B F" "h < HASH_SIZE" "t \<in> set (B h)"
  shows "\<exists>s'. tmr_cancel t s = Some s' \<and> timers_inv s' (B(h := remove1 t (B h))) (t # F) \<and> frame_ok s s' \<and>
    same_payload (heap s) (heap s')"
proof -
  let ?B = "B(h := remove1 t (B h))"
  have l: "links s B F" and o: "ordered s B" using assms(1) by (simp_all add: timers_inv_def)
  obtain tm where tm: "heap s t = Some tm" using links_alloc [OF l] activeI [of h t B, OF assms(2,3)] by blast
  obtain hp1 tb1 where 1: "l_remove t s = Some (s\<lparr>heap := hp1, timers := tb1\<rparr>)"
    "links (s\<lparr>heap := hp1, timers := tb1\<rparr>) ?B F" "same_payload (heap s) hp1" "hp1 t = Some tm"
    using l_remove_links [OF l assms(2,3)] tm by auto
  have na: "t \<notin> active ?B" using active_remove [OF l assms(2,3)] by simp
  have nf: "t \<notin> set F" using l assms(2,3) by (auto simp: links_def)
  let ?s1 = "s\<lparr>heap := hp1, timers := tb1\<rparr>"
  let ?s2 = "?s1\<lparr>heap := (heap ?s1)(t \<mapsto> tm\<lparr>next_t := free_timers ?s1, prev := None\<rparr>), free_timers := Some t\<rparr>"
  have l2: "links ?s2 ?B (t # F)" by (rule links_push_free [OF 1(2) na nf]) (use 1(4) in simp)
  have sp: "same_payload (heap s) (heap ?s2)"
    using same_payload_upd [OF 1(3,4), of "tm\<lparr>next_t := free_timers s, prev := None\<rparr>"] by simp
  have "ordered ?s2 ?B" by (rule ordered_remove [OF o sp timers_inv_alloc [OF assms(1)] assms(2)])
  moreover have "tmr_cancel t s = Some ?s2" using 1(1,4) by (simp add: tmr_cancel_def upd_def)
  ultimately show ?thesis using l2 sp by (intro exI [of _ ?s2]) (simp add: timers_inv_def frame_ok_def)
qed

lemma tmr_reset_inv:
  assumes "timers_inv s B F" "h < HASH_SIZE" "t \<in> set (B h)" "heap s t = Some tm"
  shows "\<exists>s' B'. tmr_reset now t s = Some s' \<and> timers_inv s' B' F \<and> active B' = active B \<and> frame_ok s s' \<and>
    same_payload ((heap s)(t \<mapsto> tm\<lparr>time := tv_add_ms now (msecs tm), hash_of := hash_time (tv_add_ms now (msecs tm))\<rparr>)) (heap s')"
proof -
  let ?tm = "tm\<lparr>time := tv_add_ms now (msecs tm)\<rparr>" and ?B = "B(h := remove1 t (B h))"
  let ?s1 = "s\<lparr>heap := (heap s)(t \<mapsto> ?tm)\<rparr>"
  have l: "links s B F" and o: "ordered s B" using assms(1) by (simp_all add: timers_inv_def)
  have l1: "links ?s1 B F" by (rule links_time [OF l assms(4)]) simp_all
  have "ordered s ?B" by (rule ordered_remove [OF o _ timers_inv_alloc [OF assms(1)] assms(2)]) simp
  moreover have "t \<notin> active ?B" using active_remove [OF l assms(2,3)] by simp
  ultimately have o1: "ordered ?s1 ?B" by (rule ordered_put)
  have "tmr_reset now t s = l_resort t ?s1" using assms(4) by (simp add: tmr_reset_def upd_def)
  with l_resort_inv [OF l1 assms(2,3) _ o1, of ?tm] show ?thesis
    by (auto simp: hash_def frame_ok_def)
qed

lemma schedule_inv:
  assumes "links s B F" "ordered s B" "a \<notin> active B" "a \<notin> set F" "a < brk s" "hash_of x = hash x"
  shows "\<exists>s' B'. l_add a (s\<lparr>heap := (heap s)(a \<mapsto> x)\<rparr>) = Some s' \<and> timers_inv s' B' F \<and>
    active B' = insert a (active B) \<and> frame_ok s s' \<and> same_payload ((heap s)(a \<mapsto> x)) (heap s')"
proof -
  let ?s = "s\<lparr>heap := (heap s)(a \<mapsto> x)\<rparr>" and ?h = "hash x"
  have l: "links ?s B F" by (rule links_put [OF assms(1,3-5)])
  have o: "ordered ?s B" by (rule ordered_put [OF assms(2,3)])
  have h: "?h < HASH_SIZE" by (simp add: hash_def hash_time_bound)
  have x: "heap ?s a = Some x" by simp
  have nb: "a \<notin> set (B ?h)" using assms(3) h by (auto simp: active_def)
  have al: "\<forall>b \<in> active B. heap ?s b \<noteq> None" using links_alloc [OF l] by blast
  obtain hp' tb' where r: "l_add a ?s = Some (?s\<lparr>heap := hp', timers := tb'\<rparr>)"
    "links (?s\<lparr>heap := hp', timers := tb'\<rparr>) (B(?h := tins (t_le (heap ?s)) a (B ?h))) F"
    "same_payload (heap ?s) hp'"
    using l_add_links [OF l x assms(6) h nb assms(4)] by (elim exE conjE)
  have "ordered (?s\<lparr>heap := hp', timers := tb'\<rparr>) (B(?h := tins (t_le (heap ?s)) a (B ?h)))"
    by (rule ordered_insert [OF o _ al h x]) (use r(3) in simp_all)
  then have inv: "timers_inv (?s\<lparr>heap := hp', timers := tb'\<rparr>) (B(?h := tins (t_le (heap ?s)) a (B ?h))) F"
    using r(2) unfolding timers_inv_def by blast
  have fr: "frame_ok s (?s\<lparr>heap := hp', timers := tb'\<rparr>)" by (simp add: frame_ok_def)
  have "same_payload ((heap s)(a \<mapsto> x)) (heap (?s\<lparr>heap := hp', timers := tb'\<rparr>))" using r(3) by simp
  with r(1) inv fr active_insert [OF h] show ?thesis by blast
qed

lemma tmr_create_inv:
  assumes "timers_inv s B F" "x = new_timer proc data ms per (case nowP of Some n \<Rightarrow> n | None \<Rightarrow> clock s)"
  shows "(\<exists>s' a B' F'. tmr_create nowP proc data ms per s = Some (Some a, s') \<and> timers_inv s' B' F' \<and>
      a \<notin> active B \<and> active B' = insert a (active B) \<and> frame_ok s s' \<and> same_payload ((heap s)(a \<mapsto> x)) (heap s')) \<or>
    F = [] \<and> mem_left s = 0 \<and> tmr_create nowP proc data ms per s = Some (None, s)"
proof -
  have l: "links s B F" and o: "ordered s B" using assms(1) by (simp_all add: timers_inv_def)
  have hx: "hash_of x = hash x" by (simp add: assms(2) new_timer_def hash_def)
  show ?thesis
  proof (cases F)
    case (Cons a F')
    then obtain tm where a: "free_timers s = Some a" "heap s a = Some tm" using l by (auto simp: links_def)
    let ?s = "s\<lparr>free_timers := next_t tm\<rparr>"
    have l1: "links ?s B F'" using links_pop_free l a(2) Cons by blast
    have o1: "ordered ?s B" using o by (rule ordered_heap) simp
    have na: "a \<notin> active B" "a \<notin> set F'" "a < brk ?s"
      using l Cons a(2) by (auto simp: links_def active_def)
    have "tmr_create nowP proc data ms per s =
        map_option (\<lambda>s. (Some a, s)) (l_add a (?s\<lparr>heap := (heap ?s)(a \<mapsto> x)\<rparr>))"
      by (simp add: tmr_create_def tmr_alloc_def a get_def assms(2) Let_def map_conv_bind_option comp_def cong: option.case_cong)
    with schedule_inv [OF l1 o1 na hx] na(1) show ?thesis by (auto simp: frame_ok_def)
  next
    case Nil
    then have f: "free_timers s = None" using l by (simp add: links_def)
    show ?thesis
    proof (cases "mem_left s = 0")
      case True
      with f Nil show ?thesis by (simp add: tmr_create_def tmr_alloc_def)
    next
      case False
      let ?s = "s\<lparr>brk := Suc (brk s), mem_left := mem_left s - 1\<rparr>" and ?a = "brk s"
      note fr = links_fresh [OF l]
      have o1: "ordered ?s B" using o by (rule ordered_heap) simp
      have "tmr_create nowP proc data ms per s =
          map_option (\<lambda>s. (Some ?a, s)) (l_add ?a (?s\<lparr>heap := (heap ?s)(?a \<mapsto> x)\<rparr>))"
        using False by (simp add: tmr_create_def tmr_alloc_def f assms(2) Let_def map_conv_bind_option comp_def cong: option.case_cong)
      with schedule_inv [OF fr(1) o1 fr(2,3) _ hx] fr(2) show ?thesis by (auto simp: frame_ok_def)
    qed
  qed
qed

section \<open>The contract\<close>

text \<open>What is scheduled: the active timers with their data.\<close>

definition scheduled :: "('p, 'd, 'z) tmr_scheme \<Rightarrow> (nat \<Rightarrow> addr list) \<Rightarrow> addr \<rightharpoonup> ('p, 'd) timer" where
  "scheduled s B = (\<lambda>a. if a \<in> active B then map_option payload (heap s a) else None)"

definition timer_abs :: "('p, 'd, 'z) tmr_scheme \<Rightarrow> (addr \<rightharpoonup> ('p, 'd) timer) \<Rightarrow> bool" where
  "timer_abs s m \<longleftrightarrow> (\<exists>B F. timers_inv s B F \<and> m = scheduled s B)"

locale timer_store =
  fixes absr :: "'s \<Rightarrow> (addr \<rightharpoonup> ('p, 'd) timer) \<Rightarrow> bool"
    and create :: "timeval option \<Rightarrow> 'p \<Rightarrow> 'd \<Rightarrow> int \<Rightarrow> bool \<Rightarrow> 's \<Rightarrow> (addr option \<times> 's) option"
    and cancel :: "addr \<Rightarrow> 's \<Rightarrow> 's option"
    and reset :: "timeval \<Rightarrow> addr \<Rightarrow> 's \<Rightarrow> 's option"
    and now_of :: "'s \<Rightarrow> timeval"
    and room :: "'s \<Rightarrow> bool"
    and keeps :: "'s \<Rightarrow> 's \<Rightarrow> bool"
  assumes create_law: "absr s m \<Longrightarrow>
      \<exists>r s'. create nowP proc data ms per s = Some (r, s') \<and> keeps s s' \<and> (room s \<longrightarrow> r \<noteq> None) \<and>
        (case r of None \<Rightarrow> absr s' m
         | Some a \<Rightarrow> m a = None \<and>
             absr s' (m(a \<mapsto> new_timer proc data ms per (case nowP of Some n \<Rightarrow> n | None \<Rightarrow> now_of s))))"
    and cancel_law: "absr s m \<Longrightarrow> m a \<noteq> None \<Longrightarrow> \<exists>s'. cancel a s = Some s' \<and> keeps s s' \<and> absr s' (m(a := None))"
    and reset_law: "absr s m \<Longrightarrow> m a = Some t \<Longrightarrow>
      \<exists>s'. reset now a s = Some s' \<and> keeps s s' \<and>
        absr s' (m(a \<mapsto> t\<lparr>time := tv_add_ms now (msecs t), hash_of := hash_time (tv_add_ms now (msecs t))\<rparr>))"
begin

text \<open>Creating a timer and cancelling it again leaves the schedule as it was.\<close>

lemma create_cancel:
  assumes "absr s m" "create nowP proc data ms per s = Some (Some a, s')"
  shows "\<exists>s''. cancel a s' = Some s'' \<and> absr s'' m"
proof -
  from create_law [OF assms(1), of nowP proc data ms per] assms(2)
  have m: "m a = None" "absr s' (m(a \<mapsto> new_timer proc data ms per (case nowP of Some n \<Rightarrow> n | None \<Rightarrow> now_of s)))"
    by auto
  from cancel_law [OF m(2), of a] m(1) show ?thesis by (auto simp: fun_upd_idem)
qed

text \<open>Resetting twice is resetting once, with the later time.\<close>

lemma reset_reset:
  assumes "absr s m" "m a = Some t" "reset now a s = Some s1"
  shows "\<exists>s2. reset now' a s1 = Some s2 \<and>
    absr s2 (m(a \<mapsto> t\<lparr>time := tv_add_ms now' (msecs t), hash_of := hash_time (tv_add_ms now' (msecs t))\<rparr>))"
proof -
  from reset_law [OF assms(1,2), of now] assms(3)
  have "absr s1 (m(a \<mapsto> t\<lparr>time := tv_add_ms now (msecs t), hash_of := hash_time (tv_add_ms now (msecs t))\<rparr>))"
    by simp
  from reset_law [OF this, of a _ now'] show ?thesis by auto
qed

text \<open>Two timers that are scheduled at the same time are different.\<close>

lemma create_distinct:
  assumes "absr s m" "create n1 p1 d1 ms1 per1 s = Some (Some a, s1)" "create n2 p2 d2 ms2 per2 s1 = Some (Some b, s2)"
  shows "a \<noteq> b"
proof -
  from create_law [OF assms(1), of n1 p1 d1 ms1 per1] assms(2)
  have "absr s1 (m(a \<mapsto> new_timer p1 d1 ms1 per1 (case n1 of Some n \<Rightarrow> n | None \<Rightarrow> now_of s)))" by auto
  from create_law [OF this, of n2 p2 d2 ms2 per2] assms(3) show ?thesis by auto
qed

end

lemma scheduled_upd:
  assumes "same_payload ((heap s)(a \<mapsto> x)) (heap s')" "active B' = insert a (active B)" "payload x = x'"
  shows "scheduled s' B' = (scheduled s B)(a \<mapsto> x')"
proof
  fix b
  have "map_option payload (heap s' b) = map_option payload (((heap s)(a \<mapsto> x)) b)"
    using assms(1) by (simp add: same_payload_def)
  then show "scheduled s' B' b = ((scheduled s B)(a \<mapsto> x')) b" using assms(2,3)
    by (cases "b = a") (auto simp: scheduled_def)
qed

lemma scheduled_remove:
  assumes "same_payload (heap s) (heap s')" "active B' = active B - {a}"
  shows "scheduled s' B' = (scheduled s B)(a := None)"
  using assms by (auto simp: scheduled_def same_payload_def fun_eq_iff)

lemma scheduled_Some:
  assumes "timers_inv s B F" "scheduled s B a = Some t"
  obtains h tm where "h < HASH_SIZE" "a \<in> set (B h)" "heap s a = Some tm" "t = payload tm"
  using assms by (auto simp: scheduled_def active_def split: if_splits)

lemma payload_new_timer: "payload (new_timer proc data ms per tv) = new_timer proc data ms per tv"
  by (simp add: payload_def new_timer_def)

text \<open>\<open>tmr_create\<close> does not fail as long as a record is free or memory is left.\<close>

definition has_room :: "('p, 'd, 'z) tmr_scheme \<Rightarrow> bool" where
  "has_room s \<longleftrightarrow> free_timers s \<noteq> None \<or> mem_left s \<noteq> 0"

lemma tmr_create_abs:
  assumes "timer_abs s m"
  shows "\<exists>r s'. tmr_create nowP proc data ms per s = Some (r, s') \<and> frame_ok s s' \<and> (has_room s \<longrightarrow> r \<noteq> None) \<and>
    (case r of None \<Rightarrow> timer_abs s' m
     | Some a \<Rightarrow> m a = None \<and> timer_abs s' (m(a \<mapsto> new_timer proc data ms per (case nowP of Some n \<Rightarrow> n | None \<Rightarrow> clock s))))"
proof -
  let ?x = "new_timer proc data ms per (case nowP of Some n \<Rightarrow> n | None \<Rightarrow> clock s)"
  obtain B F where i: "timers_inv s B F" "m = scheduled s B" using assms by (auto simp: timer_abs_def)
  from tmr_create_inv [OF i(1) refl, of nowP proc data ms per] show ?thesis
  proof (elim disjE exE conjE)
    fix s' a B' F'
    assume c: "tmr_create nowP proc data ms per s = Some (Some a, s')" "timers_inv s' B' F'" "a \<notin> active B"
      "active B' = insert a (active B)" "same_payload ((heap s)(a \<mapsto> ?x)) (heap s')" "frame_ok s s'"
    from scheduled_upd [OF c(5,4) payload_new_timer] i(2) c(2) have "timer_abs s' (m(a \<mapsto> ?x))"
      by (auto simp: timer_abs_def)
    with c(1,3,6) i(2) show ?thesis by (auto simp: scheduled_def)
  next
    assume n: "F = []" "mem_left s = 0" "tmr_create nowP proc data ms per s = Some (None, s)"
    have "free_timers s = None" using i(1) n(1) by (simp add: timers_inv_def links_def)
    with n(2) have "\<not> has_room s" by (simp add: has_room_def)
    with n(3) assms show ?thesis by (simp add: frame_ok_def)
  qed
qed

lemma tmr_cancel_abs:
  assumes "timer_abs s m" "m a \<noteq> None"
  shows "\<exists>s'. tmr_cancel a s = Some s' \<and> frame_ok s s' \<and> timer_abs s' (m(a := None))"
proof -
  obtain B F where i: "timers_inv s B F" "m = scheduled s B" using assms(1) by (auto simp: timer_abs_def)
  with assms(2) obtain h where h: "h < HASH_SIZE" "a \<in> set (B h)" by (auto elim: scheduled_Some [OF i(1)])
  have l: "links s B F" using i(1) by (simp add: timers_inv_def)
  from tmr_cancel_inv [OF i(1) h] obtain s' where
    "tmr_cancel a s = Some s'" "timers_inv s' (B(h := remove1 a (B h))) (a # F)" "same_payload (heap s) (heap s')"
    "frame_ok s s'" by blast
  with scheduled_remove [OF _ active_remove [OF l h]] i(2) show ?thesis by (metis timer_abs_def)
qed

lemma tmr_reset_abs:
  assumes "timer_abs s m" "m a = Some t"
  shows "\<exists>s'. tmr_reset now a s = Some s' \<and> frame_ok s s' \<and>
    timer_abs s' (m(a \<mapsto> t\<lparr>time := tv_add_ms now (msecs t), hash_of := hash_time (tv_add_ms now (msecs t))\<rparr>))"
proof -
  obtain B F where i: "timers_inv s B F" "m = scheduled s B" using assms(1) by (auto simp: timer_abs_def)
  with assms(2) obtain h tm where h: "h < HASH_SIZE" "a \<in> set (B h)" "heap s a = Some tm" "t = payload tm"
    by (auto elim: scheduled_Some [OF i(1)])
  let ?x = "tm\<lparr>time := tv_add_ms now (msecs tm), hash_of := hash_time (tv_add_ms now (msecs tm))\<rparr>"
  let ?x' = "t\<lparr>time := tv_add_ms now (msecs t), hash_of := hash_time (tv_add_ms now (msecs t))\<rparr>"
  from tmr_reset_inv [OF i(1) h(1-3), of now] obtain s' B' where r: "tmr_reset now a s = Some s'" "timers_inv s' B' F"
    "active B' = active B" "same_payload ((heap s)(a \<mapsto> ?x)) (heap s')" "frame_ok s s'" by blast
  have "active B' = insert a (active B)" using r(3) activeI [of h a B] h(1,2) by auto
  moreover have "payload ?x = ?x'" by (simp add: h(4) payload_def)
  ultimately have "scheduled s' B' = m(a \<mapsto> ?x')" using scheduled_upd [OF r(4)] i(2) by metis
  with r show ?thesis by (metis timer_abs_def)
qed

interpretation ts: timer_store "timer_abs :: ('p, 'd, 'z) tmr_scheme \<Rightarrow> (addr \<rightharpoonup> ('p, 'd) timer) \<Rightarrow> bool" tmr_create tmr_cancel tmr_reset clock has_room frame_ok
  by unfold_locales (rule tmr_create_abs tmr_cancel_abs tmr_reset_abs; assumption)+

end
