(* ===== verification/Timers_Run.thy ===== *)
theory Timers_Run
  imports Timers_Spec
begin

text \<open>
  The timeout computation, the run loop and the clean-up of \<open>timers.c\<close>, and the properties of the
  package.
\<close>

section \<open>Milliseconds\<close>

definition normal :: "timeval \<Rightarrow> bool" where
  "normal tv \<longleftrightarrow> 0 \<le> tv_usec tv \<and> tv_usec tv < 1000000"

lemma sdiv_1000: "x sdiv 1000 = (if 0 \<le> x then x div 1000 else - ((- x) div 1000))" for x :: int
  by (auto simp: signed_divide_int_def sgn_if)

lemma sdiv_1000_mono: "x \<le> y \<Longrightarrow> x sdiv 1000 \<le> y sdiv 1000" for x y :: int
  unfolding sdiv_1000 by (auto simp: zdiv_mono1 intro: order_trans [of _ 0])

lemma sdiv_1000_shift: "(x + 1000000) sdiv 1000 \<le> x sdiv 1000 + 1000" for x :: int
  unfolding sdiv_1000 by (auto split: if_splits)

lemma ms_until_mono:
  assumes "tv_le u v" "normal u" "normal v" "normal now"
  shows "ms_until now u \<le> ms_until now v"
proof (cases "tv_sec u < tv_sec v")
  case True
  let ?du = "tv_usec u - tv_usec now" and ?dv = "tv_usec v - tv_usec now"
  have "?du \<le> ?dv + 1000000" using assms(2,3) by (simp add: normal_def)
  from order_trans [OF sdiv_1000_mono [OF this] sdiv_1000_shift]
  have "?du sdiv 1000 \<le> ?dv sdiv 1000 + 1000" .
  moreover have "(tv_sec u - tv_sec now) * 1000 + 1000 \<le> (tv_sec v - tv_sec now) * 1000" using True by simp
  ultimately show ?thesis unfolding ms_until_def by linarith
next
  case False
  then have "tv_sec u = tv_sec v" "tv_usec u \<le> tv_usec v" using assms(1) by (auto simp: tv_le_def)
  then show ?thesis unfolding ms_until_def using sdiv_1000_mono by simp
qed

lemma tv_add_ms_normal: "normal tv \<Longrightarrow> 0 \<le> ms \<Longrightarrow> normal (tv_add_ms tv ms)"
  by (auto simp: normal_def tv_add_ms_def tv_carry_def signed_divide_int_def signed_modulo_int_def sgn_if)

lemma tv_add_ms_value:
  assumes "normal tv" "0 \<le> ms"
  shows "tv_sec (tv_add_ms tv ms) * 1000000 + tv_usec (tv_add_ms tv ms) =
    tv_sec tv * 1000000 + tv_usec tv + ms * 1000"
  using assms
  by (auto simp: normal_def tv_add_ms_def tv_carry_def signed_divide_int_def signed_modulo_int_def sgn_if)
    presburger+

section \<open>The timeout\<close>

abbreviation t_time :: "('p, 'd, 'z) tmr_scheme \<Rightarrow> addr \<Rightarrow> timeval" where
  "t_time s a \<equiv> time (the (heap s a))"

lemma bucket_ptr:
  assumes "links s B F" "h < HASH_SIZE"
  shows "timers s h = (case B h of [] \<Rightarrow> None | a # _ \<Rightarrow> Some a)"
  using links_bucket [OF assms] by (auto simp: bucket_ok_def split: list.splits)

definition head_ms :: "timeval \<Rightarrow> ('p, 'd, 'z) tmr_scheme \<Rightarrow> (nat \<Rightarrow> addr list) \<Rightarrow> nat list \<Rightarrow> int list" where
  "head_ms now s B hs = map (\<lambda>h. ms_until now (t_time s (hd (B h)))) (filter (\<lambda>h. B h \<noteq> []) hs)"

definition min_list_opt :: "int list \<Rightarrow> int option" where
  "min_list_opt xs = (if xs = [] then None else Some (Min (set xs)))"

lemma mstimeout_loop_min:
  assumes "links s B F" "\<forall>h \<in> set hs. h < HASH_SIZE"
  shows "mstimeout_loop now hs (min_list_opt acc) s = Some (min_list_opt (acc @ head_ms now s B hs))"
  using assms(2)
proof (induction hs arbitrary: acc)
  case (Cons h hs)
  then have h: "h < HASH_SIZE" by simp
  show ?case
  proof (cases "B h")
    case Nil
    with Cons bucket_ptr [OF assms(1) h] show ?thesis by (simp add: head_ms_def)
  next
    case (Cons a xs)
    obtain tm where tm: "heap s a = Some tm"
      using links_alloc [OF assms(1), of a] activeI [of h a B] h Cons by auto
    let ?m = "ms_until now (time tm)"
    have "(case min_list_opt acc of None \<Rightarrow> Some ?m | Some k \<Rightarrow> Some (if ?m < k then ?m else k)) =
        min_list_opt (acc @ [?m])"
    proof (cases "acc = []")
      case False
      then have "Min (insert ?m (set acc)) = min ?m (Min (set acc))" by (intro Min_insert) simp_all
      with False show ?thesis
        by (simp add: min_list_opt_def min_def del: Min_le_iff Min_gr_iff Min_ge_iff Min_less_iff)
    qed (simp add: min_list_opt_def)
    with Cons.IH [of "acc @ [?m]"] Cons.prems Cons tm bucket_ptr [OF assms(1) h] show ?thesis
      by (simp add: head_ms_def get_def)
  qed
qed (simp add: head_ms_def)

lemma active_finite [simp]: "finite (active B)"
  by (simp add: active_def)

lemma head_ms_Min:
  assumes "timers_inv s B F" "\<forall>a \<in> active B. normal (t_time s a)" "normal now" "active B \<noteq> {}"
  shows "head_ms now s B [0..<HASH_SIZE] \<noteq> [] \<and>
    Min (set (head_ms now s B [0..<HASH_SIZE])) = Min ((\<lambda>a. ms_until now (t_time s a)) ` active B)"
proof -
  let ?f = "\<lambda>a. ms_until now (t_time s a)"
  have set: "set (head_ms now s B [0..<HASH_SIZE]) = {?f (hd (B h)) | h. h < HASH_SIZE \<and> B h \<noteq> []}"
    by (auto simp: head_ms_def)
  have sub: "set (head_ms now s B [0..<HASH_SIZE]) \<subseteq> ?f ` active B"
  proof -
    have "hd (B h) \<in> active B" if "h < HASH_SIZE" "B h \<noteq> []" for h
      using activeI [of h "hd (B h)" B] that by simp
    then show ?thesis unfolding set by blast
  qed
  have low: "\<exists>y \<in> set (head_ms now s B [0..<HASH_SIZE]). y \<le> ?f a" if a: "a \<in> active B" for a
  proof -
    obtain h where h: "h < HASH_SIZE" "a \<in> set (B h)" using a by (auto simp: active_def)
    then obtain b xs where b: "B h = b # xs" by (cases "B h") auto
    have "a = b \<or> tv_le (t_time s b) (t_time s a)"
      using assms(1) h b by (auto simp: timers_inv_def ordered_def t_le_def)
    moreover have "b \<in> active B" using activeI [of h b B] h b by simp
    ultimately have "?f b \<le> ?f a" using ms_until_mono assms(2,3) a by auto
    moreover have "?f b \<in> set (head_ms now s B [0..<HASH_SIZE])" unfolding set using h(1) b by (metis (mono_tags, lifting) list.discI list.sel(1) mem_Collect_eq)
    ultimately show ?thesis by blast
  qed
  obtain c where "c \<in> active B" using assms(4) by auto
  from low [OF this] have ne: "set (head_ms now s B [0..<HASH_SIZE]) \<noteq> {}" by (elim bexE) (metis empty_iff)
  have "Min (set (head_ms now s B [0..<HASH_SIZE])) = Min (?f ` active B)"
  proof (rule antisym)
    show "Min (set (head_ms now s B [0..<HASH_SIZE])) \<le> Min (?f ` active B)"
    proof (rule Min.boundedI)
      show "Min (set (head_ms now s B [0..<HASH_SIZE])) \<le> y" if y: "y \<in> ?f ` active B" for y
      proof -
        obtain a where "a \<in> active B" "y = ?f a" using y by (elim imageE)
        with low obtain z where "z \<in> set (head_ms now s B [0..<HASH_SIZE])" "z \<le> y" by metis
        then show ?thesis by (meson List.finite_set Min_le order_trans)
      qed
    qed (use assms(4) in simp_all)
    show "Min (?f ` active B) \<le> Min (set (head_ms now s B [0..<HASH_SIZE]))"
      by (rule Min_antimono [OF sub ne]) simp
  qed
  with ne show ?thesis by simp
qed

lemma tmr_mstimeout_eq:
  assumes "timers_inv s B F" "\<forall>a \<in> active B. normal (t_time s a)" "normal now"
  shows "tmr_mstimeout now s =
    Some (if active B = {} then INFTIM else max 0 (Min ((\<lambda>a. ms_until now (t_time s a)) ` active B)))"
proof -
  have l: "links s B F" using assms(1) by (simp add: timers_inv_def)
  have "mstimeout_loop now [0..<HASH_SIZE] None s = Some (min_list_opt (head_ms now s B [0..<HASH_SIZE]))"
    using mstimeout_loop_min [OF l, of "[0..<HASH_SIZE]" now "[]"] by (simp add: min_list_opt_def)
  moreover have "active B = {} \<Longrightarrow> head_ms now s B [0..<HASH_SIZE] = []"
    by (auto simp: head_ms_def active_def filter_empty_conv)
  ultimately show ?thesis
  proof (cases "active B = {}")
    case False
    with head_ms_Min [OF assms] \<open>mstimeout_loop now [0..<HASH_SIZE] None s = _\<close> show ?thesis
      by (simp add: tmr_mstimeout_def min_list_opt_def max_def del: Min_le_iff Min_gr_iff Min_ge_iff Min_less_iff)
  qed (simp add: tmr_mstimeout_def min_list_opt_def)
qed

section \<open>Running the timers\<close>

definition expired :: "('p, 'd, 'z) tmr_scheme \<Rightarrow> timeval \<Rightarrow> addr \<Rightarrow> bool" where
  "expired s now a \<longleftrightarrow> tv_le (t_time s a) now"

lemma expired_payload: "same_payload (heap s) (heap s') \<Longrightarrow> heap s a \<noteq> None \<Longrightarrow> expired s' now a = expired s now a"
  unfolding expired_def by (metis payload_fields the_payload)

lemma timers_inv_same:
  assumes "timers_inv s B F" "heap s' = heap s" "timers s' = timers s" "free_timers s' = free_timers s" "brk s' = brk s"
  shows "timers_inv s' B F"
  using assms by (simp add: timers_inv_def links_def bucket_ok_def ordered_def)

lemma timer_abs_fields:
  assumes "timer_abs s m" "heap s' = heap s" "timers s' = timers s" "free_timers s' = free_timers s" "brk s' = brk s"
  shows "timer_abs s' m"
proof -
  obtain B F where b: "timers_inv s B F" "m = scheduled s B" using assms(1) by (auto simp: timer_abs_def)
  have "timers_inv s' B F" by (rule timers_inv_same [OF b(1) assms(2-5)])
  moreover have "scheduled s' B = scheduled s B" using assms(2) by (simp add: scheduled_def fun_eq_iff)
  ultimately show ?thesis using b(2) by (auto simp: timer_abs_def)
qed

text \<open>A callback that returns, does not touch the timers or the time and adds one event to a trace.\<close>

locale passive_callback =
  fixes call :: "'p \<Rightarrow> 'd \<Rightarrow> ('p, 'd, 'z) tmr_scheme \<Rightarrow> ('p, 'd, 'z) tmr_scheme option"
    and nowP :: "('p, 'd, 'z) tmr_scheme \<Rightarrow> timeval"
    and trace :: "('p, 'd, 'z) tmr_scheme \<Rightarrow> 'e list"
    and event :: "'p \<Rightarrow> 'd \<Rightarrow> 'e"
  assumes call_law: "\<exists>s'. call p d s = Some s' \<and> heap s' = heap s \<and> timers s' = timers s \<and>
      free_timers s' = free_timers s \<and> brk s' = brk s \<and> exit_code s' = exit_code s \<and> nowP s' = nowP s \<and>
      trace s' = trace s @ [event p d]"
    and frame_law: "frame_ok s s' \<Longrightarrow> trace s' = trace s \<and> nowP s' = nowP s"
begin


definition event_of :: "('p, 'd, 'z) tmr_scheme \<Rightarrow> addr \<Rightarrow> 'e" where
  "event_of s a = event (timer_proc (the (heap s a))) (client_data (the (heap s a)))"

lemma event_of_payload: "same_payload (heap s) (heap s') \<Longrightarrow> heap s a \<noteq> None \<Longrightarrow> event_of s' a = event_of s a"
  unfolding event_of_def by (metis payload_fields the_payload)

text \<open>An expired one-shot timer at the head of its list: its event happens and it moves to the free list.\<close>

lemma fire_oneshot:
  assumes "timers_inv s B F" "h < HASH_SIZE" "B h = a # xs" "\<not> periodic (the (heap s a))" "\<not> exited s"
  shows "\<exists>s'. fire call a s = Some s' \<and> \<not> exited s' \<and> nowP s' = nowP s \<and> timers_inv s' (B(h := xs)) (a # F) \<and>
    same_payload (heap s) (heap s') \<and> trace s' = trace s @ [event_of s a]"
proof -
  have "a \<in> active B" using activeI [of h a B] assms(2,3) by simp
  then obtain tm where tm: "heap s a = Some tm" using timers_inv_alloc [OF assms(1)] by blast
  obtain s1 where s1: "call (timer_proc tm) (client_data tm) s = Some s1" "heap s1 = heap s"
    "timers s1 = timers s" "free_timers s1 = free_timers s" "brk s1 = brk s" "exit_code s1 = exit_code s" "nowP s1 = nowP s"
    "trace s1 = trace s @ [event (timer_proc tm) (client_data tm)]"
    using call_law by blast
  have "timers_inv s1 B F" by (rule timers_inv_same [OF assms(1) s1(2-5)])
  from tmr_cancel_inv [OF this assms(2), of a] assms(3) obtain s2 where s2: "tmr_cancel a s1 = Some s2"
    "timers_inv s2 (B(h := xs)) (a # F)" "frame_ok s1 s2" "same_payload (heap s1) (heap s2)" by auto
  have "fire call a s = Some s2" using tm s1(1,2,6) s2(1) assms(4,5) by (simp add: fire_def get_def)
  moreover have "trace s2 = trace s @ [event_of s a]"
    using frame_law [OF s2(3)] s1(8) tm by (simp add: event_of_def)
  moreover have "\<not> exited s2" using s2(3) s1(6) assms(5) by (simp add: frame_ok_def)
  moreover have "nowP s2 = nowP s" using frame_law [OF s2(3)] s1(7) by simp
  ultimately show ?thesis using s2 s1(2) by auto
qed

text \<open>What a run over the list \<open>h\<close> achieves: its expired timers have had their events and are in the free list.\<close>

definition list_ran ::
  "timeval \<Rightarrow> nat \<Rightarrow> ('p, 'd, 'z) tmr_scheme \<Rightarrow> (nat \<Rightarrow> addr list) \<Rightarrow> addr list \<Rightarrow> ('p, 'd, 'z) tmr_scheme \<Rightarrow> bool" where
  "list_ran now h s B F s' \<longleftrightarrow> \<not> exited s' \<and> nowP s' = now \<and>
     timers_inv s' (B(h := filter (\<lambda>a. \<not> expired s now a) (B h))) (rev (filter (expired s now) (B h)) @ F) \<and>
     same_payload (heap s) (heap s') \<and> trace s' = trace s @ map (event_of s) (filter (expired s now) (B h))"

lemma list_ran_first:
  assumes "B h = a # xs" "expired s now a" "same_payload (heap s) (heap s1)" "trace s1 = trace s @ [event_of s a]"
    "\<And>b. b \<in> set xs \<Longrightarrow> heap s b \<noteq> None" "list_ran now h s1 (B(h := xs)) (a # F) s2"
  shows "list_ran now h s B F s2"
proof -
  have e: "filter (expired s1 now) xs = filter (expired s now) xs"
    "filter (\<lambda>a. \<not> expired s1 now a) xs = filter (\<lambda>a. \<not> expired s now a) xs"
    "map (event_of s1) (filter (expired s now) xs) = map (event_of s) (filter (expired s now) xs)"
    using expired_payload [OF assms(3,5)] event_of_payload [OF assms(3,5)] by (auto intro!: filter_cong)
  have "same_payload (heap s) (heap s2)" using same_payload_trans [OF assms(3)] assms(6) by (simp add: list_ran_def)
  with assms(1,2,4,6) show ?thesis by (simp add: list_ran_def e)
qed

lemma run_list_early:
  assumes "timers_inv s B F" "h < HASH_SIZE" "B h = a # xs" "\<not> expired s now a" "\<not> exited s" "nowP s = now" "heap s a = Some tm"
  shows "tmr_run_list call nowP (timers s h) s = Some s \<and> list_ran now h s B F s"
proof -
  have l: "links s B F" and o: "sorted_wrt (t_le (heap s)) (B h)" using assms(1,2) by (simp_all add: timers_inv_def ordered_def)
  have "\<not> expired s now b" if "b \<in> set (B h)" for b
    using that o assms(3,4) tv_le_trans unfolding expired_def t_le_def by (auto simp: expired_def)
  then have f: "filter (expired s now) (B h) = []" "filter (\<lambda>a. \<not> expired s now a) (B h) = B h" by (auto simp: filter_empty_conv)
  have "timers s h = Some a" using bucket_ptr [OF l assms(2)] assms(3) by simp
  then have "tmr_run_list call nowP (timers s h) s = Some s"
    using assms(4,6,7) by (subst tmr_run_list.simps) (simp add: get_def expired_def tv_after_iff)
  with assms(1,5,6) f show ?thesis by (simp add: list_ran_def)
qed

lemma run_list_oneshot:
  assumes "timers_inv s B F" "h < HASH_SIZE" "\<forall>a \<in> set (B h). \<not> periodic (the (heap s a))" "\<not> exited s" "nowP s = now"
  shows "\<exists>s'. tmr_run_list call nowP (timers s h) s = Some s' \<and> list_ran now h s B F s'"
  using assms
proof (induction "B h" arbitrary: s B F)
  case Nil
  have l: "links s B F" using Nil.prems(1) by (simp add: timers_inv_def)
  have "B(h := []) = B" using Nil.hyps by auto
  with Nil bucket_ptr [OF l assms(2)] show ?case by (subst tmr_run_list.simps) (simp add: list_ran_def Nil.hyps [symmetric])
next
  case (Cons a xs)
  note B = Cons.hyps(2) [symmetric]
  have l: "links s B F" using Cons.prems(1) by (simp add: timers_inv_def)
  have al: "heap s b \<noteq> None" if "b \<in> set (B h)" for b
    using timers_inv_alloc [OF Cons.prems(1)] activeI [of h b B] assms(2) that by blast
  obtain tm where tm: "heap s a = Some tm" using al [of a] by (auto simp: B)
  show ?case
  proof (cases "expired s now a")
    case False
    from run_list_early [OF Cons.prems(1) assms(2) B False Cons.prems(4,5) tm] show ?thesis by blast
  next
    case True
    have "\<not> periodic (the (heap s a))" using Cons.prems(3) by (simp add: B)
    from fire_oneshot [OF Cons.prems(1) assms(2) B this Cons.prems(4)] obtain s1 where
      s1: "fire call a s = Some s1" "timers_inv s1 (B(h := xs)) (a # F)" "same_payload (heap s) (heap s1)"
      "trace s1 = trace s @ [event_of s a]" "\<not> exited s1" "nowP s1 = now" using Cons.prems(5) by auto
    have l1: "links s1 (B(h := xs)) (a # F)" using s1(2) by (simp add: timers_inv_def)
    have "next_t tm = (case xs of [] \<Rightarrow> None | b # _ \<Rightarrow> Some b)"
      using links_bucket [OF l assms(2)] tm by (auto simp: bucket_ok_def B split: list.splits)
    then have run: "tmr_run_list call nowP (timers s h) s = tmr_run_list call nowP (timers s1 h) s1"
      using bucket_ptr [OF l assms(2)] tm True s1(1,5) Cons.prems(5) bucket_ptr [OF l1 assms(2)]
      by (subst tmr_run_list.simps) (simp add: B get_def expired_def tv_after_iff)
    have al': "heap s b \<noteq> None" if "b \<in> set xs" for b using al that by (simp add: B)
    have "\<not> periodic (the (heap s1 b))" if "b \<in> set xs" for b
      using payload_fields [OF the_payload [OF s1(3) al' [OF that]]] Cons.prems(3) that by (simp add: B)
    then obtain s2 where s2: "tmr_run_list call nowP (timers s1 h) s1 = Some s2" "list_ran now h s1 (B(h := xs)) (a # F) s2"
      using Cons.hyps(1) [OF _ s1(2) assms(2) _ s1(5,6)] by auto
    from run s2(1) list_ran_first [OF B True s1(3,4) al' s2(2)] show ?thesis by simp
  qed
qed

end

end
