(* ===== verification/Timers_Calls.thy ===== *)
theory Timers_Calls
  imports Timers_Run
begin

text \<open>
  Running the timers when the procedures they call change the rest of the state, and when some timers are periodic:
  \<open>tmr_run\<close> ends and keeps an invariant of the caller, as long as the procedures leave the schedule alone. The argument
  is on the schedule, through the contract of the package; the lists matter only for the saved pointer to the next timer.
\<close>

section \<open>Memory\<close>

text \<open>What the operations leave alone, whatever the state of the lists; only \<open>tmr_create\<close> takes memory.\<close>

definition aside :: "('p, 'd, 'z) tmr_scheme \<Rightarrow> ('p, 'd, 'z) tmr_scheme \<Rightarrow> bool" where
  "aside s s' \<longleftrightarrow> clock s' = clock s \<and> exit_code s' = exit_code s \<and> tmr.more s' = tmr.more s \<and> mem_left s' = mem_left s"

named_theorems timer_aside \<open>what an operation of the package leaves alone\<close>

lemma aside_trans: "aside s s1 \<Longrightarrow> aside s1 s2 \<Longrightarrow> aside s s2"
  by (simp add: aside_def)

lemma upd_aside [timer_aside]: "upd a f s = Some s' \<Longrightarrow> aside s s'"
  by (auto simp: upd_def aside_def split: option.splits)

lemma set_bucket_aside [timer_aside]: "set_bucket h p s = Some s' \<Longrightarrow> aside s s'"
  by (auto simp: set_bucket_def aside_def split: if_splits)

lemma l_remove_aside [timer_aside]: "l_remove t s = Some s' \<Longrightarrow> aside s s'"
  by (auto simp: l_remove_def aside_def Option.bind_eq_Some_conv dest!: timer_aside split: option.splits)

lemma l_add_walk_aside [timer_aside]:
  assumes "l_add_walk t p q s = Some s'"
  shows "aside s s'"
proof (rule l_add_walk.raw_induct [OF _ assms, where P = "\<lambda>t p q s s'. aside s s'"], goal_cases)
  case (1 walk t p q s s')
  then show ?case
    by (auto simp: aside_def Option.bind_eq_Some_conv dest!: timer_aside split: option.splits if_splits)
qed

lemma l_add_aside [timer_aside]: "l_add t s = Some s' \<Longrightarrow> aside s s'"
  by (auto simp: l_add_def aside_def Option.bind_eq_Some_conv dest!: timer_aside split: option.splits if_splits)

lemma l_resort_aside [timer_aside]: "l_resort t s = Some s' \<Longrightarrow> aside s s'"
  by (auto simp: l_resort_def aside_def Option.bind_eq_Some_conv dest!: timer_aside)

lemma tmr_cancel_aside [timer_aside]: "tmr_cancel t s = Some s' \<Longrightarrow> aside s s'"
  by (auto simp: tmr_cancel_def aside_def Option.bind_eq_Some_conv dest!: timer_aside)

lemma tmr_reset_aside [timer_aside]: "tmr_reset tv t s = Some s' \<Longrightarrow> aside s s'"
  by (auto simp: tmr_reset_def aside_def Option.bind_eq_Some_conv dest!: timer_aside)

lemma tmr_create_aside:
  assumes "tmr_create nowP p d k per s = Some (r, s')"
  shows "frame_ok s s'" "mem_left s \<le> mem_left s' + 1"
proof -
  from assms obtain a s1 where a: "tmr_alloc s = Some (a, s1)" by (auto simp: tmr_create_def Option.bind_eq_Some_conv)
  have "aside s1 s'"
    using assms a by (cases a) (auto simp: tmr_create_def aside_def Option.bind_eq_Some_conv dest!: l_add_aside)
  moreover have "frame_ok s s1" "mem_left s \<le> mem_left s1 + 1"
    using a by (auto simp: tmr_alloc_def frame_ok_def Option.bind_eq_Some_conv split: option.splits if_splits)
  ultimately show "frame_ok s s'" "mem_left s \<le> mem_left s' + 1" by (simp_all add: aside_def frame_ok_def)
qed

section \<open>The schedule after a timer has fired\<close>

definition after :: "addr \<Rightarrow> ('p, 'd) timer \<Rightarrow> (addr \<rightharpoonup> ('p, 'd) timer) \<Rightarrow> addr \<rightharpoonup> ('p, 'd) timer" where
  "after a t m =
     (if periodic t
      then m(a \<mapsto> t\<lparr>time := tv_add_ms (time t) (msecs t), hash_of := hash_time (tv_add_ms (time t) (msecs t))\<rparr>)
      else m(a := None))"

lemma after_other: "b \<noteq> a \<Longrightarrow> after a t m b = m b"
  by (simp add: after_def)

lemma dom_after: "m a = Some t \<Longrightarrow> dom (after a t m) \<subseteq> dom m"
  by (auto simp: after_def)

text \<open>What is left to fire: a one-shot timer once, a periodic one at most as often as microseconds pass until \<open>now\<close>.\<close>

definition usecs :: "timeval \<Rightarrow> int" where
  "usecs tv = tv_sec tv * 1000000 + tv_usec tv"

definition weight :: "timeval \<Rightarrow> ('p, 'd) timer \<Rightarrow> nat" where
  "weight now t = (if periodic t then nat ((tv_sec now + 1) * 1000000 - usecs (time t)) else 1)"

definition work :: "timeval \<Rightarrow> (addr \<rightharpoonup> ('p, 'd) timer) \<Rightarrow> nat" where
  "work now m = (\<Sum>a \<in> dom m. weight now (the (m a)))"

definition period_ok :: "('p, 'd) timer \<Rightarrow> bool" where
  "period_ok t \<longleftrightarrow> (periodic t \<longrightarrow> 0 < msecs t \<and> normal (time t))"

lemma work_after:
  assumes "finite (dom m)" "m a = Some t" "tv_le (time t) now" "period_ok t"
  shows "work now (after a t m) < work now m"
proof -
  let ?rest = "\<Sum>b \<in> dom m - {a}. weight now (the (m b))"
  have a: "a \<in> dom m" using assms(2) by blast
  have m: "work now m = weight now t + ?rest"
    unfolding work_def using sum.remove [OF assms(1) a, of "\<lambda>b. weight now (the (m b))"] assms(2) by simp
  show ?thesis
  proof (cases "periodic t")
    case False
    then have "work now (after a t m) = ?rest" by (simp add: work_def after_def)
    with m False show ?thesis by (simp add: weight_def)
  next
    case True
    let ?t = "t\<lparr>time := tv_add_ms (time t) (msecs t), hash_of := hash_time (tv_add_ms (time t) (msecs t))\<rparr>"
    have "dom (after a t m) = dom m" using True a by (auto simp: after_def)
    then have "work now (after a t m) = weight now ?t + ?rest"
      unfolding work_def using sum.remove [OF assms(1) a, of "\<lambda>b. weight now (the (after a t m b))"] True
      by (simp add: after_def)
    moreover have "usecs (time t) < (tv_sec now + 1) * 1000000"
      using assms(3,4) True by (auto simp: period_ok_def usecs_def tv_le_def normal_def)
    moreover have "usecs (tv_add_ms (time t) (msecs t)) = usecs (time t) + msecs t * 1000"
      using tv_add_ms_value [of "time t" "msecs t"] assms(4) True by (simp add: period_ok_def usecs_def)
    ultimately show ?thesis using m True assms(4) by (simp add: weight_def period_ok_def)
  qed
qed

section \<open>Pointers into the lists\<close>

lemma timer_abs_finite: "timer_abs s m \<Longrightarrow> finite (dom m)"
  by (auto simp: timer_abs_def scheduled_def dom_def intro: finite_subset [OF _ active_finite] split: if_splits)

lemma timer_abs_head:
  assumes "timer_abs s m" "h < HASH_SIZE" "timers s h = Some a"
  shows "m a \<noteq> None"
proof -
  obtain B F where i: "timers_inv s B F" "m = scheduled s B" using assms(1) by (auto simp: timer_abs_def)
  then have l: "links s B F" by (simp add: timers_inv_def)
  from bucket_ptr [OF l assms(2)] assms(3) have "a \<in> set (B h)" by (auto split: list.splits)
  then have "a \<in> active B" using activeI assms(2) by blast
  with i timers_inv_alloc [OF i(1)] show ?thesis by (auto simp: scheduled_def)
qed

lemma timer_abs_next:
  assumes "timer_abs s m" "m a = Some t"
  obtains tm where "heap s a = Some tm" "payload tm = t" "\<And>b. next_t tm = Some b \<Longrightarrow> m b \<noteq> None \<and> b \<noteq> a"
proof -
  obtain B F where i: "timers_inv s B F" "m = scheduled s B" using assms(1) by (auto simp: timer_abs_def)
  then have l: "links s B F" by (simp add: timers_inv_def)
  from i assms(2) obtain h tm where h: "h < HASH_SIZE" "a \<in> set (B h)" "heap s a = Some tm" "t = payload tm"
    by (auto elim: scheduled_Some [OF i(1)])
  obtain xs ys where xs: "B h = xs @ a # ys" using split_list [OF h(2)] by blast
  have "dseg (heap s) None (timers s h) (B h) None" "distinct (B h)"
    using links_bucket [OF l h(1)] by (simp_all add: bucket_ok_def)
  then have nx: "dseg (heap s) (Some a) (next_t tm) ys None" "a \<notin> set ys"
    using h(3) by (auto simp: xs dseg_append)
  have "m b \<noteq> None \<and> b \<noteq> a" if "next_t tm = Some b" for b
  proof -
    have "b \<in> set ys" using nx(1) that by (cases ys) auto
    then have "b \<in> active B" "b \<noteq> a" using activeI [of h b B] h(1) nx(2) xs by auto
    with i timers_inv_alloc [OF i(1)] show ?thesis by (auto simp: scheduled_def)
  qed
  with h(3,4) that show ?thesis by blast
qed

section \<open>The run\<close>

locale orderly_calls =
  fixes call :: "'p \<Rightarrow> 'd \<Rightarrow> ('p, 'd, 'z) tmr_scheme \<Rightarrow> ('p, 'd, 'z) tmr_scheme option"
    and nowP :: "('p, 'd, 'z) tmr_scheme \<Rightarrow> timeval"
    and ok :: "('p, 'd, 'z) tmr_scheme \<Rightarrow> (addr \<rightharpoonup> ('p, 'd) timer) \<Rightarrow> bool"
    and fin :: "('p, 'd, 'z) tmr_scheme \<Rightarrow> bool"
  assumes ok_abs: "ok s m \<Longrightarrow> timer_abs s m"
    and ok_period: "ok s m \<Longrightarrow> m a = Some t \<Longrightarrow> period_ok t"
    and frame_now: "frame_ok s s' \<Longrightarrow> nowP s' = nowP s"
    and call_law: "ok s m \<Longrightarrow> m a = Some t \<Longrightarrow> \<not> exited s \<Longrightarrow>
      \<exists>s'. call (timer_proc t) (client_data t) s = Some s' \<and>
        (exited s' \<and> fin s' \<or> \<not> exited s' \<and> timer_abs s' m \<and> nowP s' = nowP s \<and>
          (\<forall>s''. frame_ok s' s'' \<longrightarrow> mem_left s'' = mem_left s' \<longrightarrow> timer_abs s'' (after a t m) \<longrightarrow> ok s'' (after a t m)))"
begin

lemma fire_ok:
  assumes "ok s m" "m a = Some t" "\<not> exited s"
  shows "\<exists>s'. fire call a s = Some s' \<and> (exited s' \<and> fin s' \<or> \<not> exited s' \<and> ok s' (after a t m) \<and> nowP s' = nowP s)"
proof -
  obtain tm where tm: "heap s a = Some tm" "payload tm = t" using timer_abs_next [OF ok_abs [OF assms(1)] assms(2)] by metis
  then have t: "timer_proc tm = timer_proc t" "client_data tm = client_data t" by (auto simp: payload_def)
  obtain s1 where s1: "call (timer_proc t) (client_data t) s = Some s1"
    "exited s1 \<and> fin s1 \<or> \<not> exited s1 \<and> timer_abs s1 m \<and> nowP s1 = nowP s \<and>
      (\<forall>s''. frame_ok s1 s'' \<longrightarrow> mem_left s'' = mem_left s1 \<longrightarrow> timer_abs s'' (after a t m) \<longrightarrow> ok s'' (after a t m))"
    using call_law [OF assms] by blast
  show ?thesis
  proof (cases "exited s1")
    case True
    with tm(1) t s1 show ?thesis by (simp add: fire_def get_def)
  next
    case False
    then have abs1: "timer_abs s1 m" using s1(2) by blast
    obtain tm1 where tm1: "heap s1 a = Some tm1" "payload tm1 = t" using timer_abs_next [OF abs1 assms(2)] by metis
    then have t1: "periodic tm1 = periodic t" "time tm1 = time t" "msecs tm1 = msecs t" by (auto simp: payload_def)
    have "fire call a s = (if periodic t then tmr_reset (time t) a s1 else tmr_cancel a s1)"
      using tm(1) t s1(1) False tm1(1) t1 by (simp add: fire_def get_def tmr_reset_def upd_def)
    moreover have "\<exists>s'. (if periodic t then tmr_reset (time t) a s1 else tmr_cancel a s1) = Some s' \<and> frame_ok s1 s' \<and>
        timer_abs s' (after a t m)"
      using ts.reset_law [OF abs1 assms(2), of "time t"] ts.cancel_law [OF abs1, of a] assms(2) by (simp add: after_def)
    ultimately obtain s2 where s2: "fire call a s = Some s2" "frame_ok s1 s2" "timer_abs s2 (after a t m)"
      "(if periodic t then tmr_reset (time t) a s1 else tmr_cancel a s1) = Some s2" by auto
    have "mem_left s2 = mem_left s1" using s2(4) by (auto simp: aside_def dest!: timer_aside split: if_splits)
    moreover have "\<not> exited s2" using s2(2) False by (simp add: frame_ok_def)
    ultimately show ?thesis using s1(2) s2 False frame_now [OF s2(2)] by auto
  qed
qed

definition ran_ok :: "('p, 'd, 'z) tmr_scheme \<Rightarrow> (addr \<rightharpoonup> ('p, 'd) timer) \<Rightarrow> ('p, 'd, 'z) tmr_scheme \<Rightarrow> bool" where
  "ran_ok s m s' \<longleftrightarrow> exited s' \<and> fin s' \<or>
     \<not> exited s' \<and> (\<exists>m'. ok s' m' \<and> nowP s' = nowP s \<and> dom m' \<subseteq> dom m \<and>
        (\<forall>a t. m a = Some t \<longrightarrow> \<not> tv_le (time t) (nowP s) \<longrightarrow> m' a = Some t))"

lemma ran_ok_refl: "ok s m \<Longrightarrow> \<not> exited s \<Longrightarrow> ran_ok s m s"
  by (auto simp: ran_ok_def)

lemma run_list_ok:
  assumes "ok s m" "\<not> exited s" "\<And>a. p = Some a \<Longrightarrow> m a \<noteq> None"
  shows "\<exists>s'. tmr_run_list call nowP p s = Some s' \<and> ran_ok s m s'"
  using assms
proof (induction "work (nowP s) m" arbitrary: s m p rule: less_induct)
  case less
  show ?case
  proof (cases p)
    case None
    with ran_ok_refl [OF less.prems(1,2)] show ?thesis by (subst tmr_run_list.simps) simp
  next
    case (Some a)
    then obtain t where t: "m a = Some t" using less.prems(3) by blast
    note ab = ok_abs [OF less.prems(1)]
    obtain tm where tm: "heap s a = Some tm" "payload tm = t" "\<And>b. next_t tm = Some b \<Longrightarrow> m b \<noteq> None \<and> b \<noteq> a"
      using timer_abs_next [OF ab t] by metis
    have time: "time tm = time t" using tm(2) by (auto simp: payload_def)
    show ?thesis
    proof (cases "tv_le (time t) (nowP s)")
      case False
      with Some tm(1) time ran_ok_refl [OF less.prems(1,2)] show ?thesis
        by (subst tmr_run_list.simps) (simp add: get_def tv_after_iff)
    next
      case True
      obtain s1 where s1: "fire call a s = Some s1" "exited s1 \<and> fin s1 \<or> \<not> exited s1 \<and> ok s1 (after a t m) \<and> nowP s1 = nowP s"
        using fire_ok [OF less.prems(1) t less.prems(2)] by blast
      have run: "tmr_run_list call nowP p s = (if exited s1 then Some s1 else tmr_run_list call nowP (next_t tm) s1)"
        using Some tm(1) time True s1(1) by (subst tmr_run_list.simps) (simp add: get_def tv_after_iff)
      show ?thesis
      proof (cases "exited s1")
        case True
        with run s1(2) show ?thesis by (simp add: ran_ok_def)
      next
        case False
        with s1(2) have ok1: "ok s1 (after a t m)" "nowP s1 = nowP s" by simp_all
        have "work (nowP s1) (after a t m) < work (nowP s) m"
          unfolding ok1(2) by (rule work_after [OF timer_abs_finite [OF ab] t True ok_period [OF less.prems(1) t]])
        moreover have "after a t m b \<noteq> None" if "next_t tm = Some b" for b using tm(3) [OF that] by (simp add: after_other)
        ultimately obtain s2 where s2: "tmr_run_list call nowP (next_t tm) s1 = Some s2" "ran_ok s1 (after a t m) s2"
          using less.hyps [OF _ ok1(1) False] by blast
        have "after a t m b = Some u" if "m b = Some u" "\<not> tv_le (time u) (nowP s)" for b u
          using that t True after_other [of b a t m] by (cases "b = a") auto
        then have "ran_ok s m s2" using s2(2) ok1(2) dom_after [where m = m, OF t] unfolding ran_ok_def by (metis subset_trans)
        with run False s2(1) show ?thesis by simp
      qed
    qed
  qed
qed

lemma run_from_ok:
  assumes "ok s m" "\<not> exited s" "\<forall>h \<in> set hs. h < HASH_SIZE"
  shows "\<exists>s'. tmr_run_from call nowP hs s = Some s' \<and> ran_ok s m s'"
  using assms
proof (induction hs arbitrary: s m)
  case (Cons h hs)
  have "m a \<noteq> None" if "timers s h = Some a" for a
    using timer_abs_head [OF ok_abs [OF Cons.prems(1)] _ that] Cons.prems(3) by simp
  from run_list_ok [OF Cons.prems(1,2) this] obtain s1 where
    s1: "tmr_run_list call nowP (timers s h) s = Some s1" "ran_ok s m s1" by blast
  show ?case
  proof (cases "exited s1")
    case True
    with s1 show ?thesis by simp
  next
    case False
    then obtain m1 where m1: "ok s1 m1" "nowP s1 = nowP s" "dom m1 \<subseteq> dom m"
      "\<forall>a t. m a = Some t \<longrightarrow> \<not> tv_le (time t) (nowP s) \<longrightarrow> m1 a = Some t" using s1(2) by (auto simp: ran_ok_def)
    with Cons.IH [OF m1(1) False] Cons.prems(3) obtain s2 where
      s2: "tmr_run_from call nowP hs s1 = Some s2" "ran_ok s1 m1 s2" by auto
    have "ran_ok s m s2" using s2(2) m1 unfolding ran_ok_def by (metis subset_trans)
    with s1(1) s2(1) False show ?thesis by simp
  qed
qed (simp add: ran_ok_refl)

lemma run_ok:
  assumes "ok s m" "\<not> exited s"
  shows "\<exists>s'. tmr_run call nowP s = Some s' \<and> ran_ok s m s'"
  unfolding tmr_run_def by (rule run_from_ok [OF assms]) simp

end

end
