(* ===== verification/Timers_Props.thy ===== *)
theory Timers_Props
  imports Timers_Calls
begin

text \<open>
  The properties of the timer package: the contract of creating, cancelling and resetting, the
  timeout, running the expired timers, a periodic timer, a callback that cancels the next timer, and
  the release of all memory.
\<close>

section \<open>All lists\<close>

definition due :: "('p, 'd, 'z) tmr_scheme \<Rightarrow> timeval \<Rightarrow> (nat \<Rightarrow> addr list) \<Rightarrow> nat list \<Rightarrow> addr list" where
  "due s now B hs = concat (map (\<lambda>h. filter (expired s now) (B h)) hs)"

definition waiting :: "('p, 'd, 'z) tmr_scheme \<Rightarrow> timeval \<Rightarrow> (nat \<Rightarrow> addr list) \<Rightarrow> nat list \<Rightarrow> nat \<Rightarrow> addr list" where
  "waiting s now B hs = (\<lambda>h. if h \<in> set hs then filter (\<lambda>a. \<not> expired s now a) (B h) else B h)"

lemma due_cong:
  assumes "\<forall>h \<in> set hs. B' h = B h \<and> (\<forall>a \<in> set (B h). expired s' now a = expired s now a)"
  shows "due s' now B' hs = due s now B hs"
  using assms unfolding due_def by (intro arg_cong [where f = concat] map_cong refl) (auto intro: filter_cong)

lemma waiting_step:
  assumes "h \<notin> set hs" "\<forall>g \<in> set hs. \<forall>a \<in> set (B g). expired s' now a = expired s now a"
  shows "waiting s' now (B(h := filter (\<lambda>a. \<not> expired s now a) (B h))) hs = waiting s now B (h # hs)"
  using assms by (auto simp: waiting_def fun_eq_iff intro: filter_cong)

lemma active_waiting:
  "active (waiting s now B [0..<HASH_SIZE]) = active B - {a. expired s now a}"
  by (auto simp: active_def waiting_def)

lemma set_due: "set (due s now B [0..<HASH_SIZE]) = {a \<in> active B. expired s now a}"
  by (auto simp: active_def due_def)

context passive_callback
begin

lemma run_from_oneshot:
  assumes "timers_inv s B F" "distinct hs" "\<forall>h \<in> set hs. h < HASH_SIZE"
    "\<forall>h \<in> set hs. \<forall>a \<in> set (B h). \<not> periodic (the (heap s a))" "\<not> exited s" "nowP s = now"
  shows "\<exists>s'. tmr_run_from call nowP hs s = Some s' \<and> \<not> exited s' \<and> nowP s' = now \<and>
    timers_inv s' (waiting s now B hs) (rev (due s now B hs) @ F) \<and>
    same_payload (heap s) (heap s') \<and> trace s' = trace s @ map (event_of s) (due s now B hs)"
  using assms
proof (induction hs arbitrary: s B F)
  case Nil
  then show ?case by (simp add: waiting_def due_def)
next
  case (Cons h hs)
  have h: "h < HASH_SIZE" "h \<notin> set hs" using Cons.prems(2,3) by simp_all
  let ?B = "B(h := filter (\<lambda>a. \<not> expired s now a) (B h))" and ?F = "rev (filter (expired s now) (B h)) @ F"
  from Cons.prems(4) have "\<forall>a \<in> set (B h). \<not> periodic (the (heap s a))" by simp
  from run_list_oneshot [OF Cons.prems(1) h(1) this Cons.prems(5,6)] obtain s1 where s1:
    "tmr_run_list call nowP (timers s h) s = Some s1" "timers_inv s1 ?B ?F" "same_payload (heap s) (heap s1)"
    "trace s1 = trace s @ map (event_of s) (filter (expired s now) (B h))" "\<not> exited s1" "nowP s1 = now"
    unfolding list_ran_def by (elim exE conjE)
  have al: "heap s a \<noteq> None" if "g \<in> set hs" "a \<in> set (B g)" for g a
    using timers_inv_alloc [OF Cons.prems(1)] activeI [of g a B] Cons.prems(3) that by auto
  have ex: "\<forall>g \<in> set hs. \<forall>a \<in> set (B g). expired s1 now a = expired s now a"
    using expired_payload [OF s1(3) al] by blast
  have per: "\<forall>g \<in> set hs. \<forall>a \<in> set (?B g). \<not> periodic (the (heap s1 a))"
  proof (intro ballI)
    fix g a assume g: "g \<in> set hs" "a \<in> set (?B g)"
    then have "a \<in> set (B g)" using h(2) by (auto split: if_splits)
    then show "\<not> periodic (the (heap s1 a))"
      using payload_fields [OF the_payload [OF s1(3) al [OF g(1)]]] Cons.prems(4) g(1) by simp
  qed
  have hs: "distinct hs" "\<forall>h \<in> set hs. h < HASH_SIZE" using Cons.prems(2,3) by simp_all
  from Cons.IH [OF s1(2) hs per s1(5,6)] obtain s2 where s2: "tmr_run_from call nowP hs s1 = Some s2"
    "timers_inv s2 (waiting s1 now ?B hs) (rev (due s1 now ?B hs) @ ?F)" "same_payload (heap s1) (heap s2)"
    "trace s2 = trace s1 @ map (event_of s1) (due s1 now ?B hs)" "\<not> exited s2" "nowP s2 = now" by (elim exE conjE)
  have d: "due s1 now ?B hs = due s now B hs" by (rule due_cong) (use ex h(2) in auto)
  have e: "map (event_of s1) (due s now B hs) = map (event_of s) (due s now B hs)"
    using event_of_payload [OF s1(3) al] by (auto simp: due_def)
  have dh: "due s now B (h # hs) = filter (expired s now) (B h) @ due s now B hs" by (simp add: due_def)
  show ?case
  proof (intro exI [of _ s2] conjI)
    show "tmr_run_from call nowP (h # hs) s = Some s2" using s1(1,5) s2(1) by simp
    show "\<not> exited s2" "nowP s2 = now" by (rule s2(5,6))+
    show "timers_inv s2 (waiting s now B (h # hs)) (rev (due s now B (h # hs)) @ F)"
      using s2(2) unfolding d dh waiting_step [OF h(2) ex] by simp
    show "trace s2 = trace s @ map (event_of s) (due s now B (h # hs))"
      using s2(4) s1(4) unfolding d e dh by simp
  qed (rule same_payload_trans [OF s1(3) s2(3)])
qed

lemma run_oneshot:
  assumes "timers_inv s B F" "\<forall>a \<in> active B. \<not> periodic (the (heap s a))" "\<not> exited s" "nowP s = now"
  shows "\<exists>s'. tmr_run call nowP s = Some s' \<and> \<not> exited s' \<and> nowP s' = now \<and>
    timers_inv s' (waiting s now B [0..<HASH_SIZE]) (rev (due s now B [0..<HASH_SIZE]) @ F) \<and>
    same_payload (heap s) (heap s') \<and> trace s' = trace s @ map (event_of s) (due s now B [0..<HASH_SIZE])"
  unfolding tmr_run_def by (rule run_from_oneshot [OF assms(1)]) (use assms(2-4) activeI in auto)

end

section \<open>Release\<close>

lemma cancel_bucket_inv:
  assumes "timers_inv s B F" "h < HASH_SIZE"
  shows "\<exists>s'. cancel_bucket h s = Some s' \<and> timers_inv s' (B(h := [])) (rev (B h) @ F) \<and>
    frame_ok s s' \<and> same_payload (heap s) (heap s')"
  using assms
proof (induction "B h" arbitrary: s B F)
  case Nil
  have l: "links s B F" using Nil.prems(1) by (simp add: timers_inv_def)
  have "B(h := []) = B" using Nil.hyps by auto
  with Nil bucket_ptr [OF l assms(2)] show ?case
    by (subst cancel_bucket.simps) (simp add: Nil.hyps [symmetric] frame_ok_def)
next
  case (Cons a xs)
  have l: "links s B F" using Cons.prems(1) by (simp add: timers_inv_def)
  have ptr: "timers s h = Some a" using bucket_ptr [OF l assms(2)] by (simp add: Cons.hyps(2) [symmetric])
  have "a \<in> set (B h)" by (simp add: Cons.hyps(2) [symmetric])
  from tmr_cancel_inv [OF Cons.prems(1) assms(2) this] obtain s1 where s1: "tmr_cancel a s = Some s1"
    "timers_inv s1 (B(h := xs)) (a # F)" "frame_ok s s1" "same_payload (heap s) (heap s1)"
    by (auto simp: Cons.hyps(2) [symmetric])
  have bh: "(B(h := xs)) h = xs" by simp
  from Cons.hyps(1) [OF bh [symmetric] s1(2) assms(2), unfolded bh] obtain s2 where s2: "cancel_bucket h s1 = Some s2"
    "timers_inv s2 (B(h := xs, h := [])) (rev xs @ a # F)" "frame_ok s1 s2" "same_payload (heap s1) (heap s2)"
    by (elim exE conjE)
  have "cancel_bucket h s = Some s2" using ptr s1(1) s2(1) by (subst cancel_bucket.simps) simp
  moreover have "timers_inv s2 (B(h := [])) (rev (B h) @ F)" using s2(2) by (simp add: Cons.hyps(2) [symmetric])
  moreover have "frame_ok s s2" using s1(3) s2(3) by (simp add: frame_ok_def)
  ultimately show ?case using same_payload_trans [OF s1(4) s2(4)] by blast
qed

lemma cancel_buckets_inv:
  assumes "timers_inv s B F" "\<forall>h \<in> set hs. h < HASH_SIZE"
  shows "\<exists>s' F'. cancel_buckets hs s = Some s' \<and> timers_inv s' (\<lambda>h. if h \<in> set hs then [] else B h) F' \<and>
    set F' = set F \<union> (\<Union>h \<in> set hs. set (B h)) \<and> frame_ok s s' \<and> same_payload (heap s) (heap s')"
  using assms
proof (induction hs arbitrary: s B F)
  case Nil
  then show ?case by (auto simp: frame_ok_def)
next
  case (Cons h hs)
  then have h: "h < HASH_SIZE" "\<forall>h \<in> set hs. h < HASH_SIZE" by simp_all
  from cancel_bucket_inv [OF Cons.prems(1) h(1)] obtain s1 where s1: "cancel_bucket h s = Some s1"
    "timers_inv s1 (B(h := [])) (rev (B h) @ F)" "frame_ok s s1" "same_payload (heap s) (heap s1)" by (elim exE conjE)
  from Cons.IH [OF s1(2) h(2)] obtain s2 F2 where s2: "cancel_buckets hs s1 = Some s2"
    "timers_inv s2 (\<lambda>g. if g \<in> set hs then [] else (B(h := [])) g) F2"
    "set F2 = set (rev (B h) @ F) \<union> (\<Union>g \<in> set hs. set ((B(h := [])) g))" "frame_ok s1 s2"
    "same_payload (heap s1) (heap s2)" by (elim exE conjE)
  have "(\<lambda>g. if g \<in> set hs then [] else (B(h := [])) g) = (\<lambda>g. if g \<in> set (h # hs) then [] else B g)" by auto
  moreover have "set F2 = set F \<union> (\<Union>g \<in> set (h # hs). set (B g))" using s2(3) by (auto split: if_splits)
  moreover have "cancel_buckets (h # hs) s = Some s2" using s1(1) s2(1) by simp
  moreover have "frame_ok s s2" using s1(3) s2(4) by (simp add: frame_ok_def)
  ultimately show ?case using s2(2) same_payload_trans [OF s1(4) s2(5)] by (intro exI [of _ s2] exI [of _ F2]) simp
qed

lemma tmr_cleanup_frees:
  assumes "sseg (heap s) (free_timers s) F" "distinct F"
  shows "tmr_cleanup s = Some (s\<lparr>free_timers := None, heap := heap s |` (- set F)\<rparr>)"
  using assms
proof (induction F arbitrary: s)
  case Nil
  then show ?case by (subst tmr_cleanup.simps, cases s) (simp add: restrict_map_def)
next
  case (Cons a F)
  then obtain tm where tm: "free_timers s = Some a" "heap s a = Some tm" "sseg (heap s) (next_t tm) F" by auto
  let ?s = "s\<lparr>free_timers := next_t tm, heap := (heap s)(a := None)\<rparr>"
  have "sseg (heap ?s) (free_timers ?s) F" using tm(3) Cons.prems(2) sseg_cong [of F "heap ?s" "heap s"] by simp
  moreover have "distinct F" using Cons.prems(2) by simp
  ultimately have "tmr_cleanup ?s = Some (?s\<lparr>free_timers := None, heap := heap ?s |` (- set F)\<rparr>)" by (rule Cons.IH)
  moreover have "tmr_cleanup s = tmr_cleanup ?s" using tm(1,2) by (subst tmr_cleanup.simps) (simp add: get_def)
  moreover have eq: "heap ?s |` (- set F) = heap s |` (- set (a # F))" by (auto simp: restrict_map_def)
  have "?s\<lparr>free_timers := None, heap := heap ?s |` (- set F)\<rparr> =
      s\<lparr>free_timers := None, heap := heap s |` (- set (a # F))\<rparr>" unfolding eq by simp
  ultimately show ?case by (simp only:)
qed

lemma destroy_frees:
  assumes "timers_inv s B F"
  shows "\<exists>s'. tmr_destroy s = Some s' \<and> (\<forall>h < HASH_SIZE. timers s' h = None) \<and> free_timers s' = None \<and>
    frame_ok s s' \<and> dom (heap s') = dom (heap s) - active B - set F"
proof -
  from cancel_buckets_inv [OF assms, of "[0..<HASH_SIZE]"] obtain s1 F1 where s1:
    "cancel_buckets [0..<HASH_SIZE] s = Some s1" "timers_inv s1 (\<lambda>h. if h \<in> set [0..<HASH_SIZE] then [] else B h) F1"
    "set F1 = set F \<union> (\<Union>h \<in> set [0..<HASH_SIZE]. set (B h))" "frame_ok s s1" "same_payload (heap s) (heap s1)"
    by auto
  let ?B = "\<lambda>h. if h \<in> set [0..<HASH_SIZE] then [] else B h"
  let ?s = "s1\<lparr>free_timers := None, heap := heap s1 |` (- set F1)\<rparr>"
  have l: "links s1 ?B F1" using s1(2) by (simp add: timers_inv_def)
  have "sseg (heap s1) (free_timers s1) F1" "distinct F1" using l by (simp_all add: links_def)
  from tmr_cleanup_frees [OF this] s1(1) have "tmr_destroy s = Some ?s" by (simp add: tmr_destroy_def)
  moreover have "timers s1 h = None" if "h < HASH_SIZE" for h using bucket_ptr [OF l that] that by simp
  moreover have "dom (heap ?s) = dom (heap s) - active B - set F"
  proof -
    have "dom (heap s1) = dom (heap s)" using same_payload_None [OF s1(5)] by (auto simp: dom_def)
    moreover have "set F1 = set F \<union> active B" using s1(3) by (simp add: active_def atLeast0LessThan)
    ultimately show ?thesis by auto
  qed
  moreover have "frame_ok s ?s" using s1(4) by (simp add: frame_ok_def)
  ultimately show ?thesis by (intro exI [of _ ?s]) simp
qed

section \<open>An observed run\<close>

text \<open>The package with a log of the callbacks it made.\<close>

record ('p, 'd) logged = "('p, 'd) tmr" +
  log :: "('p \<times> 'd) list"

definition log_call :: "'p \<Rightarrow> 'd \<Rightarrow> ('p, 'd, 'z) logged_scheme \<Rightarrow> ('p, 'd, 'z) logged_scheme option" where
  "log_call p d s = Some (s\<lparr>log := log s @ [(p, d)]\<rparr>)"

interpretation lc: passive_callback "log_call :: 'p \<Rightarrow> 'd \<Rightarrow> ('p, 'd, 'z) logged_scheme \<Rightarrow> ('p, 'd, 'z) logged_scheme option"
  clock log Pair
proof unfold_locales
  fix s s' :: "('p, 'd, 'z) logged_scheme"
  assume "frame_ok s s'"
  then show "log s' = log s \<and> clock s' = clock s" by (cases s, cases s') (simp add: frame_ok_def)
qed (simp add: log_call_def)

text \<open>The same callback, under the contract for runs with periodic timers.\<close>

lemma period_ok_after: "m a = Some t \<Longrightarrow> \<forall>u \<in> ran m. period_ok u \<Longrightarrow> \<forall>u \<in> ran (after a t m). period_ok u"
  using tv_add_ms_normal by (fastforce simp: after_def ran_def period_ok_def split: if_splits)

interpretation lo: orderly_calls "log_call :: 'p \<Rightarrow> 'd \<Rightarrow> ('p, 'd, 'z) logged_scheme \<Rightarrow> ('p, 'd, 'z) logged_scheme option"
  clock "\<lambda>s m. timer_abs s m \<and> (\<forall>t \<in> ran m. period_ok t)" "\<lambda>_. False"
proof unfold_locales
  fix s :: "('p, 'd, 'z) logged_scheme" and m a t
  assume o: "timer_abs s m \<and> (\<forall>t \<in> ran m. period_ok t)" "m a = Some t"
  then show "period_ok t" by (auto simp: ran_def)
  let ?s = "s\<lparr>log := log s @ [(timer_proc t, client_data t)]\<rparr>"
  have "timer_abs ?s m" using o(1) by (auto intro: timer_abs_fields)
  moreover assume "\<not> exited s"
  ultimately show "\<exists>s'. log_call (timer_proc t) (client_data t) s = Some s' \<and>
      (exited s' \<and> False \<or> \<not> exited s' \<and> timer_abs s' m \<and> clock s' = clock s \<and>
        (\<forall>s''. frame_ok s' s'' \<longrightarrow> mem_left s'' = mem_left s' \<longrightarrow> timer_abs s'' (after a t m) \<longrightarrow>
          timer_abs s'' (after a t m) \<and> (\<forall>t \<in> ran (after a t m). period_ok t)))"
    using o(1) period_ok_after [where m = m, OF o(2)] by (simp add: log_call_def)
qed (auto simp: frame_ok_def)

definition idle_state :: "nat \<Rightarrow> ('p, 'd) logged" where
  "idle_state m = \<lparr>heap = Map.empty, timers = (\<lambda>_. None), free_timers = None, brk = 0, mem_left = m,
     clock = \<lparr>tv_sec = 0, tv_usec = 0\<rparr>, exit_code = None, log = []\<rparr>"

lemma idle_inv: "timers_inv (idle_state m) (\<lambda>_. []) []"
  by (simp add: timers_inv_def links_def ordered_def bucket_ok_def idle_state_def)

lemma idle_active [simp]: "active (\<lambda>_. []) = {}"
  by (simp add: active_def)

text \<open>One timer in an idle package.\<close>

definition one_timer :: "('p, 'd) timer \<Rightarrow> ('p, 'd) logged" where
  "one_timer t = (idle_state 1)\<lparr>heap := [0 \<mapsto> t\<lparr>prev := None, next_t := None, hash_of := hash t\<rparr>],
     timers := (\<lambda>_. None)(hash t \<mapsto> 0), brk := 1\<rparr>"

lemma one_timer_inv: "timers_inv (one_timer t) ((\<lambda>_. [])(hash t := [0])) []"
  by (simp add: timers_inv_def links_def ordered_def bucket_ok_def one_timer_def idle_state_def hash_def)

lemma one_timer_active: "active ((\<lambda>_. [])(hash t := [0])) = {0}"
  by (auto simp: active_def hash_def hash_time_bound)

lemma one_timer_heap: "heap (one_timer t) 0 = Some (t\<lparr>prev := None, next_t := None, hash_of := hash t\<rparr>)"
  by (simp add: one_timer_def)

lemma distinct_single: "set xs = {a} \<Longrightarrow> distinct xs \<Longrightarrow> xs = [a]"
  by (cases xs; cases "tl xs") auto

lemma one_timer_runs: "\<not> exited (one_timer t)"
  by (simp add: one_timer_def idle_state_def)

lemma one_timer_abs0: "timer_abs (one_timer t) [0 \<mapsto> payload (the (heap (one_timer t) 0))]"
proof -
  have "scheduled (one_timer t) ((\<lambda>_. [])(hash t := [0])) = [0 \<mapsto> payload (the (heap (one_timer t) 0))]"
    unfolding scheduled_def one_timer_active by (auto simp: one_timer_heap)
  with one_timer_inv [of t] show ?thesis unfolding timer_abs_def by metis
qed

section \<open>Properties\<close>

text \<open>C9: The lists, the hash table and the free list together implement a finite map from timers to
  what was scheduled: \<open>tmr_create\<close> adds an entry for a timer not in use with the trigger time after
  the given (or the present) time, or returns NULL and changes nothing; \<open>tmr_cancel\<close> removes the entry;
  \<open>tmr_reset\<close> moves its trigger time. None of them touches an invalid pointer.\<close>
theorem timers_refine_map:
  fixes s :: "('p, 'd, 'z) tmr_scheme"
  assumes "timer_abs s m"
  shows "(\<exists>r s'. tmr_create nowP proc data ms per s = Some (r, s') \<and>
        (case r of None \<Rightarrow> timer_abs s' m
         | Some a \<Rightarrow> m a = None \<and>
             timer_abs s' (m(a \<mapsto> new_timer proc data ms per (case nowP of Some n \<Rightarrow> n | None \<Rightarrow> clock s))))) \<and>
    (m a \<noteq> None \<longrightarrow> (\<exists>s'. tmr_cancel a s = Some s' \<and> timer_abs s' (m(a := None)))) \<and>
    (\<forall>t. m a = Some t \<longrightarrow> (\<exists>s'. tmr_reset now a s = Some s' \<and>
        timer_abs s' (m(a \<mapsto> t\<lparr>time := tv_add_ms now (msecs t), hash_of := hash_time (tv_add_ms now (msecs t))\<rparr>))))"
  using ts.create_law [OF assms] ts.cancel_law [OF assms] ts.reset_law [OF assms] by blast

theorem timers_refine_map_witness:
  "\<exists>s'. tmr_cancel 0 (one_timer (new_timer 1 2 500 False \<lparr>tv_sec = 7, tv_usec = 0\<rparr>) :: (nat, nat) logged) = Some s' \<and>
     timer_abs s' Map.empty"
proof -
  define t :: "(nat, nat) timer" where "t = new_timer 1 2 500 False \<lparr>tv_sec = 7, tv_usec = 0\<rparr>"
  from timers_refine_map [OF one_timer_abs0 [of t], of None 0 0 0 False 0] show ?thesis
    by (simp add: t_def)
qed

text \<open>C26: The timeout that the main loop passes to its wait is the number of milliseconds to the earliest
  scheduled timer, zero when that time has passed, and infinite exactly when nothing is scheduled:
  looking at the head of every list is enough.\<close>
theorem timeout_is_earliest:
  fixes s :: "('p, 'd, 'z) tmr_scheme"
  assumes "timers_inv s B F" "\<forall>a \<in> active B. normal (time (the (heap s a)))" "normal now"
  shows "tmr_mstimeout now s =
    Some (if active B = {} then INFTIM
          else max 0 (Min ((\<lambda>a. ms_until now (time (the (heap s a)))) ` active B)))"
  by (rule tmr_mstimeout_eq [OF assms])

theorem timeout_is_earliest_witness:
  "tmr_mstimeout \<lparr>tv_sec = 7, tv_usec = 900000\<rparr> (one_timer (new_timer 1 2 2500 False \<lparr>tv_sec = 7, tv_usec = 0\<rparr>) :: (nat, nat) logged) = Some 1600"
proof -
  define t :: "(nat, nat) timer" where "t = new_timer 1 2 2500 False \<lparr>tv_sec = 7, tv_usec = 0\<rparr>"
  have tm: "time t = \<lparr>tv_sec = 9, tv_usec = 500000\<rparr>" by (simp add: t_def new_timer_def tv_add_ms_def tv_carry_def)
  show ?thesis
    using timeout_is_earliest [OF one_timer_inv [of t], of "\<lparr>tv_sec = 7, tv_usec = 900000\<rparr>"]
    unfolding one_timer_active t_def [symmetric]
    by (simp add: one_timer_heap tm normal_def ms_until_def)
qed



text \<open>A periodic timer that fires is not released: it stays scheduled with all its data, and its trigger
  time moves on by exactly its period, counted from the last trigger time and not from the time of the
  run, so that periodic timers do not drift.\<close>
theorem periodic_reschedules:
  fixes s :: "('p, 'd, 'z) logged_scheme"
  assumes "timers_inv s B F" "a \<in> active B" "heap s a = Some tm" "periodic tm" "\<not> exited s"
    "normal (time tm)" "0 \<le> msecs tm"
  shows "\<exists>s' B' tm'. fire log_call a s = Some s' \<and> timers_inv s' B' F \<and> active B' = active B \<and>
    log s' = log s @ [(timer_proc tm, client_data tm)] \<and> scheduled s' B' = (scheduled s B)(a \<mapsto> tm') \<and>
    timer_proc tm' = timer_proc tm \<and> client_data tm' = client_data tm \<and> msecs tm' = msecs tm \<and> periodic tm' \<and>
    tv_sec (time tm') * 1000000 + tv_usec (time tm') = tv_sec (time tm) * 1000000 + tv_usec (time tm) + msecs tm * 1000"
proof -
  obtain h where h: "h < HASH_SIZE" "a \<in> set (B h)" using assms(2) by (auto simp: active_def)
  let ?s = "s\<lparr>log := log s @ [(timer_proc tm, client_data tm)]\<rparr>"
  let ?x = "tm\<lparr>time := tv_add_ms (time tm) (msecs tm), hash_of := hash_time (tv_add_ms (time tm) (msecs tm))\<rparr>"
  have i: "timers_inv ?s B F" by (rule timers_inv_same [OF assms(1)]) simp_all
  have x: "heap ?s a = Some tm" using assms(3) by simp
  from tmr_reset_inv [OF i h x, of "time tm"] obtain s' B' where r: "tmr_reset (time tm) a ?s = Some s'"
    "timers_inv s' B' F" "active B' = active B" "frame_ok ?s s'" "same_payload ((heap s)(a \<mapsto> ?x)) (heap s')"
    by auto
  have "fire log_call a s = tmr_reset (time tm) a ?s"
    using assms(3-5) by (simp add: fire_def log_call_def get_def tmr_reset_def upd_def)
  moreover have "active B' = insert a (active B)" using r(3) assms(2) by auto
  from scheduled_upd [OF r(5) this refl] have "scheduled s' B' = (scheduled s B)(a \<mapsto> payload ?x)" .
  moreover have "log s' = log ?s" by (rule conjunct1 [OF lc.frame_law [OF r(4)]])
  ultimately show ?thesis using r tv_add_ms_value [OF assms(6,7)] assms(4)
    by (intro exI [of _ s'] exI [of _ B'] exI [of _ "payload ?x"]) (simp add: payload_def)
qed

theorem periodic_reschedules_witness:
  "\<exists>s' B' tm'. fire log_call 0
     (one_timer (new_timer 1 2 2500 True \<lparr>tv_sec = 7, tv_usec = 0\<rparr>) :: (nat, nat) logged) = Some s' \<and>
     log s' = [(1, 2)] \<and> scheduled s' B' 0 = Some tm' \<and> tv_sec (time tm') * 1000000 + tv_usec (time tm') = 12000000"
proof -
  define t :: "(nat, nat) timer" where "t = new_timer 1 2 2500 True \<lparr>tv_sec = 7, tv_usec = 0\<rparr>"
  have t: "time t = \<lparr>tv_sec = 9, tv_usec = 500000\<rparr>" "periodic t" "timer_proc t = 1" "client_data t = 2" "msecs t = 2500"
    by (simp_all add: t_def new_timer_def tv_add_ms_def tv_carry_def)
  have l: "log (one_timer t) = []" by (simp add: one_timer_def idle_state_def)
  have a: "0 \<in> active ((\<lambda>_. [])(hash t := [0]))" by (simp add: one_timer_active)
  from periodic_reschedules [OF one_timer_inv [of t] a one_timer_heap _ one_timer_runs]
  obtain s' B' tm' where r: "fire log_call 0 (one_timer t) = Some s'" "log s' = [(1, 2)]"
    "scheduled s' B' = (scheduled (one_timer t) ((\<lambda>_. [])(hash t := [0])))(0 \<mapsto> tm')"
    "tv_sec (time tm') * 1000000 + tv_usec (time tm') = 12000000"
    by (simp add: t l normal_def) (elim exE conjE, simp)
  then show ?thesis unfolding t_def [symmetric] by (intro exI [of _ s'] exI [of _ B'] exI [of _ tm']) simp
qed



text \<open>C27: \<open>tmr_destroy\<close> ends: it releases every timer that is scheduled or on the free list, leaves all
  lists empty, and neither frees a timer twice nor reads one it has freed.\<close>
theorem destroy_releases_all:
  fixes s :: "('p, 'd, 'z) tmr_scheme"
  assumes "timers_inv s B F" "dom (heap s) = active B \<union> set F"
  shows "\<exists>s'. tmr_destroy s = Some s' \<and> heap s' = Map.empty \<and> (\<forall>h < HASH_SIZE. timers s' h = None) \<and>
    free_timers s' = None"
proof -
  from destroy_frees [OF assms(1)] obtain s' where s': "tmr_destroy s = Some s'" "\<forall>h < HASH_SIZE. timers s' h = None"
    "free_timers s' = None" "dom (heap s') = dom (heap s) - active B - set F" by (elim exE conjE)
  have "dom (heap s') = {}" using s'(4) assms(2) by blast
  with s' show ?thesis by (intro exI [of _ s']) simp
qed

theorem destroy_releases_all_witness:
  "\<exists>s'. tmr_destroy (one_timer (new_timer 1 2 2500 True \<lparr>tv_sec = 7, tv_usec = 0\<rparr>) :: (nat, nat) logged) = Some s' \<and>
     heap s' = Map.empty"
proof -
  define t :: "(nat, nat) timer" where "t = new_timer 1 2 2500 True \<lparr>tv_sec = 7, tv_usec = 0\<rparr>"
  have "dom (heap (one_timer t)) = active ((\<lambda>_. [])(hash t := [0])) \<union> set []"
    unfolding one_timer_active by (simp add: one_timer_def)
  from destroy_releases_all [OF one_timer_inv [of t] this] show ?thesis unfolding t_def [symmetric] by blast
qed

section \<open>A callback that cancels the next timer\<close>

text \<open>The procedure of a timer with client data \<open>Some b\<close> cancels timer \<open>b\<close>.\<close>

definition cancel_call ::
  "'p \<Rightarrow> addr option \<Rightarrow> ('p, addr option, 'z) logged_scheme \<Rightarrow> ('p, addr option, 'z) logged_scheme option" where
  "cancel_call p d s =
     (case d of None \<Rightarrow> Some (s\<lparr>log := log s @ [(p, d)]\<rparr>)
      | Some b \<Rightarrow> tmr_cancel b (s\<lparr>log := log s @ [(p, d)]\<rparr>))"

text \<open>Timers 0 and 1 in the same list, both expired at time 5; timer 0 cancels timer 1.\<close>

definition two_timers :: "(nat, addr option) logged" where
  "two_timers = (idle_state 0)\<lparr>heap :=
     [0 \<mapsto> \<lparr>timer_proc = 10, client_data = Some 1, msecs = 0, periodic = False, time = \<lparr>tv_sec = 5, tv_usec = 0\<rparr>,
            prev = None, next_t = Some 1, hash_of = 5\<rparr>,
      1 \<mapsto> \<lparr>timer_proc = 11, client_data = None, msecs = 0, periodic = False, time = \<lparr>tv_sec = 5, tv_usec = 0\<rparr>,
            prev = Some 0, next_t = None, hash_of = 5\<rparr>],
     timers := (\<lambda>_. None)(5 \<mapsto> 0), brk := 2, clock := \<lparr>tv_sec = 5, tv_usec = 0\<rparr>\<rparr>"

text \<open>A callback must not cancel the timer that follows its own in the same list. \<open>tmr_run\<close> has
  already saved the pointer to it: the cancelled timer still fires, it is put on the free list twice,
  and the clean-up frees it and then follows its freed record.\<close>
theorem run_cancelled_next:
  "timers_inv two_timers ((\<lambda>_. [])(5 := [0, 1])) [] \<and>
   (\<exists>s'. tmr_run_list cancel_call clock (timers two_timers 5) two_timers = Some s' \<and>
     log s' = [(10, Some 1), (11, None)] \<and> free_timers s' = Some 1 \<and>
     map_option next_t (heap s' 1) = Some (Some 0) \<and> map_option next_t (heap s' 0) = Some (Some 1) \<and>
     tmr_cleanup s' = None)"
proof
  have h: "hash_time \<lparr>tv_sec = 5, tv_usec = 0\<rparr> = 5" by (simp add: hash_time_def HASH_SIZE_def)
  show "timers_inv two_timers ((\<lambda>_. [])(5 := [0, 1])) []"
    by (auto simp: timers_inv_def links_def ordered_def bucket_ok_def two_timers_def idle_state_def hash_def h t_le_def tv_le_def)
  let ?r = "tmr_run_list cancel_call clock (timers two_timers 5) two_timers"
  obtain s' where s': "?r = Some s'" "log s' = [(10, Some 1), (11, None)]" "free_timers s' = Some 1"
    "map_option next_t (heap s' 1) = Some (Some 0)" "map_option next_t (heap s' 0) = Some (Some 1)"
    by (subst (asm) tmr_run_list.simps, subst (asm) tmr_run_list.simps, subst (asm) tmr_run_list.simps)
      (simp add: two_timers_def idle_state_def get_def tv_after_def fire_def cancel_call_def tmr_cancel_def l_remove_def
        upd_def set_bucket_def HASH_SIZE_def)
  obtain t0 t1 where t: "heap s' 0 = Some t0" "next_t t0 = Some 1" "heap s' 1 = Some t1" "next_t t1 = Some 0"
    using s'(4,5) by auto
  have "tmr_cleanup s' = None"
    using s'(3) t by (subst tmr_cleanup.simps, simp add: get_def) (subst tmr_cleanup.simps, simp add: get_def, subst tmr_cleanup.simps, simp add: get_def)
  with s' show "\<exists>s'. ?r = Some s' \<and> log s' = [(10, Some 1), (11, None)] \<and> free_timers s' = Some 1 \<and>
     map_option next_t (heap s' 1) = Some (Some 0) \<and> map_option next_t (heap s' 0) = Some (Some 1) \<and>
     tmr_cleanup s' = None" by blast
qed

end
