(* ===== verification/C_Float.thy ===== *)
theory C_Float
  imports Complex_Main C_Prelude
begin

text \<open>
  IEEE 754 rounding as the load generator uses it: \<open>float\<close> has 24 and \<open>double\<close> 53 significant bits, and
  every conversion and operation rounds to nearest, ties to even. Values are rationals. The quantities
  the program computes (seconds, bytes per second) stay far away from the ends of both ranges, so
  overflow, infinities and subnormal numbers are left out.
\<close>

fun bits :: "nat \<Rightarrow> nat" where
  "bits n = (if n = 0 then 0 else Suc (bits (n div 2)))"

declare bits.simps [simp del]

definition pow2 :: "int \<Rightarrow> rat" where
  "pow2 e = (if 0 \<le> e then 2 ^ nat e else 1 / 2 ^ nat (- e))"

definition round_even :: "rat \<Rightarrow> int" where
  "round_even x =
     (let f = \<lfloor>x\<rfloor>; r = x - of_int f
      in if r < 1 / 2 \<or> r = 1 / 2 \<and> even f then f else f + 1)"

text \<open>The exponent that leaves \<open>p\<close> bits before the point.\<close>

definition fl_exp :: "nat \<Rightarrow> rat \<Rightarrow> int" where
  "fl_exp p a =
     (case quotient_of a of (n, d) \<Rightarrow>
        let e = int (bits (nat n)) - int (bits (nat d)) - int p
        in if a < 2 ^ p * pow2 e then e else e + 1)"

definition fl_pos :: "nat \<Rightarrow> rat \<Rightarrow> rat" where
  "fl_pos p a = (let e = fl_exp p a in of_int (round_even (a / pow2 e)) * pow2 e)"

definition fl :: "nat \<Rightarrow> rat \<Rightarrow> rat" where
  "fl p x = (if x = 0 then 0 else if 0 < x then fl_pos p x else - fl_pos p (- x))"

definition to_float :: "rat \<Rightarrow> rat" where "to_float = fl 24"
definition to_double :: "rat \<Rightarrow> rat" where "to_double = fl 53"

text \<open>Conversion to an integer type truncates.\<close>

definition trunc :: "rat \<Rightarrow> int" where
  "trunc x = (if 0 \<le> x then \<lfloor>x\<rfloor> else \<lceil>x\<rceil>)"

section \<open>Lemmas\<close>

lemma pow2_pos [simp]: "0 < pow2 e"
  by (simp add: pow2_def)

lemma pow2_nonneg [simp]: "0 \<le> pow2 e"
  by (rule less_imp_le) simp

lemma pow2_ge_1: "0 \<le> e \<Longrightarrow> 1 \<le> pow2 e"
  by (simp add: pow2_def)

lemma pow2_add: "pow2 (d + e) = pow2 d * pow2 e"
proof -
  have "pow2 e = 2 powi e" for e
    by (simp add: pow2_def power_int_def field_simps)
  then show ?thesis by (simp add: power_int_add)
qed

lemma round_even_le: "x \<le> of_int k \<Longrightarrow> round_even x \<le> k"
proof -
  assume le: "x \<le> of_int k"
  show ?thesis
  proof (cases "x = of_int \<lfloor>x\<rfloor>")
    case True
    then have "round_even x = \<lfloor>x\<rfloor>" by (simp add: round_even_def Let_def)
    with le show ?thesis by (metis floor_mono floor_of_int)
  next
    case False
    then have "of_int \<lfloor>x\<rfloor> < x" using of_int_floor_le [of x] by linarith
    with le have "\<lfloor>x\<rfloor> < k" by linarith
    then show ?thesis by (auto simp: round_even_def Let_def)
  qed
qed

lemma bits_bound: "0 < n \<Longrightarrow> 2 ^ (bits n - 1) \<le> n \<and> n < 2 ^ bits n"
proof (induction n rule: bits.induct)
  case (1 n)
  show ?case
  proof (cases "n = 1")
    case True
    have "bits 0 = 0" "bits (Suc 0) = 1" by (subst bits.simps; simp add: bits.simps [of 0])+
    with True show ?thesis by simp
  next
    case False
    then have h: "0 < n div 2" using "1.prems" by auto
    with "1.IH" "1.prems" have ih: "2 ^ (bits (n div 2) - 1) \<le> n div 2" "n div 2 < 2 ^ bits (n div 2)" by auto
    have b: "bits n = Suc (bits (n div 2))" using "1.prems" by (subst bits.simps) simp
    obtain k where k: "bits (n div 2) = Suc k" using h by (subst (asm) bits.simps) (cases "n div 2", auto simp: bits.simps)
    from ih(1) k have "2 ^ k \<le> n div 2" by simp
    then have "2 * 2 ^ k \<le> n" by linarith
    moreover from ih(2) have "n < 2 * 2 ^ bits (n div 2)" by linarith
    ultimately show ?thesis by (simp add: b k)
  qed
qed

lemma bits_rat:
  assumes "0 < n"
  shows "(2 :: rat) ^ (bits (nat n) - 1) \<le> of_int n" "of_int n < (2 :: rat) ^ bits (nat n)" "0 < bits (nat n)"
proof -
  have b: "2 ^ (bits (nat n) - 1) \<le> nat n" "nat n < 2 ^ bits (nat n)" using bits_bound [of "nat n"] assms by auto
  have n: "(of_int n :: rat) = of_nat (nat n)" using assms by simp
  have "(of_nat (2 ^ (bits (nat n) - 1)) :: rat) \<le> of_nat (nat n)" using b(1) by (simp only: of_nat_le_iff)
  then show "(2 :: rat) ^ (bits (nat n) - 1) \<le> of_int n" unfolding n by simp
  have "(of_nat (nat n) :: rat) < of_nat (2 ^ bits (nat n))" using b(2) by (simp only: of_nat_less_iff)
  then show "of_int n < (2 :: rat) ^ bits (nat n)" unfolding n by simp
  show "0 < bits (nat n)" using b assms by (cases "bits (nat n)") auto
qed

lemma pow2_nat: "pow2 (int k) = 2 ^ k"
  by (simp add: pow2_def)

text \<open>The exponent leaves at least \<open>p - 1\<close> bits, so that rounding does not pass a representable integer.\<close>

lemma fl_exp_low:
  assumes "0 < a" "0 < p"
  shows "2 ^ (p - 1) * pow2 (fl_exp p a) \<le> a"
proof -
  obtain n d where q: "quotient_of a = (n, d)" by (cases "quotient_of a")
  then have d: "0 < d" and a: "a = of_int n / of_int d" using quotient_of_denom_pos quotient_of_div by blast+
  with assms have n: "0 < n" by (simp add: zero_less_divide_iff)
  let ?bn = "bits (nat n)" and ?bd = "bits (nat d)"
  let ?e = "int ?bn - int ?bd - int p"
  note bn = bits_rat [OF n] and bd = bits_rat [OF d]
  have "2 ^ (?bn - 1) / 2 ^ ?bd \<le> a" unfolding a using bn(1) bd(2) d n by (intro frac_le) auto
  moreover have "pow2 (int (?bn - 1) + - int ?bd) = 2 ^ (?bn - 1) / 2 ^ ?bd"
    unfolding pow2_add pow2_nat by (simp add: pow2_def)
  moreover have "int (?bn - 1) + - int ?bd = int (p - 1) + ?e" using bn(3) assms(2) by simp
  ultimately have lo: "2 ^ (p - 1) * pow2 ?e \<le> a" using pow2_add [of "int (p - 1)" ?e] pow2_nat by metis
  show ?thesis
  proof (cases "a < 2 ^ p * pow2 ?e")
    case True
    then have "fl_exp p a = ?e" using q by (simp add: fl_exp_def)
    with lo show ?thesis by simp
  next
    case False
    then have e: "fl_exp p a = ?e + 1" using q by (simp add: fl_exp_def)
    have "2 ^ (p - 1) * pow2 (?e + 1) = 2 ^ p * pow2 ?e"
      unfolding pow2_add using assms(2) by (cases p) (simp_all add: pow2_def [of 1])
    with False e show ?thesis by simp
  qed
qed

lemma fl_exp_small:
  assumes "0 < a" "0 < p" "a \<le> of_nat k" "k < 2 ^ (p - 1)"
  shows "fl_exp p a < 0"
proof -
  have "of_nat k < (of_nat (2 ^ (p - 1)) :: rat)" using assms(4) by (simp only: of_nat_less_iff)
  then have "of_nat k < (2 :: rat) ^ (p - 1)" by simp
  with fl_exp_low [OF assms(1,2)] assms(3) have "(2 :: rat) ^ (p - 1) * pow2 (fl_exp p a) < 2 ^ (p - 1)"
    by (meson le_less_trans order_trans)
  then have "pow2 (fl_exp p a) < 1" by simp
  then show ?thesis using pow2_ge_1 [of "fl_exp p a"] by linarith
qed

lemma pow2_neg: "e < 0 \<Longrightarrow> pow2 e = 1 / 2 ^ nat (- e)"
  by (simp add: pow2_def)

lemma round_even_int [simp]: "round_even (of_int k) = k"
  by (simp add: round_even_def)

lemma fl_pos_le:
  assumes "0 < a" "0 < p" "a \<le> of_nat k" "k < 2 ^ (p - 1)"
  shows "fl_pos p a \<le> of_nat k"
proof -
  let ?e = "fl_exp p a"
  note inv = pow2_neg [OF fl_exp_small [OF assms]]
  let ?K = "int k * 2 ^ nat (- ?e)"
  have "a / pow2 ?e \<le> of_int ?K" using assms(3) by (simp add: inv)
  then have "of_int (round_even (a / pow2 ?e)) \<le> (of_int ?K :: rat)" using round_even_le by (simp only: of_int_le_iff)
  then have "of_int (round_even (a / pow2 ?e)) * pow2 ?e \<le> of_int ?K * pow2 ?e" by (intro mult_right_mono) simp_all
  also have "of_int ?K * pow2 ?e = of_nat k" by (simp add: inv)
  finally show ?thesis by (simp add: fl_pos_def Let_def)
qed

lemma fl_exact:
  assumes "0 < p" "k < 2 ^ (p - 1)"
  shows "fl p (of_nat k) = of_nat k"
proof (cases "k = 0")
  case False
  then have a: "0 < (of_nat k :: rat)" by simp
  let ?e = "fl_exp p (of_nat k)"
  note inv = pow2_neg [OF fl_exp_small [OF a assms(1) order_refl assms(2)]]
  have "of_nat k / pow2 ?e = of_int (int k * 2 ^ nat (- ?e))" by (simp add: inv)
  then have "of_int (round_even (of_nat k / pow2 ?e)) * pow2 ?e = of_int (int k * 2 ^ nat (- ?e)) * pow2 ?e"
    by (simp only: round_even_int)
  also have "\<dots> = of_nat k" by (simp add: inv)
  finally show ?thesis using False by (simp add: fl_def fl_pos_def Let_def)
qed (simp add: fl_def)

lemma float_exact: "k < 2 ^ 23 \<Longrightarrow> to_float (of_nat k) = of_nat k"
  using fl_exact [of 24 k] by (simp add: to_float_def)

lemma double_exact: "k < 2 ^ 52 \<Longrightarrow> to_double (of_nat k) = of_nat k"
  using fl_exact [of 53 k] by (simp add: to_double_def)

lemma fl_le:
  assumes "0 < p" "x \<le> of_nat k" "k < 2 ^ (p - 1)" "0 \<le> x"
  shows "fl p x \<le> of_nat k"
  using assms fl_pos_le [of x p k] by (auto simp: fl_def)

lemma round_even_nonneg: "0 \<le> x \<Longrightarrow> 0 \<le> round_even x"
  by (auto simp: round_even_def Let_def)

lemma fl_nonneg: "0 \<le> x \<Longrightarrow> 0 \<le> fl p x"
proof (cases "x = 0")
  case False
  assume x: "0 \<le> x"
  let ?e = "fl_exp p x"
  have "0 \<le> x / pow2 ?e" using x pow2_pos [of ?e] by (intro divide_nonneg_nonneg) simp_all
  from round_even_nonneg [OF this] have "0 \<le> (of_int (round_even (x / pow2 ?e)) :: rat)" by simp
  then have "0 \<le> of_int (round_even (x / pow2 ?e)) * pow2 ?e" using pow2_pos [of ?e] by (intro mult_nonneg_nonneg) simp_all
  with False x show ?thesis by (simp add: fl_def fl_pos_def Let_def)
qed (simp add: fl_def)

end
