(* ===== verification/Load_Data.thy ===== *)
theory Load_Data
  imports C_Float Timers Sys_Calls
begin

text \<open>
  \<open>http_load.c\<close>, the load generator: its data and its small helpers.

  The state extends the state of the timer package with the program's static variables, the variable
  \<open>now\<close> of \<open>main\<close> (every \<open>nowP\<close> of the program points to it), the kernel, the answers of
  \<open>gettimeofday\<close> and \<open>random\<close>, and the list of the formatted prints so far. The program is modelled as it is
  built: without \<open>USE_SSL\<close>, with \<open>USE_IPV6\<close>.

  A function gives no result where the C code would leave the bounds of an object, follow an invalid
  pointer, divide by zero or overflow a signed number that comes from the network. \<open>exit\<close> sets
  \<open>exit_code\<close>; \<open>and_then\<close> sequences a call that may exit with what follows it. The event counters are
  unbounded integers (an overflow would take \<open>2 ^ 31\<close> fetches).
\<close>

section \<open>Constants\<close>

definition IDLE_SECS :: int where "IDLE_SECS = 60"
definition THROTTLE :: rat where "THROTTLE = 3360"
definition PROGRESS_SECS :: int where "PROGRESS_SECS = 60"
definition RESERVED_FDS :: int where "RESERVED_FDS = 3"
definition PROTO_HTTP :: int where "PROTO_HTTP = 0"
definition HTTP_LOAD_VERSION :: string where "HTTP_LOAD_VERSION = ''http_load 09Mar2016''"

section \<open>Data\<close>

record url =
  url_str :: string
  protocol :: int
  hostname :: string
  port :: int
  u_sa_in :: string
  u_sa_len :: int
  sock_family :: int
  sock_type :: int
  sock_protocol :: int
  filename :: string
  got_bytes :: bool
  u_bytes :: int
  got_checksum :: bool
  u_checksum :: int

record sip =
  sip_str :: string
  sip_sa_in :: sockaddr_in

datatype cnst = CNST_FREE | CNST_CONNECTING | CNST_HEADERS | CNST_READING | CNST_PAUSING

datatype hdst =
    HDST_LINE1_PROTOCOL | HDST_LINE1_WHITESPACE | HDST_LINE1_STATUS
  | HDST_BOL | HDST_TEXT | HDST_LF | HDST_CR | HDST_CRLF | HDST_CRLFCR
  | HDST_C | HDST_CO | HDST_CON | HDST_CONT | HDST_CONTE | HDST_CONTEN | HDST_CONTENT
  | HDST_CONTENT_DASH | HDST_CONTENT_L | HDST_CONTENT_LE | HDST_CONTENT_LEN | HDST_CONTENT_LENG
  | HDST_CONTENT_LENGT | HDST_CONTENT_LENGTH | HDST_CONTENT_LENGTH_COLON
  | HDST_CONTENT_LENGTH_COLON_WHITESPACE | HDST_CONTENT_LENGTH_COLON_WHITESPACE_NUM

record connection =
  url_num :: int
  c_sa_in :: string
  c_sa_len :: int
  conn_fd :: int
  conn_state :: cnst
  header_state :: hdst
  did_connect :: bool
  did_response :: bool
  started_at :: timeval
  connect_at :: timeval
  request_at :: timeval
  response_at :: timeval
  idle_timer :: "addr option"
  wakeup_timer :: "addr option"
  content_length :: int
  c_bytes :: int
  c_checksum :: int
  http_status :: int

text \<open>The procedures that timers call.\<close>

datatype proc = Idle_connection | Wakeup_connection | Progress_report | Start_timer | End_timer

datatype start_spec = START_NONE | START_PARALLEL | START_RATE
datatype end_spec = END_NONE | END_FETCHES | END_SECONDS

text \<open>The options of the command line, with the local variables of \<open>main\<close> that hold them.\<close>

record options =
  do_checksum :: bool
  do_throttle :: bool
  do_verbose :: bool
  do_jitter :: bool
  do_proxy :: bool
  throttle :: rat
  idle_secs :: int
  proxy_hostname :: string
  proxy_port :: int
  start :: start_spec
  start_parallel :: int
  start_rate :: int
  end_at :: end_spec
  end_fetches :: int
  end_seconds :: int
  sip_file :: "string option"

record stats =
  fetches_started :: int
  connects_completed :: int
  responses_completed :: int
  fetches_completed :: int
  total_bytes :: int
  total_connect_usecs :: int
  max_connect_usecs :: int
  min_connect_usecs :: int
  total_response_usecs :: int
  max_response_usecs :: int
  min_response_usecs :: int
  total_timeouts :: int
  total_badbytes :: int
  total_badchecksums :: int
  max_parallel :: int
  http_status_counts :: "int list"

text \<open>A print: the format with its arguments.\<close>

datatype arg = D int | S string | G rat

datatype print = Stdout string "arg list" | Stderr string "arg list" | Perror string

record load = "(proc, int) tmr" +
  argv0 :: string
  opt :: options
  stat :: stats
  urls :: "url list"
  max_urls :: int
  sips :: "sip list"
  max_sips :: int
  connections :: "connection list"
  max_connections :: int
  num_connections :: int
  start_at :: timeval
  start_interval :: int
  low_interval :: int
  range_interval :: int
  now :: timeval
  sys :: os
  rnd :: "nat \<Rightarrow> int"
  nrnd :: nat
  times :: "nat \<Rightarrow> timeval"
  ntimes :: nat
  prints :: "print list"

section \<open>Control\<close>

definition exit_with :: "int \<Rightarrow> load \<Rightarrow> load" where
  "exit_with c s = s\<lparr>exit_code := Some c\<rparr>"

definition and_then :: "load option \<Rightarrow> (load \<Rightarrow> load option) \<Rightarrow> load option" where
  "and_then r f = (case r of None \<Rightarrow> None | Some s \<Rightarrow> if exited s then Some s else f s)"

definition print :: "print \<Rightarrow> load \<Rightarrow> load" where
  "print p s = s\<lparr>prints := prints s @ [p]\<rparr>"

definition gettimeofday :: "load \<Rightarrow> load" where
  "gettimeofday s = s\<lparr>now := times s (ntimes s), ntimes := Suc (ntimes s)\<rparr>"

text \<open>\<open>random\<close> gives a number from 0 to \<open>2 ^ 31 - 1\<close>.\<close>

definition random :: "load \<Rightarrow> int \<times> load" where
  "random s = (take_bit 31 (rnd s (nrnd s)), s\<lparr>nrnd := Suc (nrnd s)\<rparr>)"

text \<open>A system call.\<close>

definition sysc :: "(os \<Rightarrow> 'a \<times> os) \<Rightarrow> load \<Rightarrow> 'a \<times> load" where
  "sysc f s = (case f (sys s) of (r, w) \<Rightarrow> (r, s\<lparr>sys := w\<rparr>))"

definition closefd :: "int \<Rightarrow> load \<Rightarrow> load" where
  "closefd fd s = s\<lparr>sys := sys_close fd (sys s)\<rparr>"

section \<open>Tables\<close>

definition get_conn :: "int \<Rightarrow> load \<Rightarrow> connection option" where
  "get_conn c s = (if 0 \<le> c \<and> nat c < length (connections s) then Some (connections s ! nat c) else None)"

definition upd_conn :: "int \<Rightarrow> (connection \<Rightarrow> connection) \<Rightarrow> load \<Rightarrow> load option" where
  "upd_conn c f s =
     (if 0 \<le> c \<and> nat c < length (connections s)
      then Some (s\<lparr>connections := (connections s)[nat c := f (connections s ! nat c)]\<rparr>) else None)"

definition get_url :: "int \<Rightarrow> load \<Rightarrow> url option" where
  "get_url u s = (if 0 \<le> u \<and> nat u < length (urls s) then Some (urls s ! nat u) else None)"

definition upd_url :: "int \<Rightarrow> (url \<Rightarrow> url) \<Rightarrow> load \<Rightarrow> load option" where
  "upd_url u f s =
     (if 0 \<le> u \<and> nat u < length (urls s)
      then Some (s\<lparr>urls := (urls s)[nat u := f (urls s ! nat u)]\<rparr>) else None)"

section \<open>Helpers of the source\<close>

definition delta_timeval :: "timeval \<Rightarrow> timeval \<Rightarrow> int" where
  "delta_timeval st en = (tv_sec en - tv_sec st) * 1000000 + (tv_usec en - tv_usec st)"

text \<open>Microseconds as a \<open>float\<close> number of seconds.\<close>

definition elapsed_secs :: "int \<Rightarrow> rat" where
  "elapsed_secs usecs = to_float (to_double (to_double (of_int usecs) / 1000000))"

definition check :: "bool \<Rightarrow> load \<Rightarrow> load" where
  "check ok s = (if ok then s else exit_with 1 (print (Stderr ''%s: out of memory'' [S (argv0 s)]) s))"

definition malloc_check :: "load \<Rightarrow> load" where
  "malloc_check s = (case sysc sys_malloc s of (ok, s) \<Rightarrow> check ok s)"

definition realloc_check :: "load \<Rightarrow> load" where
  "realloc_check s = (case sysc sys_call s of (r, s) \<Rightarrow> check (0 \<le> r) s)"

definition strdup_check :: "load \<Rightarrow> load" where
  "strdup_check s = (case sysc sys_malloc s of (ok, s) \<Rightarrow> check ok s)"

definition usage :: "load \<Rightarrow> load" where
  "usage s = exit_with 1
     (foldl (\<lambda>s l. print (Stderr l []) s)
        (print (Stderr ''usage:  %s [-checksum] [-throttle] [-proxy host:port] [-verbose] [-timeout secs] [-sip sip_file]''
           [S (argv0 s)]) s)
        [''            -parallel N | -rate N [-jitter]'', ''            -fetches N | -seconds N'',
         ''            url_file'', ''One start specifier, either -parallel or -rate, is required.'',
         ''One end specifier, either -fetches or -seconds, is required.''])"

lemmas load_access = get_conn_def upd_conn_def get_url_def upd_url_def
lemmas load_ctl = exit_with_def and_then_def print_def gettimeofday_def random_def sysc_def closefd_def

end
