(* ===== verification/Load_Args.thy ===== *)
theory Load_Args
  imports Load_Data
begin

text \<open>
  The start of \<open>main\<close> of \<open>http_load.c\<close>: the limit on connections and the command line.
\<close>

section \<open>The limit on connections\<close>

text \<open>The answer of \<open>getrlimit\<close>: \<open>None\<close> when it fails, else the current and the maximal limit; a limit is an
  unsigned 64-bit number, and the difference is stored in an \<open>int\<close>.\<close>

definition RLIM_INFINITY :: int where "RLIM_INFINITY = 2 ^ 64 - 1"

definition connection_limit :: "(int \<times> int) option \<Rightarrow> int" where
  "connection_limit limits =
     (case limits of
        None \<Rightarrow> 64 - RESERVED_FDS
      | Some (rlim_cur, rlim_max) \<Rightarrow>
          let cur = (if rlim_cur \<noteq> rlim_max
                     then if rlim_max = RLIM_INFINITY then 8192
                          else if rlim_max > rlim_cur then rlim_max else rlim_cur
                     else rlim_cur)
          in signed_take_bit 31 (cur - RESERVED_FDS))"

section \<open>One option\<close>

text \<open>The two ways out of the option loop.\<close>

datatype arg_error = Usage | Out_of_range string "arg list"

definition opt_is :: "string \<Rightarrow> string \<Rightarrow> bool" where
  "opt_is a name \<longleftrightarrow> strncmp a name (length a) = 0"

definition init_options :: options where
  "init_options = \<lparr>do_checksum = False, do_throttle = False, do_verbose = False, do_jitter = False, do_proxy = False,
     throttle = THROTTLE, idle_secs = IDLE_SECS, proxy_hostname = [], proxy_port = 0,
     start = START_NONE, start_parallel = -1, start_rate = -1, end_at = END_NONE, end_fetches = -1, end_seconds = -1,
     sip_file = None\<rparr>"

definition opt_parallel :: "int \<Rightarrow> string \<Rightarrow> options \<Rightarrow> arg_error + options" where
  "opt_parallel max_conn v o1 =
     (let n = atoi v
      in if n < 1 then Inl (Out_of_range ''%s: parallel must be at least 1'' [])
         else if n > max_conn then Inl (Out_of_range ''%s: parallel may be at most %d'' [D max_conn])
         else Inr (o1\<lparr>start := START_PARALLEL, start_parallel := n\<rparr>))"

definition opt_rate :: "string \<Rightarrow> options \<Rightarrow> arg_error + options" where
  "opt_rate v o1 =
     (let n = atoi v
      in if n < 1 then Inl (Out_of_range ''%s: rate must be at least 1'' [])
         else if n > 1000 then Inl (Out_of_range ''%s: rate may be at most 1000'' [])
         else Inr (o1\<lparr>start := START_RATE, start_rate := n\<rparr>))"

definition opt_fetches :: "string \<Rightarrow> options \<Rightarrow> arg_error + options" where
  "opt_fetches v o1 =
     (let n = atoi v
      in if n < 1 then Inl (Out_of_range ''%s: fetches must be at least 1'' [])
         else Inr (o1\<lparr>end_at := END_FETCHES, end_fetches := n\<rparr>))"

definition opt_seconds :: "string \<Rightarrow> options \<Rightarrow> arg_error + options" where
  "opt_seconds v o1 =
     (let n = atoi v
      in if n < 1 then Inl (Out_of_range ''%s: seconds must be at least 1'' [])
         else Inr (o1\<lparr>end_at := END_SECONDS, end_seconds := n\<rparr>))"

definition opt_proxy :: "string \<Rightarrow> options \<Rightarrow> options" where
  "opt_proxy v o1 =
     (case strchr v (CHR '':'') of
        None \<Rightarrow> o1\<lparr>do_proxy := True, proxy_hostname := v, proxy_port := 80\<rparr>
      | Some colon \<Rightarrow>
          o1\<lparr>do_proxy := True, proxy_hostname := take (length v - length colon) v,
             proxy_port := take_bit 16 (atoi (tl colon))\<rparr>)"

definition opt_Throttle :: "string \<Rightarrow> options \<Rightarrow> options" where
  "opt_Throttle v o1 = o1\<lparr>do_throttle := True, throttle := to_float (to_double (of_int (atoi v) / 10))\<rparr>"

text \<open>An option that takes an argument, with the argument.\<close>

definition with_arg :: "string list \<Rightarrow> (string \<Rightarrow> arg_error + options) \<Rightarrow> arg_error + options \<times> string list" where
  "with_arg rest f = (case f (hd rest) of Inl e \<Rightarrow> Inl e | Inr o1 \<Rightarrow> Inr (o1, tl rest))"

text \<open>The body of the loop: the option \<open>a\<close>, the arguments after it, the options so far. Any prefix of the
  name selects an option, the first that fits wins.\<close>

definition parse_opt :: "int \<Rightarrow> string \<Rightarrow> string list \<Rightarrow> options \<Rightarrow> arg_error + options \<times> string list" where
  "parse_opt max_conn a rest o1 =
     (if opt_is a ''-checksum'' then Inr (o1\<lparr>do_checksum := True\<rparr>, rest)
      else if opt_is a ''-throttle'' then Inr (o1\<lparr>do_throttle := True\<rparr>, rest)
      else if opt_is a ''-Throttle'' \<and> rest \<noteq> [] then with_arg rest (\<lambda>v. Inr (opt_Throttle v o1))
      else if opt_is a ''-verbose'' then Inr (o1\<lparr>do_verbose := True\<rparr>, rest)
      else if opt_is a ''-timeout'' \<and> rest \<noteq> [] then with_arg rest (\<lambda>v. Inr (o1\<lparr>idle_secs := atoi v\<rparr>))
      else if opt_is a ''-jitter'' then Inr (o1\<lparr>do_jitter := True\<rparr>, rest)
      else if opt_is a ''-parallel'' \<and> rest \<noteq> [] then with_arg rest (\<lambda>v. opt_parallel max_conn v o1)
      else if opt_is a ''-rate'' \<and> rest \<noteq> [] then with_arg rest (\<lambda>v. opt_rate v o1)
      else if opt_is a ''-fetches'' \<and> rest \<noteq> [] then with_arg rest (\<lambda>v. opt_fetches v o1)
      else if opt_is a ''-seconds'' \<and> rest \<noteq> [] then with_arg rest (\<lambda>v. opt_seconds v o1)
      else if opt_is a ''-sip'' \<and> rest \<noteq> [] then with_arg rest (\<lambda>v. Inr (o1\<lparr>sip_file := Some v\<rparr>))
      else if opt_is a ''-proxy'' \<and> rest \<noteq> [] then with_arg rest (\<lambda>v. Inr (opt_proxy v o1))
      else Inl Usage)"

lemma with_arg_length: "with_arg rest f = Inr (o2, rest') \<Longrightarrow> length rest' \<le> length rest"
  by (auto simp: with_arg_def split: sum.splits)

lemma parse_opt_length: "parse_opt m a rest o1 = Inr (o2, rest') \<Longrightarrow> length rest' \<le> length rest"
  unfolding parse_opt_def by (auto split: if_splits dest: with_arg_length)

section \<open>The command line\<close>

definition is_option :: "string \<Rightarrow> bool" where
  "is_option a \<longleftrightarrow> (case a of c # d # _ \<Rightarrow> c = CHR ''-'' | _ \<Rightarrow> False)"

text \<open>The loop leaves the arguments that are not options.\<close>

function parse_opts :: "int \<Rightarrow> string list \<Rightarrow> options \<Rightarrow> arg_error + options \<times> string list" where
  "parse_opts m [] o1 = Inr (o1, [])"
| "parse_opts m (a # rest) o1 =
     (if is_option a
      then (case parse_opt m a rest o1 of Inl e \<Rightarrow> Inl e | Inr (o2, rest') \<Rightarrow> parse_opts m rest' o2)
      else Inr (o1, a # rest))"
  by pat_completeness auto
termination
  by (relation "measure (\<lambda>(m, args, o1). length args)") (auto dest!: parse_opt_length simp: less_Suc_eq_le)

definition parse_args :: "int \<Rightarrow> string list \<Rightarrow> arg_error + options \<times> string" where
  "parse_args m args =
     (case parse_opts m args init_options of
        Inl e \<Rightarrow> Inl e
      | Inr (o1, rest) \<Rightarrow>
          if length rest \<noteq> 1 then Inl Usage
          else if start o1 = START_NONE \<or> end_at o1 = END_NONE then Inl Usage
          else if do_jitter o1 \<and> start o1 \<noteq> START_RATE then Inl Usage
          else Inr (o1, hd rest))"

definition arg_exit :: "arg_error \<Rightarrow> load \<Rightarrow> load" where
  "arg_exit e s =
     (case e of Usage \<Rightarrow> usage s | Out_of_range fmt as \<Rightarrow> exit_with 1 (print (Stderr fmt (S (argv0 s) # as)) s))"

section \<open>What the loop guarantees\<close>

definition options_ok :: "int \<Rightarrow> options \<Rightarrow> bool" where
  "options_ok m o1 \<longleftrightarrow>
     (start o1 = START_PARALLEL \<longrightarrow> 1 \<le> start_parallel o1 \<and> start_parallel o1 \<le> m) \<and>
     (start o1 = START_RATE \<longrightarrow> 1 \<le> start_rate o1 \<and> start_rate o1 \<le> 1000) \<and>
     (end_at o1 = END_FETCHES \<longrightarrow> 1 \<le> end_fetches o1) \<and>
     (end_at o1 = END_SECONDS \<longrightarrow> 1 \<le> end_seconds o1)"

lemma with_arg_ok:
  "with_arg rest f = Inr (o2, rest') \<Longrightarrow> (\<And>v o3. f v = Inr o3 \<Longrightarrow> options_ok m o3) \<Longrightarrow> options_ok m o2"
  by (auto simp: with_arg_def split: sum.splits)

lemma opt_ok:
  assumes "options_ok m o1"
  shows "opt_parallel m v o1 = Inr o2 \<Longrightarrow> options_ok m o2" "opt_rate v o1 = Inr o2 \<Longrightarrow> options_ok m o2"
    "opt_fetches v o1 = Inr o2 \<Longrightarrow> options_ok m o2" "opt_seconds v o1 = Inr o2 \<Longrightarrow> options_ok m o2"
    "options_ok m (opt_proxy v o1)" "options_ok m (opt_Throttle v o1)"
  using assms
  by (auto simp: opt_parallel_def opt_rate_def opt_fetches_def opt_seconds_def opt_proxy_def opt_Throttle_def
      options_ok_def Let_def split: if_splits option.splits)

lemma options_ok_flags:
  "options_ok m o1 \<Longrightarrow> options_ok m (o1\<lparr>do_checksum := b\<rparr>)" "options_ok m o1 \<Longrightarrow> options_ok m (o1\<lparr>do_throttle := b\<rparr>)"
  "options_ok m o1 \<Longrightarrow> options_ok m (o1\<lparr>do_verbose := b\<rparr>)" "options_ok m o1 \<Longrightarrow> options_ok m (o1\<lparr>do_jitter := b\<rparr>)"
  "options_ok m o1 \<Longrightarrow> options_ok m (o1\<lparr>idle_secs := n\<rparr>)" "options_ok m o1 \<Longrightarrow> options_ok m (o1\<lparr>sip_file := f\<rparr>)"
  by (simp_all add: options_ok_def)

lemma parse_opt_ok:
  assumes "options_ok m o1" "parse_opt m a rest o1 = Inr (o2, rest')"
  shows "options_ok m o2"
  using assms(2) unfolding parse_opt_def
  by (auto split: if_splits elim!: with_arg_ok intro: opt_ok [OF assms(1)] options_ok_flags [OF assms(1)])

lemma parse_opts_ok: "options_ok m o1 \<Longrightarrow> parse_opts m args o1 = Inr (o2, rest) \<Longrightarrow> options_ok m o2"
proof (induction m args o1 rule: parse_opts.induct)
  case (2 m a args o1)
  show ?case
  proof (cases "is_option a")
    case True
    with "2.prems"(2) obtain o3 args' where p: "parse_opt m a args o1 = Inr (o3, args')" "parse_opts m args' o3 = Inr (o2, rest)"
      by (auto split: sum.splits)
    show ?thesis by (rule "2.IH" [OF True p(1) refl parse_opt_ok [OF "2.prems"(1) p(1)] p(2)])
  qed (use 2 in simp)
qed simp

text \<open>C37: A command line that is accepted names exactly one URL file, one way to start and one way to end, with
  every number in its range: at least 1 and at most the connection limit in parallel, a rate from 1 to
  1000, at least one fetch or second; jitter only with a rate.\<close>
theorem accepted_options_in_range:
  assumes "parse_args m args = Inr (o1, file)"
  shows "options_ok m o1 \<and> start o1 \<noteq> START_NONE \<and> end_at o1 \<noteq> END_NONE \<and> (do_jitter o1 \<longrightarrow> start o1 = START_RATE)"
proof -
  from assms obtain rest where p: "parse_opts m args init_options = Inr (o1, rest)"
    "start o1 \<noteq> START_NONE" "end_at o1 \<noteq> END_NONE" "do_jitter o1 \<longrightarrow> start o1 = START_RATE"
    by (auto simp: parse_args_def split: sum.splits if_splits)
  have "options_ok m init_options" by (simp add: options_ok_def init_options_def)
  with p parse_opts_ok show ?thesis by blast
qed

theorem accepted_options_in_range_witness:
  "options_ok 61 (init_options\<lparr>start := START_PARALLEL, start_parallel := 5, end_at := END_SECONDS, end_seconds := 10,
     do_checksum := True\<rparr>)"
proof -
  have "parse_args 61 [''-p'', ''5'', ''-seconds'', ''10'', ''-check'', ''urls''] = Inr (init_options\<lparr>start := START_PARALLEL,
      start_parallel := 5, end_at := END_SECONDS, end_seconds := 10, do_checksum := True\<rparr>, ''urls'')"
    by (simp add: parse_args_def is_option_def parse_opt_def opt_is_def with_arg_def opt_parallel_def opt_seconds_def
        init_options_def atoi_def Let_def c_string)
  from conjunct1 [OF accepted_options_in_range [OF this]] show ?thesis .
qed

end
