(* ===== verification/Load_Urls.thy ===== *)
theory Load_Urls
  imports Load_Data "HOL-Library.Monad_Syntax"
begin

text \<open>
  \<open>read_url_file\<close>, \<open>lookup_address\<close> and \<open>read_sip_file\<close> of \<open>http_load.c\<close>. The content of the files, the
  name service (\<open>getaddrinfo\<close>) and \<open>inet_aton\<close> are parameters. \<open>num_urls\<close> and \<open>num_sips\<close> are the lengths of
  the tables; a print of an error message records the error number. A table entry is written only below the allocated size \<open>max_urls\<close> or \<open>max_sips\<close>.
\<close>

section \<open>Lines\<close>

definition LINE_SIZE :: nat where "LINE_SIZE = 5000"

definition line_end :: "string \<Rightarrow> nat" where
  "line_end content =
     length (takeWhile (\<lambda>c. c \<noteq> LF) content) + (if LF \<in> set content then 1 else 0)"

text \<open>\<open>fgets\<close> into a buffer of \<open>n\<close> bytes; the terminating NUL is not part of the piece.\<close>

definition fgets :: "nat \<Rightarrow> string \<Rightarrow> (string \<times> string) option" where
  "fgets n content =
     (if content = [] then None
      else let k = min (n - 1) (line_end content) in Some (take k content, drop k content))"

lemma line_end_pos: "content \<noteq> [] \<Longrightarrow> 0 < line_end content"
  by (cases content) (auto simp: line_end_def)

lemma fgets_shorter: "2 \<le> n \<Longrightarrow> fgets n content = Some (l, rest) \<Longrightarrow> length rest < length content"
  using line_end_pos [of content] by (auto simp: fgets_def Let_def split: if_splits)

text \<open>The chunks that the loop \<open>while (fgets (line, sizeof (line), fp))\<close> sees.\<close>

function fgets_all :: "string \<Rightarrow> string list" where
  "fgets_all content =
     (case fgets LINE_SIZE content of None \<Rightarrow> [] | Some (l, rest) \<Rightarrow> l # fgets_all rest)"
  by pat_completeness auto
termination
  by (relation "measure length") (auto intro: fgets_shorter [of LINE_SIZE] simp: LINE_SIZE_def)

declare fgets_all.simps [simp del]

text \<open>Removing the newline; a piece that starts with a NUL makes the test read before the buffer.\<close>

definition chomp :: "string \<Rightarrow> string option" where
  "chomp piece =
     (let line = c_str piece
      in if line = [] then None else Some (if last line = LF then butlast line else line))"

section \<open>URLs\<close>

definition parse_url :: "string \<Rightarrow> (string \<times> int \<times> string) option" where
  "parse_url line =
     (if strncmp ''http://'' line 7 \<noteq> 0 then None
      else
        let after = drop 7 line;
            host = takeWhile (\<lambda>c. c \<noteq> CHR '':'' \<and> c \<noteq> CHR ''/'') after;
            cp = drop (length host) after;
            (prt, cp') = (case cp of
                c # cs \<Rightarrow> if c = CHR '':'' then (take_bit 16 (atoi cs), dropWhile (\<lambda>c. c \<noteq> CHR ''/'') cs) else (80, cp)
              | [] \<Rightarrow> (80, cp))
        in Some (host, prt, if cp' = [] then ''/'' else cp'))"

section \<open>Addresses\<close>

definition AF_INET :: int where "AF_INET = 2"
definition AF_INET6 :: int where "AF_INET6 = 10"

text \<open>\<open>sizeof (struct sockaddr_in6)\<close>, the size of the address in a table entry.\<close>

definition SA_SIZE :: nat where "SA_SIZE = 28"

record addrinfo =
  ai_family :: int
  ai_socktype :: int
  ai_protocol :: int
  ai_addrlen :: nat
  ai_addr :: string

type_synonym getaddrinfo = "string \<Rightarrow> string \<Rightarrow> int + addrinfo list"

text \<open>Storing the address that was chosen.\<close>

definition use_address :: "string \<Rightarrow> int \<Rightarrow> addrinfo \<Rightarrow> load \<Rightarrow> load option" where
  "use_address host u ai s =
     (if SA_SIZE < ai_addrlen ai
      then Some (exit_with 1 (print (Stderr ''%s - sockaddr too small (%lu < %lu)''
                   [S host, D (int SA_SIZE), D (int (ai_addrlen ai))]) s))
      else if length (ai_addr ai) < ai_addrlen ai then None
      else upd_url u (\<lambda>r. r\<lparr>sock_family := ai_family ai, sock_type := ai_socktype ai, sock_protocol := ai_protocol ai,
               u_sa_len := int (ai_addrlen ai),
               u_sa_in := take (ai_addrlen ai) (ai_addr ai) @ drop (ai_addrlen ai) (u_sa_in r)\<rparr>) s)"

definition lookup_address :: "getaddrinfo \<Rightarrow> int \<Rightarrow> load \<Rightarrow> load option" where
  "lookup_address gai u s = do {
     s \<leftarrow> upd_url u (\<lambda>r. r\<lparr>u_sa_len := int SA_SIZE, u_sa_in := replicate SA_SIZE NUL\<rparr>) s;
     r \<leftarrow> get_url u s;
     let host = (if do_proxy (opt s) then proxy_hostname (opt s) else hostname r);
     let prt = (if do_proxy (opt s) then proxy_port (opt s) else port r);
     case gai host (print_d prt) of
       Inl e \<Rightarrow> Some (exit_with 1 (print (Stderr ''%s: getaddrinfo %s - %s'' [S (argv0 s), S host, D e]) s))
     | Inr ais \<Rightarrow>
         (case find (\<lambda>a. ai_family a = AF_INET) ais of
            Some aiv4 \<Rightarrow> use_address host u aiv4 s
          | None \<Rightarrow>
              (case find (\<lambda>a. ai_family a = AF_INET6) ais of
                 Some aiv6 \<Rightarrow> use_address host u aiv6 s
               | None \<Rightarrow> Some (exit_with 1
                   (print (Stderr ''%s: no valid address found for host %s'' [S (argv0 s), S host]) s))))
   }"

section \<open>The URL file\<close>

text \<open>Room for one more entry.\<close>

definition url_room :: "load \<Rightarrow> load" where
  "url_room s =
     (if int (length (urls s)) \<ge> max_urls s then realloc_check (s\<lparr>max_urls := max_urls s * 2\<rparr>) else s)"

definition new_url :: "string \<Rightarrow> string \<Rightarrow> int \<Rightarrow> string \<Rightarrow> url" where
  "new_url line host prt file =
     \<lparr>url_str = line, protocol = PROTO_HTTP, hostname = host, port = prt, u_sa_in = [], u_sa_len = 0,
      sock_family = 0, sock_type = 0, sock_protocol = 0, filename = file,
      got_bytes = False, u_bytes = 0, got_checksum = False, u_checksum = 0\<rparr>"

definition read_url_line :: "getaddrinfo \<Rightarrow> string \<Rightarrow> load \<Rightarrow> load option" where
  "read_url_line gai piece s =
     (case chomp piece of
        None \<Rightarrow> None
      | Some line \<Rightarrow>
          and_then (Some (url_room s)) (\<lambda>s.
          if int (length (urls s)) \<ge> max_urls s then None
          else and_then (Some (strdup_check s)) (\<lambda>s.
          (case parse_url line of
             None \<Rightarrow> Some (exit_with 1 (print (Stderr ''%s: unknown protocol - %s'' [S (argv0 s), S line]) s))
           | Some (host, prt, file) \<Rightarrow>
               and_then (Some (strdup_check s)) (\<lambda>s.
               and_then (Some (strdup_check s)) (\<lambda>s.
               lookup_address gai (int (length (urls s))) (s\<lparr>urls := urls s @ [new_url line host prt file]\<rparr>)))))))"

fun read_url_lines :: "getaddrinfo \<Rightarrow> string list \<Rightarrow> load \<Rightarrow> load option" where
  "read_url_lines gai [] s = Some s"
| "read_url_lines gai (l # ls) s = and_then (read_url_line gai l s) (read_url_lines gai ls)"

definition read_url_file :: "(string \<Rightarrow> string option) \<Rightarrow> getaddrinfo \<Rightarrow> string \<Rightarrow> load \<Rightarrow> load option" where
  "read_url_file fs gai url_file s =
     (case fs url_file of
        None \<Rightarrow> Some (exit_with 1 (print (Perror url_file) s))
      | Some content \<Rightarrow>
          and_then (Some (malloc_check (s\<lparr>max_urls := 100\<rparr>))) (\<lambda>s.
          read_url_lines gai (fgets_all content) (s\<lparr>urls := []\<rparr>)))"

section \<open>The file of source addresses\<close>

definition sip_room :: "load \<Rightarrow> load" where
  "sip_room s =
     (if int (length (sips s)) \<ge> max_sips s then realloc_check (s\<lparr>max_sips := max_sips s * 2\<rparr>) else s)"

definition read_sip_line :: "(string \<Rightarrow> int option) \<Rightarrow> string \<Rightarrow> load \<Rightarrow> load option" where
  "read_sip_line inet_aton piece s =
     (case chomp piece of
        None \<Rightarrow> None
      | Some line \<Rightarrow>
          and_then (Some (sip_room s)) (\<lambda>s.
          if int (length (sips s)) \<ge> max_sips s then None
          else and_then (Some (strdup_check s)) (\<lambda>s.
          (case inet_aton line of
             None \<Rightarrow> Some (exit_with 1
               (print (Stderr ''%s: cannot convert source IP address %s'' [S (argv0 s), S line]) s))
           | Some a \<Rightarrow> Some (s\<lparr>sips := sips s @ [\<lparr>sip_str = line,
               sip_sa_in = \<lparr>sin_family = AF_INET, sin_port = 0, sin_addr = a\<rparr>\<rparr>]\<rparr>)))))"

fun read_sip_lines :: "(string \<Rightarrow> int option) \<Rightarrow> string list \<Rightarrow> load \<Rightarrow> load option" where
  "read_sip_lines inet_aton [] s = Some s"
| "read_sip_lines inet_aton (l # ls) s = and_then (read_sip_line inet_aton l s) (read_sip_lines inet_aton ls)"

definition read_sip_file :: "(string \<Rightarrow> string option) \<Rightarrow> (string \<Rightarrow> int option) \<Rightarrow> string \<Rightarrow> load \<Rightarrow> load option" where
  "read_sip_file fs inet_aton file s =
     (case fs file of
        None \<Rightarrow> Some (exit_with 1 (print (Perror file) s))
      | Some content \<Rightarrow>
          and_then (Some (malloc_check (s\<lparr>max_sips := 100\<rparr>))) (\<lambda>s.
          read_sip_lines inet_aton (fgets_all content) (s\<lparr>sips := []\<rparr>)))"

end
