(* ===== verification/Load_Header.thy ===== *)
theory Load_Header
  imports Load_Data
begin

text \<open>
  The header state machine of \<open>handle_read\<close>: one step per byte, until the blank line. The steps are
  grouped as in the source: the first line, line starts and line ends, the letters of
  \<open>Content-Length\<close>, its value. A step has no result when a number leaves the range of its type.
\<close>

definition INT_MAX :: int where "INT_MAX = 2 ^ 31 - 1"
definition LONG_MAX :: int where "LONG_MAX = 2 ^ 63 - 1"

definition set_hd :: "hdst \<Rightarrow> connection \<Rightarrow> connection" where
  "set_hd h c = c\<lparr>header_state := h\<rparr>"

text \<open>The cases for a line end that most states share.\<close>

definition eol_or :: "char \<Rightarrow> hdst \<Rightarrow> connection \<Rightarrow> connection" where
  "eol_or ch h c = set_hd (if ch = LF then HDST_LF else if ch = CR then HDST_CR else h) c"

definition is_blank :: "char \<Rightarrow> bool" where
  "is_blank ch \<longleftrightarrow> ch = CHR '' '' \<or> ch = TAB"

definition hd_protocol :: "char \<Rightarrow> connection \<Rightarrow> connection" where
  "hd_protocol ch c =
     (if is_blank ch then set_hd HDST_LINE1_WHITESPACE c else eol_or ch HDST_LINE1_PROTOCOL c)"

definition hd_whitespace :: "char \<Rightarrow> connection \<Rightarrow> connection" where
  "hd_whitespace ch c =
     (if is_blank ch then c
      else if isdigit ch then set_hd HDST_LINE1_STATUS (c\<lparr>http_status := digit_val ch\<rparr>)
      else eol_or ch HDST_TEXT c)"

text \<open>The next digit of a number, unless it overflows.\<close>

definition next_digit :: "int \<Rightarrow> int \<Rightarrow> char \<Rightarrow> int option" where
  "next_digit mx n ch = (if n * 10 + uchar ch \<le> mx then Some (n * 10 + uchar ch - 48) else None)"

definition hd_status :: "char \<Rightarrow> connection \<Rightarrow> connection option" where
  "hd_status ch c =
     (if isdigit ch then map_option (\<lambda>n. c\<lparr>http_status := n\<rparr>) (next_digit INT_MAX (http_status c) ch)
      else Some (eol_or ch HDST_TEXT c))"

definition is_c :: "char \<Rightarrow> bool" where
  "is_c ch \<longleftrightarrow> ch = CHR ''C'' \<or> ch = CHR ''c''"

definition start_body :: "connection \<Rightarrow> connection" where
  "start_body c = c\<lparr>conn_state := CNST_READING\<rparr>"

definition hd_bol :: "char \<Rightarrow> connection \<Rightarrow> connection" where
  "hd_bol ch c = (if is_c ch then set_hd HDST_C c else eol_or ch HDST_TEXT c)"

definition hd_text :: "char \<Rightarrow> connection \<Rightarrow> connection" where
  "hd_text ch c = eol_or ch HDST_TEXT c"

definition hd_lf :: "char \<Rightarrow> connection \<Rightarrow> connection" where
  "hd_lf ch c =
     (if ch = LF then start_body c
      else if ch = CR then set_hd HDST_CR c
      else if is_c ch then set_hd HDST_C c else set_hd HDST_TEXT c)"

definition hd_cr :: "char \<Rightarrow> connection \<Rightarrow> connection" where
  "hd_cr ch c =
     (if ch = LF then set_hd HDST_CRLF c
      else if ch = CR then start_body c
      else if is_c ch then set_hd HDST_C c else set_hd HDST_TEXT c)"

definition hd_crlf :: "char \<Rightarrow> connection \<Rightarrow> connection" where
  "hd_crlf ch c =
     (if ch = LF then start_body c
      else if ch = CR then set_hd HDST_CRLFCR c
      else if is_c ch then set_hd HDST_C c else set_hd HDST_TEXT c)"

definition hd_crlfcr :: "char \<Rightarrow> connection \<Rightarrow> connection" where
  "hd_crlfcr ch c =
     (if ch = LF \<or> ch = CR then start_body c
      else if is_c ch then set_hd HDST_C c else set_hd HDST_TEXT c)"

text \<open>A state that waits for one letter, in either case.\<close>

definition expect :: "char \<Rightarrow> char \<Rightarrow> hdst \<Rightarrow> char \<Rightarrow> connection \<Rightarrow> connection" where
  "expect up lo nxt ch c = (if ch = up \<or> ch = lo then set_hd nxt c else eol_or ch HDST_TEXT c)"

definition hd_content :: "char \<Rightarrow> connection \<Rightarrow> connection" where
  "hd_content ch c =
     (case header_state c of
        HDST_C \<Rightarrow> expect (CHR ''O'') (CHR ''o'') HDST_CO ch c
      | HDST_CO \<Rightarrow> expect (CHR ''N'') (CHR ''n'') HDST_CON ch c
      | HDST_CON \<Rightarrow> expect (CHR ''T'') (CHR ''t'') HDST_CONT ch c
      | HDST_CONT \<Rightarrow> expect (CHR ''E'') (CHR ''e'') HDST_CONTE ch c
      | HDST_CONTE \<Rightarrow> expect (CHR ''N'') (CHR ''n'') HDST_CONTEN ch c
      | HDST_CONTEN \<Rightarrow> expect (CHR ''T'') (CHR ''t'') HDST_CONTENT ch c
      | HDST_CONTENT \<Rightarrow> expect (CHR ''-'') (CHR ''-'') HDST_CONTENT_DASH ch c
      | _ \<Rightarrow> c)"

definition hd_length :: "char \<Rightarrow> connection \<Rightarrow> connection" where
  "hd_length ch c =
     (case header_state c of
        HDST_CONTENT_DASH \<Rightarrow> expect (CHR ''L'') (CHR ''l'') HDST_CONTENT_L ch c
      | HDST_CONTENT_L \<Rightarrow> expect (CHR ''E'') (CHR ''e'') HDST_CONTENT_LE ch c
      | HDST_CONTENT_LE \<Rightarrow> expect (CHR ''N'') (CHR ''n'') HDST_CONTENT_LEN ch c
      | HDST_CONTENT_LEN \<Rightarrow> expect (CHR ''G'') (CHR ''g'') HDST_CONTENT_LENG ch c
      | HDST_CONTENT_LENG \<Rightarrow> expect (CHR ''T'') (CHR ''t'') HDST_CONTENT_LENGT ch c
      | HDST_CONTENT_LENGT \<Rightarrow> expect (CHR ''H'') (CHR ''h'') HDST_CONTENT_LENGTH ch c
      | HDST_CONTENT_LENGTH \<Rightarrow> expect (CHR '':'') (CHR '':'') HDST_CONTENT_LENGTH_COLON ch c
      | _ \<Rightarrow> c)"

definition hd_colon :: "char \<Rightarrow> connection \<Rightarrow> connection" where
  "hd_colon ch c =
     (if is_blank ch then set_hd HDST_CONTENT_LENGTH_COLON_WHITESPACE c else eol_or ch HDST_TEXT c)"

definition hd_colon_ws :: "char \<Rightarrow> connection \<Rightarrow> connection" where
  "hd_colon_ws ch c =
     (if is_blank ch then c
      else if isdigit ch
      then set_hd HDST_CONTENT_LENGTH_COLON_WHITESPACE_NUM (c\<lparr>content_length := digit_val ch\<rparr>)
      else eol_or ch HDST_TEXT c)"

definition hd_colon_num :: "char \<Rightarrow> connection \<Rightarrow> connection option" where
  "hd_colon_num ch c =
     (if isdigit ch then map_option (\<lambda>n. c\<lparr>content_length := n\<rparr>) (next_digit LONG_MAX (content_length c) ch)
      else Some (eol_or ch HDST_TEXT c))"

definition header_step :: "char \<Rightarrow> connection \<Rightarrow> connection option" where
  "header_step ch c =
     (case header_state c of
        HDST_LINE1_PROTOCOL \<Rightarrow> Some (hd_protocol ch c)
      | HDST_LINE1_WHITESPACE \<Rightarrow> Some (hd_whitespace ch c)
      | HDST_LINE1_STATUS \<Rightarrow> hd_status ch c
      | HDST_BOL \<Rightarrow> Some (hd_bol ch c)
      | HDST_TEXT \<Rightarrow> Some (hd_text ch c)
      | HDST_LF \<Rightarrow> Some (hd_lf ch c)
      | HDST_CR \<Rightarrow> Some (hd_cr ch c)
      | HDST_CRLF \<Rightarrow> Some (hd_crlf ch c)
      | HDST_CRLFCR \<Rightarrow> Some (hd_crlfcr ch c)
      | HDST_CONTENT_LENGTH_COLON \<Rightarrow> Some (hd_colon ch c)
      | HDST_CONTENT_LENGTH_COLON_WHITESPACE \<Rightarrow> Some (hd_colon_ws ch c)
      | HDST_CONTENT_LENGTH_COLON_WHITESPACE_NUM \<Rightarrow> hd_colon_num ch c
      | HDST_C \<Rightarrow> Some (hd_content ch c) | HDST_CO \<Rightarrow> Some (hd_content ch c) | HDST_CON \<Rightarrow> Some (hd_content ch c)
      | HDST_CONT \<Rightarrow> Some (hd_content ch c) | HDST_CONTE \<Rightarrow> Some (hd_content ch c)
      | HDST_CONTEN \<Rightarrow> Some (hd_content ch c) | HDST_CONTENT \<Rightarrow> Some (hd_content ch c)
      | _ \<Rightarrow> Some (hd_length ch c))"

text \<open>The inner loop: the bytes after the headers are returned.\<close>

fun header_loop :: "string \<Rightarrow> connection \<Rightarrow> (connection \<times> string) option" where
  "header_loop buf c =
     (if conn_state c \<noteq> CNST_HEADERS then Some (c, buf)
      else case buf of
          [] \<Rightarrow> Some (c, [])
        | ch # rest \<Rightarrow> (case header_step ch c of None \<Rightarrow> None | Some c' \<Rightarrow> header_loop rest c'))"

declare header_loop.simps [simp del]

lemmas hd_steps = hd_protocol_def hd_whitespace_def hd_status_def hd_bol_def hd_text_def hd_lf_def hd_cr_def hd_crlf_def
  hd_crlfcr_def hd_content_def hd_length_def hd_colon_def hd_colon_ws_def hd_colon_num_def expect_def

end
