(* ===== verification/Load_Conn.thy ===== *)
theory Load_Conn
  imports Load_Urls Load_Header
begin

text \<open>
  The connections of \<open>http_load.c\<close>: starting, connecting, reading, closing, the timer procedures and the
  final report.
\<close>

unbundle bit_operations_syntax

section \<open>Closing a connection\<close>

definition cancel_timer :: "addr option \<Rightarrow> load \<Rightarrow> load option" where
  "cancel_timer t s = (case t of None \<Rightarrow> Some s | Some a \<Rightarrow> tmr_cancel a s)"

definition connect_stats :: "connection \<Rightarrow> stats \<Rightarrow> stats" where
  "connect_stats c t =
     (if did_connect c
      then let usecs = delta_timeval (connect_at c) (request_at c)
           in t\<lparr>total_connect_usecs := total_connect_usecs t + usecs,
                max_connect_usecs := max (max_connect_usecs t) usecs,
                min_connect_usecs := min (min_connect_usecs t) usecs,
                connects_completed := connects_completed t + 1\<rparr>
      else t)"

definition response_stats :: "connection \<Rightarrow> stats \<Rightarrow> stats" where
  "response_stats c t =
     (if did_response c
      then let usecs = delta_timeval (request_at c) (response_at c)
           in t\<lparr>total_response_usecs := total_response_usecs t + usecs,
                max_response_usecs := max (max_response_usecs t) usecs,
                min_response_usecs := min (min_response_usecs t) usecs,
                responses_completed := responses_completed t + 1\<rparr>
      else t)"

definition status_stats :: "connection \<Rightarrow> stats \<Rightarrow> stats" where
  "status_stats c t =
     (if 0 \<le> http_status c \<and> http_status c \<le> 999
      then t\<lparr>http_status_counts :=
               (http_status_counts t)[nat (http_status c) := http_status_counts t ! nat (http_status c) + 1]\<rparr>
      else t)"

definition close_stats :: "connection \<Rightarrow> stats \<Rightarrow> stats" where
  "close_stats c t =
     status_stats c (response_stats c (connect_stats c
       (t\<lparr>fetches_completed := fetches_completed t + 1, total_bytes := total_bytes t + c_bytes c\<rparr>)))"

text \<open>The first fetch of a URL fixes the checksum or byte count that later fetches are compared with.\<close>

definition verify_checksum :: "connection \<Rightarrow> load \<Rightarrow> load option" where
  "verify_checksum c s = do {
     u \<leftarrow> get_url (url_num c) s;
     if \<not> got_checksum u then upd_url (url_num c) (\<lambda>u. u\<lparr>u_checksum := c_checksum c, got_checksum := True\<rparr>) s
     else if c_checksum c \<noteq> u_checksum u
     then Some (print (Stderr ''%s: checksum wrong'' [S (url_str u)])
       (s\<lparr>stat := (stat s)\<lparr>total_badchecksums := total_badchecksums (stat s) + 1\<rparr>\<rparr>))
     else Some s
   }"

definition verify_bytes :: "connection \<Rightarrow> load \<Rightarrow> load option" where
  "verify_bytes c s = do {
     u \<leftarrow> get_url (url_num c) s;
     if \<not> got_bytes u then upd_url (url_num c) (\<lambda>u. u\<lparr>u_bytes := c_bytes c, got_bytes := True\<rparr>) s
     else if c_bytes c \<noteq> u_bytes u
     then Some (print (Stderr ''%s: byte count wrong'' [S (url_str u)])
       (s\<lparr>stat := (stat s)\<lparr>total_badbytes := total_badbytes (stat s) + 1\<rparr>\<rparr>))
     else Some s
   }"

definition close_connection :: "int \<Rightarrow> load \<Rightarrow> load option" where
  "close_connection cnum s = do {
     c \<leftarrow> get_conn cnum s;
     s \<leftarrow> upd_conn cnum (\<lambda>c. c\<lparr>conn_state := CNST_FREE\<rparr>) (closefd (conn_fd c) s);
     s \<leftarrow> cancel_timer (idle_timer c) s;
     s \<leftarrow> cancel_timer (wakeup_timer c) s;
     let s = s\<lparr>num_connections := num_connections s - 1, stat := close_stats c (stat s)\<rparr>;
     if do_checksum (opt s) then verify_checksum c s else verify_bytes c s
   }"

section \<open>The request\<close>

definition REQ_SIZE :: nat where "REQ_SIZE = 600"

text \<open>\<open>snprintf (&buf[bytes], sizeof (buf) - bytes, \<dots>)\<close>: the size is unsigned, so that a position behind the
  buffer gives a huge size and the write leaves the buffer. The position moves by the length of the whole text,
  written or not.\<close>

definition snprintf_at :: "string \<Rightarrow> string \<times> nat \<Rightarrow> (string \<times> nat) option" where
  "snprintf_at text b =
     (case b of (buf, bytes) \<Rightarrow>
        if bytes > length buf then None
        else if bytes = length buf then Some (buf, bytes + length text)
        else let k = min (length text) (length buf - bytes - 1)
             in Some (take bytes buf @ take k text @ NUL # drop (bytes + k + 1) buf, bytes + length text))"

definition request_line :: "options \<Rightarrow> url \<Rightarrow> string" where
  "request_line o1 u =
     (if do_proxy o1
      then ''GET http://'' @ take 500 (hostname u) @ '':'' @ print_d (port u) @ take 500 (filename u)
      else ''GET '' @ take 500 (filename u)) @ '' HTTP/1.0'' @ [CR, LF]"

definition request_parts :: "options \<Rightarrow> url \<Rightarrow> string list" where
  "request_parts o1 u =
     [request_line o1 u, ''Host: '' @ hostname u @ [CR, LF], ''User-Agent: '' @ HTTP_LOAD_VERSION @ [CR, LF], [CR, LF]]"

text \<open>The buffer is not initialised; every byte that is sent has been written before.\<close>

definition format_request :: "options \<Rightarrow> url \<Rightarrow> (string \<times> nat) option" where
  "format_request o1 u =
     fold (\<lambda>t r. Option.bind r (snprintf_at t)) (request_parts o1 u) (Some (replicate REQ_SIZE NUL, 0))"

definition send_request :: "int \<Rightarrow> load \<Rightarrow> load option" where
  "send_request cnum s = do {
     c \<leftarrow> get_conn cnum s;
     s \<leftarrow> upd_conn cnum (\<lambda>c. c\<lparr>did_connect := True\<rparr>) s;
     u \<leftarrow> get_url (url_num c) s;
     (buf, bytes) \<leftarrow> format_request (opt s) u;
     s \<leftarrow> upd_conn cnum (\<lambda>c. c\<lparr>request_at := now s\<rparr>) s;
     if bytes > length buf then None
     else (case sysc (sys_write (conn_fd c) (take bytes buf)) s of (r, s) \<Rightarrow>
       if r < 0 then close_connection cnum (print (Perror (url_str u)) s)
       else upd_conn cnum (\<lambda>c. c\<lparr>conn_state := CNST_HEADERS, header_state := HDST_LINE1_PROTOCOL\<rparr>) s)
   }"

section \<open>Connecting\<close>

text \<open>The second \<open>connect\<close>, which tells whether the first one succeeded.\<close>

definition connect_failed :: "int \<Rightarrow> int \<Rightarrow> string \<Rightarrow> load \<Rightarrow> load option" where
  "connect_failed cnum err name s =
     (if err = EINVAL
      then (case sysc sys_getsockopt s of (r, s) \<Rightarrow>
              close_connection cnum
                (print (if r < 0 then Stderr ''%s: unknown connect error'' [S name] else Stderr ''%s: %s'' [S name, D r]) s))
      else close_connection cnum (print (Perror name) s))"

definition handle_connect :: "int \<Rightarrow> bool \<Rightarrow> load \<Rightarrow> load option" where
  "handle_connect cnum double_check s =
     (if double_check
      then (case sysc sys_connect s of (r, s) \<Rightarrow>
              if r < 0 \<and> errno (sys s) \<noteq> EISCONN
              then do {
                c \<leftarrow> get_conn cnum s;
                u \<leftarrow> get_url (url_num c) s;
                connect_failed cnum (errno (sys s)) (url_str u) s
              }
              else send_request cnum s)
      else send_request cnum s)"

text \<open>The size of the address in a connection, a \<open>struct sockaddr_in\<close>.\<close>

definition CONN_SA_SIZE :: nat where "CONN_SA_SIZE = 16"

definition fill_slot :: "int \<Rightarrow> addr option \<Rightarrow> timeval \<Rightarrow> connection \<Rightarrow> connection" where
  "fill_slot u t tv c =
     c\<lparr>url_num := u, started_at := tv, did_connect := False, did_response := False, idle_timer := t,
       wakeup_timer := None, content_length := -1, c_bytes := 0, c_checksum := 0, http_status := -1\<rparr>"

text \<open>An error after the socket was made: report it and close the socket. The slot stays free and keeps its timer.\<close>

definition socket_error :: "string \<Rightarrow> int \<Rightarrow> load \<Rightarrow> load option" where
  "socket_error name fd s = Some (closefd fd (print (Perror name) s))"

definition connect_socket :: "int \<Rightarrow> url \<Rightarrow> int \<Rightarrow> load \<Rightarrow> load option" where
  "connect_socket cnum u fd s =
     (if u_sa_len u > int CONN_SA_SIZE then None
      else do {
        s \<leftarrow> upd_conn cnum (\<lambda>c. c\<lparr>c_sa_len := u_sa_len u,
               c_sa_in := take (nat (u_sa_len u)) (u_sa_in u) @ drop (nat (u_sa_len u)) (c_sa_in c),
               connect_at := now s\<rparr>) s;
        (case sysc sys_connect s of (r, s) \<Rightarrow>
          if r < 0
          then if errno (sys s) = EINPROGRESS then upd_conn cnum (\<lambda>c. c\<lparr>conn_state := CNST_CONNECTING\<rparr>) s
               else socket_error (url_str u) fd s
          else handle_connect cnum False (gettimeofday s))
      })"

definition bind_source :: "int \<Rightarrow> load \<Rightarrow> bool \<times> load" where
  "bind_source fd s =
     (if sips s = [] then (True, s)
      else (case random s of (r, s) \<Rightarrow>
        (case sysc (sys_bind fd (sip_sa_in (sips s ! nat (r mod int (length (sips s)))))) s of (r, s) \<Rightarrow> (0 \<le> r, s))))"

definition open_socket :: "int \<Rightarrow> url \<Rightarrow> load \<Rightarrow> load option" where
  "open_socket cnum u s =
     (case sysc sys_socket s of (fd, s) \<Rightarrow> do {
        s \<leftarrow> upd_conn cnum (\<lambda>c. c\<lparr>conn_fd := fd\<rparr>) s;
        if fd < 0 then Some (print (Perror (url_str u)) s)
        else (case sysc (sys_getfl fd) s of (flg, s) \<Rightarrow>
          if flg = -1 then socket_error (url_str u) fd s
          else (case sysc (sys_setfl fd (flg OR O_NONBLOCK)) s of (r, s) \<Rightarrow>
            if r < 0 then socket_error (url_str u) fd s
            else (case bind_source fd s of (ok, s) \<Rightarrow>
              if \<not> ok then socket_error ''binding local address'' fd s
              else connect_socket cnum u fd s)))
      })"

definition start_socket :: "int \<Rightarrow> int \<Rightarrow> load \<Rightarrow> load option" where
  "start_socket u cnum s = do {
     (t, s) \<leftarrow> tmr_create (Some (now s)) Idle_connection cnum (idle_secs (opt s) * 1000) False s;
     s \<leftarrow> upd_conn cnum (fill_slot u t (now s)) s;
     r \<leftarrow> get_url u s;
     open_socket cnum r s
   }"

section \<open>The report\<close>

definition print_if :: "bool \<Rightarrow> print \<Rightarrow> load \<Rightarrow> load" where
  "print_if b p s = (if b then print p s else s)"

definition flt :: "int \<Rightarrow> rat" where "flt n = to_float (of_int n)"

definition fdiv :: "rat \<Rightarrow> rat \<Rightarrow> rat" where "fdiv x y = to_float (x / y)"

definition ms :: "rat \<Rightarrow> rat" where "ms x = to_double (x / 1000)"

definition report_fetches :: "rat \<Rightarrow> load \<Rightarrow> load" where
  "report_fetches elapsed s =
     (let t = stat s
      in print_if (elapsed > to_double (1 / 100)) (Stdout ''%g fetches/sec, %g bytes/sec''
             [G (fdiv (flt (fetches_completed t)) elapsed), G (fdiv (flt (total_bytes t)) elapsed)])
         (print_if (fetches_completed t > 0) (Stdout ''%g mean bytes/connection''
             [G (fdiv (flt (total_bytes t)) (flt (fetches_completed t)))])
         (print (Stdout ''%d fetches, %d max parallel, %g bytes, in %g seconds''
             [D (fetches_completed t), D (max_parallel t), G (flt (total_bytes t)), G elapsed]) s)))"

definition report_times :: "load \<Rightarrow> load" where
  "report_times s =
     (let t = stat s
      in print_if (responses_completed t > 0) (Stdout ''msecs/first-response: %g mean, %g max, %g min''
             [G (ms (fdiv (flt (total_response_usecs t)) (flt (responses_completed t)))),
              G (ms (flt (max_response_usecs t))), G (ms (flt (min_response_usecs t)))])
         (print_if (connects_completed t > 0) (Stdout ''msecs/connect: %g mean, %g max, %g min''
             [G (ms (fdiv (flt (total_connect_usecs t)) (flt (connects_completed t)))),
              G (ms (flt (max_connect_usecs t))), G (ms (flt (min_connect_usecs t)))]) s))"

definition report_errors :: "load \<Rightarrow> load" where
  "report_errors s =
     (let t = stat s
      in if do_checksum (opt s)
         then print_if (total_badchecksums t \<noteq> 0) (Stdout ''%d bad checksums'' [D (total_badchecksums t)])
           (print_if (total_timeouts t \<noteq> 0) (Stdout ''%d timeouts'' [D (total_timeouts t)]) s)
         else print_if (total_badbytes t \<noteq> 0) (Stdout ''%d bad byte counts'' [D (total_badbytes t)])
           (print_if (total_timeouts t \<noteq> 0) (Stdout ''%d timeouts'' [D (total_timeouts t)]) s))"

definition report_codes :: "load \<Rightarrow> load" where
  "report_codes s =
     fold (\<lambda>i s. let n = http_status_counts (stat s) ! i
                 in print_if (n > 0) (Stdout ''  code %03d -- %d'' [D (int i), D n]) s)
       [0..<1000] (print (Stdout ''HTTP response codes:'' []) s)"

definition finish :: "load \<Rightarrow> load option" where
  "finish s = do {
     let elapsed = elapsed_secs (delta_timeval (start_at s) (now s));
     s \<leftarrow> tmr_destroy (report_codes (report_errors (report_times (report_fetches elapsed s))));
     Some (exit_with 0 s)
   }"

section \<open>Starting a connection\<close>

definition is_free :: "load \<Rightarrow> nat \<Rightarrow> bool" where
  "is_free s i \<longleftrightarrow> conn_state (connections s ! i) = CNST_FREE"

definition count_started :: "int \<Rightarrow> load \<Rightarrow> load option" where
  "count_started cnum s = do {
     c \<leftarrow> get_conn cnum s;
     let s = (if conn_state c \<noteq> CNST_FREE
              then s\<lparr>num_connections := num_connections s + 1,
                     stat := (stat s)\<lparr>max_parallel := max (max_parallel (stat s)) (num_connections s + 1)\<rparr>\<rparr>
              else s);
     Some (s\<lparr>stat := (stat s)\<lparr>fetches_started := fetches_started (stat s) + 1\<rparr>\<rparr>)
   }"

definition start_connection :: "load \<Rightarrow> load option" where
  "start_connection s =
     (case find (is_free s) [0..<length (connections s)] of
        Some cnum \<Rightarrow>
          (case random s of (r, s) \<Rightarrow>
             if urls s = [] then None
             else and_then (start_socket (r mod int (length (urls s))) (int cnum) s) (count_started (int cnum)))
      | None \<Rightarrow> finish (print (Stderr ''%s: ran out of connection slots'' [S (argv0 s)]) s))"

section \<open>Timer procedures\<close>

definition idle_connection :: "int \<Rightarrow> load \<Rightarrow> load option" where
  "idle_connection cnum s = do {
     s \<leftarrow> upd_conn cnum (\<lambda>c. c\<lparr>idle_timer := None\<rparr>) s;
     c \<leftarrow> get_conn cnum s;
     u \<leftarrow> get_url (url_num c) s;
     s \<leftarrow> close_connection cnum (print (Stderr ''%s: timed out'' [S (url_str u)]) s);
     Some (s\<lparr>stat := (stat s)\<lparr>total_timeouts := total_timeouts (stat s) + 1\<rparr>\<rparr>)
   }"

definition wakeup_connection :: "int \<Rightarrow> load \<Rightarrow> load option" where
  "wakeup_connection cnum s = upd_conn cnum (\<lambda>c. c\<lparr>wakeup_timer := None, conn_state := CNST_READING\<rparr>) s"

definition progress_report :: "load \<Rightarrow> load option" where
  "progress_report s =
     Some (print (Stderr ''--- %g secs, %d fetches started, %d completed, %d current''
       [G (elapsed_secs (delta_timeval (start_at s) (now s))), D (fetches_started (stat s)),
        D (fetches_completed (stat s)), D (num_connections s)]) s)"

definition start_timer :: "load \<Rightarrow> load option" where
  "start_timer s = and_then (start_connection s) (\<lambda>s.
     if do_jitter (opt s)
     then (case random s of (r, s) \<Rightarrow>
             if range_interval s = 0 then None
             else do {
               (_, s) \<leftarrow> tmr_create (Some (now s)) Start_timer 0 (r smod range_interval s + low_interval s) False s;
               Some s
             })
     else Some s)"

definition end_timer :: "load \<Rightarrow> load option" where
  "end_timer s = finish s"

definition timer_call :: "proc \<Rightarrow> int \<Rightarrow> load \<Rightarrow> load option" where
  "timer_call p d s =
     (case p of
        Idle_connection \<Rightarrow> idle_connection d s
      | Wakeup_connection \<Rightarrow> wakeup_connection d s
      | Progress_report \<Rightarrow> progress_report s
      | Start_timer \<Rightarrow> start_timer s
      | End_timer \<Rightarrow> end_timer s)"

section \<open>Reading\<close>

definition READ_SIZE :: nat where "READ_SIZE = 30000"

definition bytes_to_read :: "options \<Rightarrow> int" where
  "bytes_to_read o1 = (if do_throttle o1 then trunc (throttle o1 / 2) else int READ_SIZE)"

fun checksum_loop :: "int \<Rightarrow> string \<Rightarrow> int" where
  "checksum_loop cs [] = cs"
| "checksum_loop cs (ch # buf) =
     checksum_loop (((if odd cs then cs div 2 + 0x8000 else cs div 2) + schar ch) AND 0xffff) buf"

text \<open>Too many bytes per second: pause for a second.\<close>

definition too_fast :: "load \<Rightarrow> connection \<Rightarrow> bool" where
  "too_fast s c =
     (let elapsed = elapsed_secs (delta_timeval (started_at c) (now s))
      in elapsed > to_double (1 / 100) \<and> fdiv (flt (c_bytes c)) elapsed > throttle (opt s))"

definition throttle_pause :: "int \<Rightarrow> load \<Rightarrow> load option" where
  "throttle_pause cnum s = do {
     c \<leftarrow> get_conn cnum s;
     if do_throttle (opt s) \<and> too_fast s c
     then do {
       s \<leftarrow> upd_conn cnum (\<lambda>c. c\<lparr>conn_state := CNST_PAUSING\<rparr>) s;
       (t, s) \<leftarrow> tmr_create (Some (now s)) Wakeup_connection cnum 1000 False s;
       upd_conn cnum (\<lambda>c. c\<lparr>wakeup_timer := t\<rparr>) s
     }
     else Some s
   }"

text \<open>The bytes of the body that one read delivered.\<close>

definition handle_body :: "int \<Rightarrow> string \<Rightarrow> load \<Rightarrow> load option" where
  "handle_body cnum buf s = do {
     s \<leftarrow> upd_conn cnum (\<lambda>c. c\<lparr>c_bytes := c_bytes c + int (length buf)\<rparr>) s;
     s \<leftarrow> throttle_pause cnum s;
     s \<leftarrow> (if do_checksum (opt s) then upd_conn cnum (\<lambda>c. c\<lparr>c_checksum := checksum_loop (c_checksum c) buf\<rparr>) s
           else Some s);
     c \<leftarrow> get_conn cnum s;
     if content_length c \<noteq> -1 \<and> c_bytes c \<ge> content_length c then close_connection cnum s else Some s
   }"

text \<open>The loop over the bytes that were read: the headers, then the body if any of it was read too. In any other
  state than the two of a connection that is being read, the loop would never end.\<close>

definition handle_bytes :: "int \<Rightarrow> string \<Rightarrow> load \<Rightarrow> load option" where
  "handle_bytes cnum buf s = do {
     c \<leftarrow> get_conn cnum s;
     case conn_state c of
       CNST_HEADERS \<Rightarrow> do {
         (c', rest) \<leftarrow> header_loop buf c;
         s \<leftarrow> upd_conn cnum (\<lambda>_. c') s;
         if rest = [] then Some s else handle_body cnum rest s
       }
     | CNST_READING \<Rightarrow> handle_body cnum buf s
     | _ \<Rightarrow> None
   }"

definition handle_read :: "int \<Rightarrow> load \<Rightarrow> load option" where
  "handle_read cnum s = do {
     c \<leftarrow> get_conn cnum s;
     t \<leftarrow> idle_timer c;
     s \<leftarrow> tmr_reset (now s) t s;
     let n = bytes_to_read (opt s);
     s \<leftarrow> (if did_response c then Some s
           else upd_conn cnum (\<lambda>c. c\<lparr>did_response := True, response_at := now s\<rparr>) s);
     if n < 0 \<or> int READ_SIZE < n then None
     else (case sys_read (conn_fd c) (nat n) (sys s) of (r, buf, w) \<Rightarrow>
       if r \<le> 0 then close_connection cnum (s\<lparr>sys := w\<rparr>)
       else handle_bytes cnum buf (s\<lparr>sys := w\<rparr>))
   }"

end
