(* ===== verification/Load_Main.thy ===== *)
theory Load_Main
  imports Load_Args Load_Conn
begin

text \<open>
  \<open>main\<close> of \<open>http_load.c\<close>: set-up and the event loop. What the environment decides is a parameter:
  the limits, the files, the name service, the content of freshly allocated memory, and for every
  \<open>select\<close> the descriptors that are ready.
\<close>

section \<open>Set-up\<close>

definition init_stats :: stats where
  "init_stats = \<lparr>fetches_started = 0, connects_completed = 0, responses_completed = 0, fetches_completed = 0,
     total_bytes = 0, total_connect_usecs = 0, max_connect_usecs = 0, min_connect_usecs = 1000000000,
     total_response_usecs = 0, max_response_usecs = 0, min_response_usecs = 1000000000,
     total_timeouts = 0, total_badbytes = 0, total_badchecksums = 0, max_parallel = 0,
     http_status_counts = replicate 1000 0\<rparr>"

text \<open>The connection table: its memory is not initialised but for the states.\<close>

definition init_connections :: "(nat \<Rightarrow> connection) \<Rightarrow> load \<Rightarrow> load option" where
  "init_connections junk s =
     (let s = (if start (opt s) = START_PARALLEL then s\<lparr>max_connections := start_parallel (opt s)\<rparr> else s)
      in and_then (Some (malloc_check s)) (\<lambda>s.
           Some (s\<lparr>connections := map (\<lambda>i. (junk i)\<lparr>conn_state := CNST_FREE\<rparr>) [0..<nat (max_connections s)],
                   num_connections := 0, stat := init_stats\<rparr>)))"

text \<open>A timer whose result is ignored.\<close>

definition add_timer :: "proc \<Rightarrow> int \<Rightarrow> bool \<Rightarrow> load \<Rightarrow> load option" where
  "add_timer p m per s = do { (_, s) \<leftarrow> tmr_create (Some (now s)) p 0 m per s; Some s }"

definition init_rate :: "load \<Rightarrow> load option" where
  "init_rate s =
     (let iv = 1000 sdiv start_rate (opt s);
          s = s\<lparr>start_interval := iv\<rparr>;
          s = (if do_jitter (opt s)
               then s\<lparr>low_interval := iv * 9 sdiv 10, range_interval := iv * 11 sdiv 10 - iv * 9 sdiv 10 + 1\<rparr> else s)
      in add_timer Start_timer iv (\<not> do_jitter (opt s)) s)"

definition init_timers :: "load \<Rightarrow> load option" where
  "init_timers s = do {
     let s = gettimeofday (tmr_init s);
     let s = s\<lparr>start_at := now s\<rparr>;
     s \<leftarrow> (if do_verbose (opt s) then add_timer Progress_report (PROGRESS_SECS * 1000) True s else Some s);
     s \<leftarrow> (if start (opt s) = START_RATE then init_rate s else Some s);
     (if end_at (opt s) = END_SECONDS then add_timer End_timer (end_seconds (opt s) * 1000) False s else Some s)
   }"

definition main_setup ::
  "(int \<times> int) option \<Rightarrow> (string \<Rightarrow> string option) \<Rightarrow> getaddrinfo \<Rightarrow> (string \<Rightarrow> int option) \<Rightarrow> (nat \<Rightarrow> connection) \<Rightarrow>
   string list \<Rightarrow> load \<Rightarrow> load option" where
  "main_setup limits fs gai inet_aton junk argv s =
     (let s = s\<lparr>argv0 := hd argv, max_connections := connection_limit limits\<rparr>
      in case parse_args (max_connections s) (tl argv) of
           Inl e \<Rightarrow> Some (arg_exit e s)
         | Inr (o1, url_file) \<Rightarrow>
             and_then (read_url_file fs gai url_file (s\<lparr>opt := o1\<rparr>)) (\<lambda>s.
             and_then (case sip_file (opt s) of None \<Rightarrow> Some s | Some f \<Rightarrow> read_sip_file fs inet_aton f s) (\<lambda>s.
             and_then (init_connections junk s) init_timers)))"

section \<open>The event loop\<close>

text \<open>At most 10 new connections per round, each followed by a run of the timers.\<close>

fun start_some :: "nat \<Rightarrow> load \<Rightarrow> load option" where
  "start_some 0 s = Some s"
| "start_some (Suc i) s =
     (if num_connections s < start_parallel (opt s) \<and>
         (end_at (opt s) \<noteq> END_FETCHES \<or> fetches_started (stat s) < end_fetches (opt s))
      then and_then (start_connection s) (\<lambda>s.
           and_then (tmr_run timer_call now (gettimeofday s)) (start_some i))
      else Some s)"

text \<open>A descriptor set has room for 1024 descriptors.\<close>

definition FD_SETSIZE :: int where "FD_SETSIZE = 1024"

definition fd_fits :: "int \<Rightarrow> bool" where
  "fd_fits fd \<longleftrightarrow> 0 \<le> fd \<and> fd < FD_SETSIZE"

definition wants_write :: "connection \<Rightarrow> bool" where
  "wants_write c \<longleftrightarrow> conn_state c = CNST_CONNECTING"

definition wants_read :: "connection \<Rightarrow> bool" where
  "wants_read c \<longleftrightarrow> conn_state c = CNST_HEADERS \<or> conn_state c = CNST_READING"

definition fdset :: "(connection \<Rightarrow> bool) \<Rightarrow> load \<Rightarrow> int list" where
  "fdset wants s = map conn_fd (filter wants (connections s))"

text \<open>One connection after the \<open>select\<close>, with the descriptors that it left in the sets.\<close>

definition service :: "int list \<Rightarrow> int list \<Rightarrow> int \<Rightarrow> load \<Rightarrow> load option" where
  "service rset wset cnum s = do {
     c \<leftarrow> get_conn cnum s;
     if wants_write c
     then if conn_fd c \<in> set wset then handle_connect cnum True s else Some s
     else if wants_read c
     then if conn_fd c \<in> set rset then handle_read cnum s else Some s
     else Some s
   }"

fun service_all :: "int list \<Rightarrow> int list \<Rightarrow> nat list \<Rightarrow> load \<Rightarrow> load option" where
  "service_all rset wset [] s = Some s"
| "service_all rset wset (i # is) s = and_then (service rset wset (int i) s) (service_all rset wset is)"

text \<open>One round of the loop; \<open>ready\<close> are the descriptors that are ready when \<open>select\<close> returns.\<close>

definition wait_ready :: "int list \<Rightarrow> load \<Rightarrow> load option" where
  "wait_ready ready s =
     (let rset = fdset wants_read s; wset = fdset wants_write s
      in if \<not> list_all fd_fits (rset @ wset) then None
         else do {
           _ \<leftarrow> tmr_timeout (now s) s;
           (case sysc sys_select s of (r, s) \<Rightarrow>
             if r < 0 then Some (exit_with 1 (print (Perror ''select'') s))
             else and_then
               (service_all (filter (\<lambda>fd. fd \<in> set ready) rset) (filter (\<lambda>fd. fd \<in> set ready) wset)
                  [0..<length (connections s)] (gettimeofday s))
               (tmr_run timer_call now))
         })"

definition main_round :: "int list \<Rightarrow> load \<Rightarrow> load option" where
  "main_round ready s =
     and_then (if end_at (opt s) = END_FETCHES \<and> fetches_completed (stat s) \<ge> end_fetches (opt s) then finish s else Some s) (\<lambda>s.
     and_then (if start (opt s) = START_PARALLEL then start_some 10 s else Some s)
       (wait_ready ready))"

text \<open>As many rounds as there are answers of \<open>select\<close>.\<close>

fun main_loop :: "int list list \<Rightarrow> load \<Rightarrow> load option" where
  "main_loop [] s = Some s"
| "main_loop (ready # rs) s = and_then (main_round ready s) (main_loop rs)"

end
