(* ===== verification/Load_Inv.thy ===== *)
theory Load_Inv
  imports Timers_Run Load_Main
begin

text \<open>
  The connection table and the timers of the load generator: every connection in use owns its idle
  timer and, while it pauses, its wake-up timer. The operations keep that, so that none of them touches
  a timer that is not scheduled. Every scheduled timer is of a kind that its procedure can handle: an idle timer
  names a slot that has been filled, a periodic timer has a period, wake-up timers come with throttling and
  start timers with a rate. The facts about timers come from the contract of the timer package.
\<close>

section \<open>Frames\<close>

text \<open>What the timer package leaves alone, in the terms of the load generator.\<close>

lemma frame_load:
  assumes "frame_ok s s'"
  shows "connections s' = connections s" "urls s' = urls s" "opt s' = opt s" "stat s' = stat s"
    "num_connections s' = num_connections s" "sys s' = sys s" "now s' = now s" "exit_code s' = exit_code s"
  using assms by (cases s; cases s'; simp add: frame_ok_def)+

text \<open>And the other way round.\<close>

definition timers_same :: "load \<Rightarrow> load \<Rightarrow> bool" where
  "timers_same s s' \<longleftrightarrow> heap s' = heap s \<and> timers s' = timers s \<and> free_timers s' = free_timers s \<and> brk s' = brk s"

lemma timer_abs_same: "timers_same s s' \<Longrightarrow> timer_abs s m \<Longrightarrow> timer_abs s' m"
  by (rule timer_abs_fields) (simp_all add: timers_same_def)

section \<open>Ownership\<close>

definition owns :: "(addr \<rightharpoonup> (proc, int) timer) \<Rightarrow> int \<Rightarrow> connection \<Rightarrow> bool" where
  "owns m i c \<longleftrightarrow>
     (\<exists>a t. idle_timer c = Some a \<and> m a = Some t \<and> timer_proc t = Idle_connection \<and> client_data t = i) \<and>
     (\<forall>b. wakeup_timer c = Some b \<longrightarrow> (\<exists>t. m b = Some t \<and> timer_proc t = Wakeup_connection \<and> client_data t = i))"

definition in_use :: "connection \<Rightarrow> bool" where
  "in_use c \<longleftrightarrow> conn_state c \<noteq> CNST_FREE"

definition slot_ok :: "(addr \<rightharpoonup> (proc, int) timer) \<Rightarrow> load \<Rightarrow> nat \<Rightarrow> bool" where
  "slot_ok m s i \<longleftrightarrow>
     (let c = connections s ! i
      in in_use c \<longrightarrow> owns m (int i) c \<and> 0 \<le> url_num c \<and> nat (url_num c) < length (urls s))"

text \<open>A slot that was filled once, and the kinds of timers.\<close>

definition filled :: "load \<Rightarrow> connection \<Rightarrow> bool" where
  "filled s c \<longleftrightarrow> 0 \<le> url_num c \<and> nat (url_num c) < length (urls s) \<and> (\<not> do_throttle (opt s) \<longrightarrow> wakeup_timer c = None)"

definition timer_ok :: "load \<Rightarrow> (proc, int) timer \<Rightarrow> bool" where
  "timer_ok s t \<longleftrightarrow>
     (periodic t \<longrightarrow> 0 < msecs t \<and> normal (time t)) \<and>
     (timer_proc t = Idle_connection \<longrightarrow>
        \<not> periodic t \<and> (\<exists>i < length (connections s). client_data t = int i \<and> filled s (connections s ! i))) \<and>
     (timer_proc t = Wakeup_connection \<longrightarrow> do_throttle (opt s)) \<and>
     (timer_proc t = Start_timer \<longrightarrow> start (opt s) = START_RATE)"

definition load_rep :: "load \<Rightarrow> (addr \<rightharpoonup> (proc, int) timer) \<Rightarrow> bool" where
  "load_rep s m \<longleftrightarrow>
     timer_abs s m \<and> (\<forall>i < length (connections s). slot_ok m s i) \<and> (\<forall>t \<in> ran m. timer_ok s t)"

definition load_inv :: "load \<Rightarrow> bool" where
  "load_inv s \<longleftrightarrow> (\<exists>m. load_rep s m)"

text \<open>The schedule without the timers of a connection.\<close>

definition without :: "connection \<Rightarrow> (addr \<rightharpoonup> (proc, int) timer) \<Rightarrow> addr \<rightharpoonup> (proc, int) timer" where
  "without c m = (\<lambda>x. if idle_timer c = Some x \<or> wakeup_timer c = Some x then None else m x)"

lemma ran_without: "t \<in> ran (without c m) \<Longrightarrow> t \<in> ran m"
  by (auto simp: ran_def without_def split: if_splits)

lemma owns_without:
  assumes "owns m i c" "owns m j d" "i \<noteq> j"
  shows "owns (without c m) j d"
proof -
  have "m x = Some t \<Longrightarrow> client_data t = j \<Longrightarrow> without c m x = Some t" for x t
    using assms(1,3) by (auto simp: owns_def without_def)
  with assms(2) show ?thesis by (fastforce simp: owns_def)
qed

lemma cancel_both:
  assumes "timer_abs s m" "owns m i c"
  shows "\<exists>s'. Option.bind (cancel_timer (idle_timer c) s) (cancel_timer (wakeup_timer c)) = Some s' \<and>
    frame_ok s s' \<and> timer_abs s' (without c m)"
proof -
  obtain a t where a: "idle_timer c = Some a" "m a = Some t" "timer_proc t = Idle_connection"
    using assms(2) by (auto simp: owns_def)
  obtain s1 where s1: "tmr_cancel a s = Some s1" "frame_ok s s1" "timer_abs s1 (m(a := None))"
    using ts.cancel_law [OF assms(1), of a] a(2) by auto
  show ?thesis
  proof (cases "wakeup_timer c")
    case None
    then have "without c m = m(a := None)" using a(1) by (auto simp: without_def)
    with s1 a(1) None show ?thesis by (simp add: cancel_timer_def)
  next
    case (Some b)
    then obtain u where b: "m b = Some u" "timer_proc u = Wakeup_connection" using assms(2) by (auto simp: owns_def)
    then have "a \<noteq> b" using a by auto
    with b obtain s2 where s2: "tmr_cancel b s1 = Some s2" "frame_ok s1 s2" "timer_abs s2 (m(a := None, b := None))"
      using ts.cancel_law [OF s1(3), of b] by auto
    have "without c m = m(a := None, b := None)" using a(1) Some by (auto simp: without_def)
    moreover have "frame_ok s s2" using s1(2) s2(2) by (simp add: frame_ok_def)
    ultimately show ?thesis using s1(1) s2 a(1) Some by (simp add: cancel_timer_def)
  qed
qed

section \<open>Closing\<close>

text \<open>The final comparison changes only the statistics of errors and the table of URLs.\<close>

definition verified :: "load \<Rightarrow> load \<Rightarrow> bool" where
  "verified s s' \<longleftrightarrow> timers_same s s' \<and> connections s' = connections s \<and> length (urls s') = length (urls s) \<and>
     opt s' = opt s \<and> num_connections s' = num_connections s \<and> exit_code s' = exit_code s \<and> sys s' = sys s \<and>
     now s' = now s \<and> fetches_completed (stat s') = fetches_completed (stat s) \<and> total_bytes (stat s') = total_bytes (stat s)"

lemma verify_ok:
  assumes "0 \<le> url_num c" "nat (url_num c) < length (urls s)"
  shows "\<exists>s'. (if do_checksum (opt s) then verify_checksum c s else verify_bytes c s) = Some s' \<and> verified s s'"
  using assms
  by (auto simp: verify_checksum_def verify_bytes_def load_access print_def verified_def timers_same_def)

lemma close_stats_counts:
  "fetches_completed (close_stats c t) = fetches_completed t + 1" "total_bytes (close_stats c t) = total_bytes t + c_bytes c"
  by (simp_all add: close_stats_def status_stats_def response_stats_def connect_stats_def Let_def)

lemma close_connection_ok:
  assumes "timer_abs s m" "i < length (connections s)" "owns m (int i) (connections s ! i)"
    "0 \<le> url_num (connections s ! i)" "nat (url_num (connections s ! i)) < length (urls s)"
  shows "\<exists>s'. close_connection (int i) s = Some s' \<and> timer_abs s' (without (connections s ! i) m) \<and>
    connections s' = (connections s)[i := (connections s ! i)\<lparr>conn_state := CNST_FREE\<rparr>] \<and>
    length (urls s') = length (urls s) \<and> opt s' = opt s \<and> exit_code s' = exit_code s \<and>
    num_connections s' = num_connections s - 1 \<and> fetches_completed (stat s') = fetches_completed (stat s) + 1 \<and>
    total_bytes (stat s') = total_bytes (stat s) + c_bytes (connections s ! i) \<and>
    closed (sys s') = conn_fd (connections s ! i) # closed (sys s)"
proof -
  let ?c = "connections s ! i"
  let ?s1 = "(closefd (conn_fd ?c) s)\<lparr>connections := (connections s)[i := ?c\<lparr>conn_state := CNST_FREE\<rparr>]\<rparr>"
  have u: "upd_conn (int i) (\<lambda>c. c\<lparr>conn_state := CNST_FREE\<rparr>) (closefd (conn_fd ?c) s) = Some ?s1"
    using assms(2) by (simp add: upd_conn_def closefd_def)
  have "timer_abs ?s1 m" by (rule timer_abs_same [OF _ assms(1)]) (simp add: timers_same_def closefd_def)
  from cancel_both [OF this assms(3)] obtain s2 s3 where s2: "cancel_timer (idle_timer ?c) ?s1 = Some s2"
    "cancel_timer (wakeup_timer ?c) s2 = Some s3" "frame_ok ?s1 s3" "timer_abs s3 (without ?c m)"
    by (auto simp: Option.bind_eq_Some_conv)
  let ?s4 = "s3\<lparr>num_connections := num_connections s3 - 1, stat := close_stats ?c (stat s3)\<rparr>"
  note fr = frame_load [OF s2(3)]
  have "urls s3 = urls s" using fr(2) by (simp add: closefd_def)
  then obtain s5 where s5: "(if do_checksum (opt ?s4) then verify_checksum ?c ?s4 else verify_bytes ?c ?s4) = Some s5" "verified ?s4 s5"
    using verify_ok [of ?c ?s4] assms(4,5) by auto
  have "timer_abs ?s4 (without ?c m)" by (rule timer_abs_same [OF _ s2(4)]) (simp add: timers_same_def)
  then have "timer_abs s5 (without ?c m)" by (rule timer_abs_same [rotated]) (use s5(2) in \<open>simp add: verified_def\<close>)
  moreover have "close_connection (int i) s = Some s5"
    unfolding close_connection_def using assms(2) u s2 s5 by (simp add: get_conn_def Let_def)
  ultimately show ?thesis using s5(2) fr
    by (intro exI [of _ s5]) (simp add: verified_def close_stats_counts closefd_def sys_close_def)
qed

text \<open>A slot without timers.\<close>

lemma close_untimed:
  assumes "i < length (connections s)" "idle_timer (connections s ! i) = None" "wakeup_timer (connections s ! i) = None"
    "0 \<le> url_num (connections s ! i)" "nat (url_num (connections s ! i)) < length (urls s)"
  defines "c \<equiv> connections s ! i"
  defines "s1 \<equiv> (closefd (conn_fd c) s)\<lparr>connections := (connections s)[i := c\<lparr>conn_state := CNST_FREE\<rparr>],
      num_connections := num_connections s - 1, stat := close_stats c (stat s)\<rparr>"
  shows "close_connection (int i) s = (if do_checksum (opt s1) then verify_checksum c s1 else verify_bytes c s1)"
    "\<exists>s'. close_connection (int i) s = Some s' \<and> verified s1 s'"
proof -
  show eq: "close_connection (int i) s = (if do_checksum (opt s1) then verify_checksum c s1 else verify_bytes c s1)"
    using assms(1-3) by (simp add: close_connection_def load_access cancel_timer_def closefd_def Let_def c_def s1_def)
  show "\<exists>s'. close_connection (int i) s = Some s' \<and> verified s1 s'"
    unfolding eq by (rule verify_ok) (use assms(4,5) in \<open>simp_all add: c_def s1_def closefd_def\<close>)
qed

text \<open>Replacing one connection.\<close>

lemma filled_cong: "length (urls s') = length (urls s) \<Longrightarrow> opt s' = opt s \<Longrightarrow> filled s' c = filled s c"
  by (simp add: filled_def)

lemma timer_ok_upd:
  assumes "timer_ok s t" "i < length (connections s)" "connections s' = (connections s)[i := c]"
    "length (urls s') = length (urls s)" "opt s' = opt s" "filled s (connections s ! i) \<Longrightarrow> filled s c"
  shows "timer_ok s' t"
proof -
  have "filled s (connections s ! j) \<Longrightarrow> j < length (connections s) \<Longrightarrow> filled s (connections s' ! j)" for j
    using assms(2,3,6) by (cases "j = i") simp_all
  then show ?thesis using assms(1,3-5) filled_cong [OF assms(4,5)] by (auto simp: timer_ok_def)
qed

lemma load_rep_upd:
  assumes "load_rep s m" "i < length (connections s)" "timer_abs s' m'" "connections s' = (connections s)[i := c]"
    "length (urls s') = length (urls s)" "opt s' = opt s" "filled s (connections s ! i) \<Longrightarrow> filled s c"
    "\<And>t. t \<in> ran m' \<Longrightarrow> t \<in> ran m \<or> timer_ok s' t"
    "\<forall>j < length (connections s). j \<noteq> i \<longrightarrow> owns m (int j) (connections s ! j) \<longrightarrow> owns m' (int j) (connections s ! j)"
    "in_use c \<Longrightarrow> owns m' (int i) c \<and> 0 \<le> url_num c \<and> nat (url_num c) < length (urls s)"
  shows "load_rep s' m'"
  unfolding load_rep_def
proof (intro conjI allI impI ballI)
  fix t
  assume "t \<in> ran m'"
  with assms(8) [OF this] show "timer_ok s' t" using assms(1) timer_ok_upd [OF _ assms(2,4-7)] by (auto simp: load_rep_def)
next
  fix j
  assume j: "j < length (connections s')"
  show "slot_ok m' s' j"
  proof (cases "j = i")
    case True
    with assms(2,4,5,10) show ?thesis by (simp add: slot_ok_def)
  next
    case False
    have "slot_ok m s j" using assms(1,4) j by (simp add: load_rep_def)
    with assms(4,5,9) j False show ?thesis by (auto simp: slot_ok_def Let_def)
  qed
qed (rule assms(3))

lemma load_repD:
  assumes "load_rep s m" "i < length (connections s)" "in_use (connections s ! i)"
  shows "timer_abs s m" "owns m (int i) (connections s ! i)" "0 \<le> url_num (connections s ! i)"
    "nat (url_num (connections s ! i)) < length (urls s)"
  using assms by (auto simp: load_rep_def slot_ok_def Let_def)

lemma load_rep_timer: "load_rep s m \<Longrightarrow> m a = Some t \<Longrightarrow> timer_ok s t"
  by (auto simp: load_rep_def ran_def)

definition used :: "load \<Rightarrow> nat" where
  "used s = length (filter in_use (connections s))"

lemma filter_update_length:
  assumes "i < length xs"
  shows "length (filter P (xs[i := y])) + (if P (xs ! i) then 1 else 0) = length (filter P xs) + (if P y then 1 else 0)"
  using assms
proof (induction xs arbitrary: i)
  case (Cons x xs)
  then show ?case by (cases i) auto
qed simp

text \<open>Closing a connection in use.\<close>

lemma close_connection_rep:
  assumes "load_rep s m" "i < length (connections s)" "in_use (connections s ! i)"
  shows "\<exists>s'. close_connection (int i) s = Some s' \<and> load_rep s' (without (connections s ! i) m) \<and>
    connections s' = (connections s)[i := (connections s ! i)\<lparr>conn_state := CNST_FREE\<rparr>] \<and> opt s' = opt s \<and>
    exit_code s' = exit_code s \<and> num_connections s' = num_connections s - 1 \<and> int (used s') = int (used s) - 1 \<and>
    fetches_completed (stat s') = fetches_completed (stat s) + 1 \<and>
    total_bytes (stat s') = total_bytes (stat s) + c_bytes (connections s ! i) \<and>
    closed (sys s') = conn_fd (connections s ! i) # closed (sys s)"
proof -
  let ?c = "connections s ! i"
  note r = load_repD [OF assms]
  from close_connection_ok [OF r(1) assms(2) r(2-4)] obtain s' where s': "close_connection (int i) s = Some s'"
    "timer_abs s' (without ?c m)" "connections s' = (connections s)[i := ?c\<lparr>conn_state := CNST_FREE\<rparr>]"
    "length (urls s') = length (urls s)" "opt s' = opt s" "exit_code s' = exit_code s"
    "num_connections s' = num_connections s - 1" "fetches_completed (stat s') = fetches_completed (stat s) + 1"
    "total_bytes (stat s') = total_bytes (stat s) + c_bytes ?c" "closed (sys s') = conn_fd ?c # closed (sys s)"
    by (elim exE conjE)
  have "load_rep s' (without ?c m)"
    by (rule load_rep_upd [OF assms(1,2) s'(2-5)]) (use owns_without [OF r(2)] ran_without in \<open>auto simp: in_use_def filled_def\<close>)
  moreover have "int (used s') = int (used s) - 1"
    using filter_update_length [OF assms(2), of in_use "?c\<lparr>conn_state := CNST_FREE\<rparr>"] assms(3) s'(3)
    by (simp add: used_def in_use_def)
  ultimately show ?thesis using s' by (intro exI [of _ s']) simp
qed

section \<open>Reading\<close>

text \<open>A transition that keeps the invariant, and the difference of the counter and the connections in use.\<close>

definition good :: "load \<Rightarrow> load \<Rightarrow> bool" where
  "good s s' \<longleftrightarrow> load_inv s' \<and> exit_code s' = exit_code s \<and> opt s' = opt s \<and>
     length (connections s') = length (connections s) \<and> num_connections s' - int (used s') = num_connections s - int (used s)"

lemma good_trans: "good s s1 \<Longrightarrow> good s1 s2 \<Longrightarrow> good s s2"
  by (simp add: good_def)

lemma goodI:
  assumes "load_rep s' m'" "exit_code s' = exit_code s" "opt s' = opt s" "length (connections s') = length (connections s)"
    "num_connections s' - int (used s') = num_connections s - int (used s)"
  shows "good s s'"
  using assms by (auto simp: good_def load_inv_def)

lemma owns_touch:
  "idle_timer c' = idle_timer c \<Longrightarrow> wakeup_timer c' = wakeup_timer c \<Longrightarrow> owns m i c' = owns m i c"
  by (simp add: owns_def)

definition touch :: "connection \<Rightarrow> connection \<Rightarrow> bool" where
  "touch c c' \<longleftrightarrow> idle_timer c' = idle_timer c \<and> wakeup_timer c' = wakeup_timer c \<and> url_num c' = url_num c \<and> in_use c' = in_use c"

lemma rep_touch:
  assumes "load_rep s m" "i < length (connections s)" "touch (connections s ! i) c'" "timers_same s s'"
    "connections s' = (connections s)[i := c']" "length (urls s') = length (urls s)" "opt s' = opt s"
  shows "load_rep s' m" "used s' = used s"
proof -
  let ?c = "connections s ! i"
  have "timer_abs s m" using assms(1) by (simp add: load_rep_def)
  then have t: "timer_abs s' m" using assms(4) timer_abs_same by blast
  show "load_rep s' m"
    by (rule load_rep_upd [OF assms(1,2) t assms(5-7)])
      (use load_repD [OF assms(1,2)] assms(3) owns_touch [of c' ?c] in \<open>auto simp: touch_def filled_def\<close>)
  show "used s' = used s"
    using filter_update_length [OF assms(2), of in_use c'] assms(3,5) by (auto simp: used_def touch_def split: if_splits)
qed

lemma good_touch:
  assumes "load_rep s m" "i < length (connections s)" "touch (connections s ! i) c'" "timers_same s s'"
    "connections s' = (connections s)[i := c']" "length (urls s') = length (urls s)"
    "opt s' = opt s" "exit_code s' = exit_code s" "num_connections s' = num_connections s"
  shows "load_rep s' m \<and> good s s'"
proof -
  note r = rep_touch [OF assms(1-7)]
  then have "good s s'" by (intro goodI [OF r(1)]) (use assms in simp_all)
  with r show ?thesis by simp
qed

text \<open>A change of the timers that every owner survives.\<close>

lemma good_timers:
  assumes "load_rep s m" "frame_ok s s'" "timer_abs s' m'" "\<And>j d. owns m j d \<Longrightarrow> owns m' j d"
    "\<And>t. t \<in> ran m' \<Longrightarrow> t \<in> ran m \<or> timer_ok s t"
  shows "load_rep s' m' \<and> good s s'"
proof -
  note fr = frame_load [OF assms(2)]
  have "timer_ok s' t = timer_ok s t" for t using fr by (simp add: timer_ok_def filled_def)
  moreover have "\<forall>t \<in> ran m'. timer_ok s t" using assms(1,5) unfolding load_rep_def by blast
  ultimately have r: "load_rep s' m'"
    using assms(1,3,4) fr by (auto simp: load_rep_def slot_ok_def Let_def)
  have "good s s'" by (rule goodI [OF r]) (use fr in \<open>simp_all add: used_def\<close>)
  with r show ?thesis by simp
qed

lemma owns_replace:
  "m a = Some t \<Longrightarrow> timer_proc t' = timer_proc t \<Longrightarrow> client_data t' = client_data t \<Longrightarrow> owns m j d \<Longrightarrow> owns (m(a \<mapsto> t')) j d"
  by (auto simp: owns_def)

lemma owns_fresh: "m a = None \<Longrightarrow> owns m j d \<Longrightarrow> owns (m(a \<mapsto> t)) j d"
  by (fastforce simp: owns_def)

lemma reset_good:
  assumes "load_rep s m" "m a = Some t" "\<not> periodic t"
  shows "\<exists>s' m'. tmr_reset tv a s = Some s' \<and> frame_ok s s' \<and> load_rep s' m' \<and> good s s'"
proof -
  let ?t = "t\<lparr>time := tv_add_ms tv (msecs t), hash_of := hash_time (tv_add_ms tv (msecs t))\<rparr>"
  have "timer_abs s m" "timer_ok s t" using assms(1,2) by (auto simp: load_rep_def ran_def)
  from ts.reset_law [OF this(1) assms(2), of tv] obtain s' where s': "tmr_reset tv a s = Some s'" "frame_ok s s'"
    "timer_abs s' (m(a \<mapsto> ?t))" by (elim exE conjE)
  have o: "owns m j d \<Longrightarrow> owns (m(a \<mapsto> ?t)) j d" for j d
    by (rule owns_replace [where m = m and a = a and t = t, OF assms(2)]) simp_all
  have "timer_ok s ?t" using \<open>timer_ok s t\<close> assms(3) by (simp add: timer_ok_def)
  then have "x \<in> ran (m(a \<mapsto> ?t)) \<Longrightarrow> x \<in> ran m \<or> timer_ok s x" for x by (auto simp: ran_def split: if_splits)
  from good_timers [OF assms(1) s'(2,3) o this] s'(1,2) show ?thesis by blast
qed

text \<open>A new timer, first for the schedule alone.\<close>

lemma create_abs:
  assumes "timer_abs s m"
  shows "\<exists>r s'. tmr_create (Some tv) p d k per s = Some (r, s') \<and> frame_ok s s' \<and> (has_room s \<longrightarrow> r \<noteq> None) \<and>
    (\<forall>a. r = Some a \<longrightarrow> m a = None \<and> timer_abs s' (m(a \<mapsto> new_timer p d k per tv))) \<and> (r = None \<longrightarrow> timer_abs s' m)"
proof -
  from ts.create_law [OF assms, of "Some tv" p d k per] obtain r s' where "tmr_create (Some tv) p d k per s = Some (r, s')"
    "frame_ok s s'" "has_room s \<longrightarrow> r \<noteq> None"
    "case r of None \<Rightarrow> timer_abs s' m | Some a \<Rightarrow> m a = None \<and> timer_abs s' (m(a \<mapsto> new_timer p d k per tv))"
    unfolding option.case by (elim exE conjE)
  then show ?thesis by (cases r) auto
qed

lemma create_good:
  assumes "load_rep s m" "timer_ok s (new_timer p d k per tv)"
  shows "\<exists>r s' m'. tmr_create (Some tv) p d k per s = Some (r, s') \<and> frame_ok s s' \<and> load_rep s' m' \<and> good s s' \<and>
    (has_room s \<longrightarrow> r \<noteq> None) \<and> (\<forall>a. r = Some a \<longrightarrow> m a = None \<and> m' = m(a \<mapsto> new_timer p d k per tv)) \<and> (r = None \<longrightarrow> m' = m)"
proof -
  have "timer_abs s m" using assms(1) by (simp add: load_rep_def)
  from create_abs [OF this, of tv p d k per] obtain r s' where s': "tmr_create (Some tv) p d k per s = Some (r, s')" "frame_ok s s'"
    "has_room s \<longrightarrow> r \<noteq> None" "\<forall>a. r = Some a \<longrightarrow> m a = None \<and> timer_abs s' (m(a \<mapsto> new_timer p d k per tv))"
    "r = None \<longrightarrow> timer_abs s' m" by (elim exE conjE)
  show ?thesis
  proof (cases r)
    case None
    with s'(5) have "timer_abs s' m" by simp
    from good_timers [OF assms(1) s'(2) this] s' None show ?thesis by auto
  next
    case (Some a)
    with s'(4) have a: "m a = None" "timer_abs s' (m(a \<mapsto> new_timer p d k per tv))" by simp_all
    have "x \<in> ran (m(a \<mapsto> new_timer p d k per tv)) \<Longrightarrow> x \<in> ran m \<or> timer_ok s x" for x
      using assms(2) a(1) by (auto simp: ran_def split: if_splits)
    from good_timers [OF assms(1) s'(2) a(2) _ this] owns_fresh [where m = m and a = a, OF a(1)] s' a(1) Some show ?thesis by auto
  qed
qed

end
