(* ===== verification/Load_Header_Spec.thy ===== *)
theory Load_Header_Spec
  imports Load_Header
begin

text \<open>
  The header state machine against a reference that works on whole lines: the status code of the first
  line, the value of the last \<open>Content-Length\<close> field, and the first byte of the body.
\<close>

section \<open>Pieces\<close>

lemma header_loop_Nil [simp]: "header_loop [] c = Some (c, [])"
  by (subst header_loop.simps) simp

lemma header_loop_done: "conn_state c \<noteq> CNST_HEADERS \<Longrightarrow> header_loop buf c = Some (c, buf)"
  by (subst header_loop.simps) simp

lemma header_loop_Cons:
  "conn_state c = CNST_HEADERS \<Longrightarrow>
    header_loop (ch # buf) c = (case header_step ch c of None \<Rightarrow> None | Some c' \<Rightarrow> header_loop buf c')"
  by (subst header_loop.simps) simp

lemma header_loop_append:
  "header_loop (a @ b) c =
    (case header_loop a c of None \<Rightarrow> None
     | Some (c', rest) \<Rightarrow> if conn_state c' = CNST_HEADERS then header_loop b c' else Some (c', rest @ b))"
proof (induction a arbitrary: c)
  case Nil
  then show ?case by (simp add: header_loop_done)
next
  case (Cons ch a)
  then show ?case
    by (cases "conn_state c = CNST_HEADERS") (simp_all add: header_loop_Cons header_loop_done split: option.splits)
qed

section \<open>The reference\<close>

text \<open>The letters of the field name, upper and lower case.\<close>

definition field_name :: "(char \<times> char) list" where
  "field_name = zip ''CONTENT-LENGTH:'' ''content-length:''"

text \<open>The value after the colon: at least one blank, then at least one digit.\<close>

definition field_value :: "string \<Rightarrow> int option" where
  "field_value l =
     (let ds = takeWhile isdigit (dropWhile is_blank l)
      in if takeWhile is_blank l = [] \<or> ds = [] then None else Some (dec_val 0 ds))"

fun match_field :: "(char \<times> char) list \<Rightarrow> string \<Rightarrow> int option" where
  "match_field [] l = field_value l"
| "match_field (p # ps) [] = None"
| "match_field (p # ps) (ch # l) = (if ch = fst p \<or> ch = snd p then match_field ps l else None)"

definition new_length :: "string \<Rightarrow> int \<Rightarrow> int" where
  "new_length l n = (case match_field field_name l of None \<Rightarrow> n | Some v \<Rightarrow> v)"

definition no_eol :: "string \<Rightarrow> bool" where
  "no_eol l \<longleftrightarrow> CR \<notin> set l \<and> LF \<notin> set l"

text \<open>No run of digits is too long for a \<open>long\<close>.\<close>

fun short_digits :: "nat \<Rightarrow> nat \<Rightarrow> string \<Rightarrow> bool" where
  "short_digits mx k [] = True"
| "short_digits mx k (ch # l) = (if isdigit ch then k < mx \<and> short_digits mx (Suc k) l else short_digits mx 0 l)"

section \<open>One line\<close>

lemma no_eol_simps [simp]: "no_eol []" "no_eol (ch # l) \<longleftrightarrow> ch \<noteq> CR \<and> ch \<noteq> LF \<and> no_eol l"
  by (auto simp: no_eol_def)

text \<open>The states inside a line, where a carriage return ends it.\<close>

definition inside :: "hdst \<Rightarrow> bool" where
  "inside h \<longleftrightarrow> h \<notin> {HDST_LF, HDST_CR, HDST_CRLF, HDST_CRLFCR}"

lemma inside_cr:
  assumes "inside (header_state c)" "conn_state c = CNST_HEADERS"
  shows "header_step CR c = Some (set_hd HDST_CR c)"
  using assms
  by (cases "header_state c") (simp_all add: header_step_def hd_steps eol_or_def is_blank_def isdigit_def uchar_def is_c_def inside_def)

text \<open>Running the machine over a piece of a line leaves everything but the state and the length alone.\<close>

definition runs :: "string \<Rightarrow> connection \<Rightarrow> int \<Rightarrow> bool" where
  "runs l c n \<longleftrightarrow> (\<exists>h. inside h \<and> header_loop l c = Some (c\<lparr>header_state := h, content_length := n\<rparr>, []))"

lemma runs_same [simp]:
  assumes "inside (header_state c)"
  shows "runs [] c (content_length c)"
  using assms unfolding runs_def by (intro exI [of _ "header_state c"]) simp

lemma runs_Cons:
  assumes "conn_state c = CNST_HEADERS" "header_step ch c = Some (c\<lparr>header_state := h, content_length := k\<rparr>)"
    "runs l (c\<lparr>header_state := h, content_length := k\<rparr>) n"
  shows "runs (ch # l) c n"
  using assms unfolding runs_def by (simp add: header_loop_Cons)

lemma same_state: "header_state c = h \<Longrightarrow> c\<lparr>header_state := h\<rparr> = c" for c :: connection
  by (cases c) simp

lemma runs_text:
  "conn_state c = CNST_HEADERS \<Longrightarrow> header_state c = HDST_TEXT \<Longrightarrow> no_eol l \<Longrightarrow> runs l c (content_length c)"
proof (induction l)
  case Nil
  then show ?case by (simp add: inside_def)
next
  case (Cons ch l)
  have s: "c\<lparr>header_state := HDST_TEXT, content_length := content_length c\<rparr> = c"
    using same_state [OF Cons.prems(2)] by simp
  have "header_step ch c = Some c"
    using Cons.prems(2,3) same_state [OF Cons.prems(2)] by (simp add: header_step_def hd_text_def eol_or_def set_hd_def)
  then show ?case
    using runs_Cons [OF Cons.prems(1), where h = HDST_TEXT and k = "content_length c" and ch = ch and l = l, unfolded s] Cons
    by simp
qed

text \<open>A step into the text state decides the line.\<close>

lemma runs_to_text:
  assumes "conn_state c = CNST_HEADERS" "header_step ch c = Some (c\<lparr>header_state := HDST_TEXT\<rparr>)" "no_eol l"
  shows "runs (ch # l) c (content_length c)"
proof (rule runs_Cons [OF assms(1), where h = HDST_TEXT and k = "content_length c"])
  show "runs l (c\<lparr>header_state := HDST_TEXT, content_length := content_length c\<rparr>) (content_length c)"
    using runs_text [of "c\<lparr>header_state := HDST_TEXT\<rparr>" l] assms(1,3) by simp
qed (simp add: assms(2))

subsection \<open>The value\<close>

lemma next_digit_ok: "isdigit ch \<Longrightarrow> 0 \<le> n \<Longrightarrow> n < 10 ^ 17 \<Longrightarrow> next_digit LONG_MAX n ch = Some (10 * n + digit_val ch)"
  by (simp add: next_digit_def LONG_MAX_def isdigit_def digit_val_def)

lemma isdigit_no_blank: "isdigit ch \<Longrightarrow> \<not> is_blank ch"
  by (auto simp: isdigit_def is_blank_def uchar_def)

lemma digit_val_bounds: "isdigit ch \<Longrightarrow> 0 \<le> digit_val ch \<and> digit_val ch \<le> 9"
  by (simp add: isdigit_def digit_val_def)

lemma runs_num:
  assumes "conn_state c = CNST_HEADERS" "header_state c = HDST_CONTENT_LENGTH_COLON_WHITESPACE_NUM" "no_eol l"
    "short_digits 18 k l" "0 \<le> content_length c" "content_length c < 10 ^ k" "k \<le> 18"
  shows "runs l c (dec_val (content_length c) l)"
  using assms
proof (induction l arbitrary: c k)
  case Nil
  then show ?case by (simp add: inside_def)
next
  case (Cons ch l)
  show ?case
  proof (cases "isdigit ch")
    case True
    let ?n = "10 * content_length c + digit_val ch"
    have k: "k < 18" "short_digits 18 (Suc k) l" using Cons.prems(4) True by auto
    have "content_length c < 10 ^ 17" using Cons.prems(6) k(1) power_increasing [of k 17 "10 :: int"] by linarith
    then have step: "header_step ch c = Some (c\<lparr>header_state := HDST_CONTENT_LENGTH_COLON_WHITESPACE_NUM, content_length := ?n\<rparr>)"
      using True Cons.prems(2,5) by (simp add: header_step_def hd_colon_num_def next_digit_ok)
    show ?thesis
    proof (rule runs_Cons [OF Cons.prems(1) step])
      have "?n < 10 ^ Suc k" using Cons.prems(6) digit_val_bounds [OF True] by simp
      then show "runs l (c\<lparr>header_state := HDST_CONTENT_LENGTH_COLON_WHITESPACE_NUM, content_length := ?n\<rparr>)
          (dec_val (content_length c) (ch # l))"
        using Cons.IH [of "c\<lparr>header_state := HDST_CONTENT_LENGTH_COLON_WHITESPACE_NUM, content_length := ?n\<rparr>" "Suc k"]
          Cons.prems k digit_val_bounds [OF True] True by simp
    qed
  next
    case False
    have "header_step ch c = Some (c\<lparr>header_state := HDST_TEXT\<rparr>)"
      using False Cons.prems(2,3) by (simp add: header_step_def hd_colon_num_def eol_or_def set_hd_def)
    from runs_to_text [OF Cons.prems(1) this] Cons.prems(3) False show ?thesis by simp
  qed
qed

lemma dec_val_takeWhile: "dec_val a (takeWhile isdigit l) = dec_val a l"
  by (induction l arbitrary: a) auto

lemma runs_colon_ws:
  assumes "conn_state c = CNST_HEADERS" "header_state c = HDST_CONTENT_LENGTH_COLON_WHITESPACE" "no_eol l"
    "short_digits 18 0 l"
  shows "runs l c (let ds = takeWhile isdigit (dropWhile is_blank l) in if ds = [] then content_length c else dec_val 0 ds)"
  using assms
proof (induction l)
  case Nil
  then show ?case by (simp add: inside_def)
next
  case (Cons ch l)
  consider (blank) "is_blank ch" "\<not> isdigit ch" | (digit) "isdigit ch" "\<not> is_blank ch" | (other) "\<not> isdigit ch" "\<not> is_blank ch"
    using isdigit_no_blank by blast
  then show ?case
  proof cases
    case blank
    then have s: "header_step ch c = Some (c\<lparr>header_state := header_state c, content_length := content_length c\<rparr>)"
      using Cons.prems(2) by (simp add: header_step_def hd_colon_ws_def)
    have e: "c\<lparr>header_state := header_state c, content_length := content_length c\<rparr> = c" by simp
    from runs_Cons [OF Cons.prems(1) s, unfolded e] Cons blank show ?thesis by simp
  next
    case digit
    let ?c = "c\<lparr>header_state := HDST_CONTENT_LENGTH_COLON_WHITESPACE_NUM, content_length := digit_val ch\<rparr>"
    have s: "header_step ch c = Some ?c"
      using digit Cons.prems(2) by (simp add: header_step_def hd_colon_ws_def set_hd_def)
    show ?thesis
    proof (rule runs_Cons [OF Cons.prems(1) s])
      have "runs l ?c (dec_val (content_length ?c) l)"
        by (rule runs_num [where k = "Suc 0"]) (use Cons.prems digit digit_val_bounds [of ch] in simp_all)
      then show "runs l ?c (let ds = takeWhile isdigit (dropWhile is_blank (ch # l)) in
          if ds = [] then content_length c else dec_val 0 ds)"
        using digit by (simp add: dec_val_takeWhile)
    qed
  next
    case other
    have s: "header_step ch c = Some (c\<lparr>header_state := HDST_TEXT\<rparr>)"
      using other Cons.prems(2,3) by (simp add: header_step_def hd_colon_ws_def eol_or_def set_hd_def)
    from runs_to_text [OF Cons.prems(1) s] Cons.prems(3) other show ?thesis by simp
  qed
qed

lemma runs_colon:
  assumes "conn_state c = CNST_HEADERS" "header_state c = HDST_CONTENT_LENGTH_COLON" "no_eol l" "short_digits 18 0 l"
  shows "runs l c (case field_value l of None \<Rightarrow> content_length c | Some v \<Rightarrow> v)"
proof (cases l)
  case Nil
  then show ?thesis using assms(2) by (simp add: inside_def field_value_def)
next
  case (Cons ch l')
  show ?thesis
  proof (cases "is_blank ch")
    case True
    have s: "header_step ch c = Some (c\<lparr>header_state := HDST_CONTENT_LENGTH_COLON_WHITESPACE, content_length := content_length c\<rparr>)"
      using True assms(2) by (simp add: header_step_def hd_colon_def set_hd_def)
    have "short_digits 18 0 l'" using assms(4) Cons True isdigit_no_blank by (auto split: if_splits)
    with runs_colon_ws [of "c\<lparr>header_state := HDST_CONTENT_LENGTH_COLON_WHITESPACE, content_length := content_length c\<rparr>" l']
      assms Cons have "runs l' (c\<lparr>header_state := HDST_CONTENT_LENGTH_COLON_WHITESPACE, content_length := content_length c\<rparr>)
        (case field_value l of None \<Rightarrow> content_length c | Some v \<Rightarrow> v)"
      using True by (simp add: field_value_def Let_def split: if_splits)
    from runs_Cons [OF assms(1) s this] Cons show ?thesis by simp
  next
    case False
    have s: "header_step ch c = Some (c\<lparr>header_state := HDST_TEXT\<rparr>)"
      using False assms(2,3) Cons by (simp add: header_step_def hd_colon_def eol_or_def set_hd_def)
    from runs_to_text [OF assms(1) s] assms(3) Cons False show ?thesis by (simp add: field_value_def)
  qed
qed

subsection \<open>The name\<close>

definition handles :: "hdst \<Rightarrow> (char \<times> char) list \<Rightarrow> bool" where
  "handles h ps \<longleftrightarrow> (\<forall>c l. conn_state c = CNST_HEADERS \<and> header_state c = h \<and> no_eol l \<and> short_digits 18 0 l \<longrightarrow>
     runs l c (case match_field ps l of None \<Rightarrow> content_length c | Some v \<Rightarrow> v))"

lemma handles_expect:
  assumes "handles nxt ps" "inside h" "\<And>ch c. header_state c = h \<Longrightarrow> header_step ch c = Some (expect up lo nxt ch c)"
    "\<not> isdigit up" "\<not> isdigit lo"
  shows "handles h ((up, lo) # ps)"
  unfolding handles_def
proof (intro allI impI, elim conjE)
  fix c :: connection and l
  assume c: "conn_state c = CNST_HEADERS" "header_state c = h" and l: "no_eol l" "short_digits 18 0 l"
  show "runs l c (case match_field ((up, lo) # ps) l of None \<Rightarrow> content_length c | Some v \<Rightarrow> v)"
  proof (cases l)
    case Nil
    then show ?thesis using c assms(2) by simp
  next
    case (Cons ch l')
    show ?thesis
    proof (cases "ch = up \<or> ch = lo")
      case True
      let ?c = "c\<lparr>header_state := nxt, content_length := content_length c\<rparr>"
      have st: "header_step ch c = Some ?c" using assms(3) [OF c(2), of ch] True by (auto simp: expect_def set_hd_def)
      have "short_digits 18 0 l'" using True assms(4,5) l(2) Cons by auto
      then have "runs l' ?c (case match_field ps l' of None \<Rightarrow> content_length ?c | Some v \<Rightarrow> v)"
        using c(1) l(1) Cons by (intro assms(1) [unfolded handles_def, rule_format]) simp
      moreover have "content_length ?c = content_length c" by simp
      ultimately have "runs l' ?c (case match_field ps l' of None \<Rightarrow> content_length c | Some v \<Rightarrow> v)" by (simp only:)
      from runs_Cons [OF c(1) st this] show ?thesis using True Cons by simp
    next
      case False
      then have "header_step ch c = Some (c\<lparr>header_state := HDST_TEXT\<rparr>)"
        using assms(3) [OF c(2), of ch] l(1) Cons by (auto simp: expect_def eol_or_def set_hd_def)
      from runs_to_text [OF c(1) this] l(1) Cons False show ?thesis by simp
    qed
  qed
qed

lemmas letter_step = inside_def header_step_def hd_content_def hd_length_def isdigit_def uchar_def

text \<open>The states from the last to the first.\<close>

lemma handles_name: "handles HDST_C (drop 1 field_name)"
proof -
  have "handles HDST_CONTENT_LENGTH_COLON (drop 15 field_name)" by (simp add: handles_def runs_colon field_name_def)
  then have "handles HDST_CONTENT_LENGTH ((CHR '':'', CHR '':'') # drop 15 field_name)" by (rule handles_expect) (simp_all add: letter_step)
  then have "handles HDST_CONTENT_LENGTH (drop 14 field_name)" by (simp add: field_name_def)
  then have "handles HDST_CONTENT_LENGT ((CHR ''H'', CHR ''h'') # drop 14 field_name)" by (rule handles_expect) (simp_all add: letter_step)
  then have "handles HDST_CONTENT_LENGT (drop 13 field_name)" by (simp add: field_name_def)
  then have "handles HDST_CONTENT_LENG ((CHR ''T'', CHR ''t'') # drop 13 field_name)" by (rule handles_expect) (simp_all add: letter_step)
  then have "handles HDST_CONTENT_LENG (drop 12 field_name)" by (simp add: field_name_def)
  then have "handles HDST_CONTENT_LEN ((CHR ''G'', CHR ''g'') # drop 12 field_name)" by (rule handles_expect) (simp_all add: letter_step)
  then have "handles HDST_CONTENT_LEN (drop 11 field_name)" by (simp add: field_name_def)
  then have "handles HDST_CONTENT_LE ((CHR ''N'', CHR ''n'') # drop 11 field_name)" by (rule handles_expect) (simp_all add: letter_step)
  then have "handles HDST_CONTENT_LE (drop 10 field_name)" by (simp add: field_name_def)
  then have "handles HDST_CONTENT_L ((CHR ''E'', CHR ''e'') # drop 10 field_name)" by (rule handles_expect) (simp_all add: letter_step)
  then have "handles HDST_CONTENT_L (drop 9 field_name)" by (simp add: field_name_def)
  then have "handles HDST_CONTENT_DASH ((CHR ''L'', CHR ''l'') # drop 9 field_name)" by (rule handles_expect) (simp_all add: letter_step)
  then have "handles HDST_CONTENT_DASH (drop 8 field_name)" by (simp add: field_name_def)
  then have "handles HDST_CONTENT ((CHR ''-'', CHR ''-'') # drop 8 field_name)" by (rule handles_expect) (simp_all add: letter_step)
  then have "handles HDST_CONTENT (drop 7 field_name)" by (simp add: field_name_def)
  then have "handles HDST_CONTEN ((CHR ''T'', CHR ''t'') # drop 7 field_name)" by (rule handles_expect) (simp_all add: letter_step)
  then have "handles HDST_CONTEN (drop 6 field_name)" by (simp add: field_name_def)
  then have "handles HDST_CONTE ((CHR ''N'', CHR ''n'') # drop 6 field_name)" by (rule handles_expect) (simp_all add: letter_step)
  then have "handles HDST_CONTE (drop 5 field_name)" by (simp add: field_name_def)
  then have "handles HDST_CONT ((CHR ''E'', CHR ''e'') # drop 5 field_name)" by (rule handles_expect) (simp_all add: letter_step)
  then have "handles HDST_CONT (drop 4 field_name)" by (simp add: field_name_def)
  then have "handles HDST_CON ((CHR ''T'', CHR ''t'') # drop 4 field_name)" by (rule handles_expect) (simp_all add: letter_step)
  then have "handles HDST_CON (drop 3 field_name)" by (simp add: field_name_def)
  then have "handles HDST_CO ((CHR ''N'', CHR ''n'') # drop 3 field_name)" by (rule handles_expect) (simp_all add: letter_step)
  then have "handles HDST_CO (drop 2 field_name)" by (simp add: field_name_def)
  then have "handles HDST_C ((CHR ''O'', CHR ''o'') # drop 2 field_name)" by (rule handles_expect) (simp_all add: letter_step)
  then show ?thesis by (simp add: field_name_def)
qed

lemma field_name_C: "field_name = (CHR ''C'', CHR ''c'') # drop 1 field_name"
  by (simp add: field_name_def)

lemma runs_line:
  assumes "conn_state c = CNST_HEADERS" "header_state c = HDST_CRLF" "no_eol l" "l \<noteq> []" "short_digits 18 0 l"
  shows "runs l c (new_length l (content_length c))"
proof -
  obtain ch l' where l: "l = ch # l'" using assms(4) by (cases l) auto
  have m: "match_field field_name l = (if is_c ch then match_field (drop 1 field_name) l' else None)"
    by (subst field_name_C) (simp add: l is_c_def)
  show ?thesis
  proof (cases "is_c ch")
    case True
    let ?c = "c\<lparr>header_state := HDST_C, content_length := content_length c\<rparr>"
    have st: "header_step ch c = Some ?c" using True assms(2,3) l by (simp add: header_step_def hd_crlf_def set_hd_def)
    have "short_digits 18 0 l'" using True assms(5) l by (auto simp: is_c_def isdigit_def uchar_def)
    then have "runs l' ?c (case match_field (drop 1 field_name) l' of None \<Rightarrow> content_length ?c | Some v \<Rightarrow> v)"
      using assms(1,3) l by (intro handles_name [unfolded handles_def, rule_format]) simp
    moreover have "content_length ?c = content_length c" by simp
    ultimately have "runs l' ?c (case match_field (drop 1 field_name) l' of None \<Rightarrow> content_length c | Some v \<Rightarrow> v)"
      by (simp only:)
    from runs_Cons [OF assms(1) st this] True m l show ?thesis by (simp add: new_length_def)
  next
    case False
    then have "header_step ch c = Some (c\<lparr>header_state := HDST_TEXT\<rparr>)"
      using assms(2,3) l by (simp add: header_step_def hd_crlf_def set_hd_def)
    from runs_to_text [OF assms(1) this] assms(3) False l m show ?thesis by (simp add: new_length_def)
  qed
qed

section \<open>The header block\<close>

definition field_lines :: "string list \<Rightarrow> string" where
  "field_lines ls = concat (map (\<lambda>l. l @ [CR, LF]) ls)"

definition field_ok :: "string \<Rightarrow> bool" where
  "field_ok l \<longleftrightarrow> l \<noteq> [] \<and> no_eol l \<and> short_digits 18 0 l"

lemma crlf_run:
  assumes "inside (header_state c)" "conn_state c = CNST_HEADERS"
  shows "header_loop (CR # LF # l) c = header_loop l (c\<lparr>header_state := HDST_CRLF\<rparr>)"
  using assms by (simp add: header_loop_Cons inside_cr set_hd_def) (simp add: header_step_def hd_cr_def set_hd_def)

lemma field_run:
  assumes "conn_state c = CNST_HEADERS" "header_state c = HDST_CRLF" "field_ok l"
  shows "header_loop (l @ CR # LF # r) c = header_loop r (c\<lparr>content_length := new_length l (content_length c)\<rparr>)"
proof -
  let ?n = "new_length l (content_length c)"
  from runs_line [of c l] assms obtain h where h: "inside h"
    "header_loop l c = Some (c\<lparr>header_state := h, content_length := ?n\<rparr>, [])"
    by (auto simp: field_ok_def runs_def)
  have e: "c\<lparr>content_length := ?n\<rparr>\<lparr>header_state := HDST_CRLF\<rparr> = c\<lparr>content_length := ?n\<rparr>"
    by (rule same_state) (simp add: assms(2))
  have "header_loop (l @ CR # LF # r) c = header_loop (CR # LF # r) (c\<lparr>header_state := h, content_length := ?n\<rparr>)"
    using h(2) assms(1) by (simp add: header_loop_append)
  also have "\<dots> = header_loop r (c\<lparr>header_state := h, content_length := ?n, header_state := HDST_CRLF\<rparr>)"
    by (rule crlf_run) (use h assms(1) in simp_all)
  also have "c\<lparr>header_state := h, content_length := ?n, header_state := HDST_CRLF\<rparr> =
      c\<lparr>content_length := ?n\<rparr>\<lparr>header_state := HDST_CRLF\<rparr>" by simp
  finally show ?thesis unfolding e .
qed

lemma fields_run:
  assumes "conn_state c = CNST_HEADERS" "header_state c = HDST_CRLF" "\<forall>l \<in> set ls. field_ok l"
  shows "header_loop (field_lines ls @ r) c = header_loop r (c\<lparr>content_length := fold new_length ls (content_length c)\<rparr>)"
  using assms
proof (induction ls arbitrary: c)
  case (Cons l ls)
  have "header_loop (field_lines (l # ls) @ r) c = header_loop (l @ CR # LF # field_lines ls @ r) c"
    by (simp add: field_lines_def)
  also have "\<dots> = header_loop (field_lines ls @ r) (c\<lparr>content_length := new_length l (content_length c)\<rparr>)"
    by (rule field_run) (use Cons.prems in simp_all)
  finally show ?case using Cons.IH [of "c\<lparr>content_length := new_length l (content_length c)\<rparr>"] Cons.prems by simp
qed (simp add: field_lines_def)

lemma protocol_run:
  assumes "conn_state c = CNST_HEADERS" "header_state c = HDST_LINE1_PROTOCOL" "no_eol p" "\<forall>ch \<in> set p. \<not> is_blank ch"
  shows "header_loop (p @ r) c = header_loop r c"
  using assms
proof (induction p)
  case (Cons ch p)
  have "header_step ch c = Some c" using Cons.prems same_state [OF Cons.prems(2)]
    by (simp add: header_step_def hd_protocol_def eol_or_def set_hd_def)
  with Cons show ?case by (simp add: header_loop_Cons)
qed simp

lemma blanks_run:
  assumes "conn_state c = CNST_HEADERS" "header_state c = HDST_LINE1_WHITESPACE" "\<forall>ch \<in> set b. is_blank ch"
  shows "header_loop (b @ r) c = header_loop r c"
  using assms by (induction b) (simp_all add: header_loop_Cons header_step_def hd_whitespace_def)

lemma status_run:
  assumes "conn_state c = CNST_HEADERS" "header_state c = HDST_LINE1_STATUS" "\<forall>ch \<in> set ds. isdigit ch"
    "0 \<le> http_status c" "http_status c < 10 ^ k" "k + length ds \<le> 9"
  shows "header_loop (ds @ r) c = header_loop r (c\<lparr>http_status := dec_val (http_status c) ds\<rparr>)"
  using assms
proof (induction ds arbitrary: c k)
  case (Cons d ds)
  let ?n = "10 * http_status c + digit_val d"
  have d: "isdigit d" using Cons.prems(3) by simp
  have "http_status c < 10 ^ 8" using Cons.prems(5,6) power_increasing [of k 8 "10 :: int"] by simp
  then have "header_step d c = Some (c\<lparr>http_status := ?n\<rparr>)"
    using d Cons.prems(2) by (simp add: header_step_def hd_status_def next_digit_def INT_MAX_def isdigit_def digit_val_def)
  moreover have "?n < 10 ^ Suc k" using Cons.prems(5) digit_val_bounds [OF d] by simp
  ultimately show ?case
    using Cons.IH [of "c\<lparr>http_status := ?n\<rparr>" "Suc k"] Cons.prems d digit_val_bounds [OF d] by (simp add: header_loop_Cons)
qed simp

lemma text_run:
  assumes "conn_state c = CNST_HEADERS" "header_state c = HDST_TEXT" "no_eol t"
  shows "header_loop (t @ r) c = header_loop r c"
  using assms
proof (induction t)
  case (Cons ch t)
  have "header_step ch c = Some c" using Cons.prems same_state [OF Cons.prems(2)]
    by (simp add: header_step_def hd_text_def eol_or_def set_hd_def)
  with Cons show ?case by (simp add: header_loop_Cons)
qed simp

lemma after_status_run:
  assumes "conn_state c = CNST_HEADERS" "header_state c = HDST_LINE1_STATUS" "no_eol t" "t = [] \<or> \<not> isdigit (hd t)"
  shows "header_loop (t @ CR # LF # r) c = header_loop r (c\<lparr>header_state := HDST_CRLF\<rparr>)"
proof (cases t)
  case Nil
  with assms(1,2) show ?thesis by (simp add: crlf_run inside_def)
next
  case (Cons ch t')
  let ?c = "c\<lparr>header_state := HDST_TEXT\<rparr>"
  have "header_step ch c = Some ?c"
    using assms(2-4) Cons by (simp add: header_step_def hd_status_def eol_or_def set_hd_def)
  then have "header_loop (t @ CR # LF # r) c = header_loop (t' @ CR # LF # r) ?c"
    using Cons assms(1) by (simp add: header_loop_Cons)
  also have "\<dots> = header_loop (CR # LF # r) ?c" by (rule text_run) (use assms(1,3) Cons in simp_all)
  finally show ?thesis using crlf_run [of ?c r] assms(1) by (simp add: inside_def)
qed

text \<open>A first line: protocol, blanks, a status of up to 9 digits, the reason.\<close>

definition status_line_ok :: "string \<Rightarrow> string \<Rightarrow> string \<Rightarrow> string \<Rightarrow> bool" where
  "status_line_ok p b ds t \<longleftrightarrow>
     no_eol p \<and> (\<forall>ch \<in> set p. \<not> is_blank ch) \<and> b \<noteq> [] \<and> (\<forall>ch \<in> set b. is_blank ch) \<and>
     ds \<noteq> [] \<and> length ds \<le> 9 \<and> (\<forall>ch \<in> set ds. isdigit ch) \<and> no_eol t \<and> (t = [] \<or> \<not> isdigit (hd t))"

lemma line1_run:
  assumes "conn_state c = CNST_HEADERS" "header_state c = HDST_LINE1_PROTOCOL" "status_line_ok p b ds t"
  shows "header_loop (p @ b @ ds @ t @ CR # LF # r) c =
    header_loop r (c\<lparr>header_state := HDST_CRLF, http_status := dec_val 0 ds\<rparr>)"
proof -
  obtain b0 b' d ds' where bd: "b = b0 # b'" "ds = d # ds'" using assms(3) by (cases b; cases ds) (auto simp: status_line_ok_def)
  let ?w = "c\<lparr>header_state := HDST_LINE1_WHITESPACE\<rparr>" and ?r = "CR # LF # r"
  let ?d = "c\<lparr>header_state := HDST_LINE1_STATUS, http_status := digit_val d\<rparr>"
  have swap: "c\<lparr>http_status := n, header_state := h\<rparr> = c\<lparr>header_state := h, http_status := n\<rparr>" for n h by (cases c) simp
  have d: "isdigit d" "\<not> is_blank d" using assms(3) bd isdigit_no_blank by (auto simp: status_line_ok_def)
  have "header_loop (p @ b @ ds @ t @ ?r) c = header_loop (b @ ds @ t @ ?r) c"
    by (rule protocol_run) (use assms in \<open>simp_all add: status_line_ok_def\<close>)
  also have "\<dots> = header_loop (b' @ ds @ t @ ?r) ?w"
    using assms bd by (simp add: header_loop_Cons header_step_def hd_protocol_def set_hd_def status_line_ok_def)
  also have "\<dots> = header_loop (ds @ t @ ?r) ?w"
    by (rule blanks_run) (use assms bd in \<open>simp_all add: status_line_ok_def\<close>)
  also have "\<dots> = header_loop (ds' @ t @ ?r) ?d"
    using assms(1) bd d by (simp add: header_loop_Cons header_step_def hd_whitespace_def set_hd_def swap)
  also have "\<dots> = header_loop (t @ ?r) (?d\<lparr>http_status := dec_val (http_status ?d) ds'\<rparr>)"
    by (rule status_run [where k = 1]) (use assms bd digit_val_bounds [OF d(1)] in \<open>simp_all add: status_line_ok_def\<close>)
  also have "?d\<lparr>http_status := dec_val (http_status ?d) ds'\<rparr> = ?d\<lparr>http_status := dec_val 0 ds\<rparr>" using bd d by simp
  also have "header_loop (t @ ?r) (?d\<lparr>http_status := dec_val 0 ds\<rparr>) =
      header_loop r (?d\<lparr>http_status := dec_val 0 ds, header_state := HDST_CRLF\<rparr>)"
    by (rule after_status_run) (use assms in \<open>simp_all add: status_line_ok_def\<close>)
  finally show ?thesis by (simp add: swap)
qed

lemma blank_line_run:
  assumes "conn_state c = CNST_HEADERS" "header_state c = HDST_CRLF"
  shows "header_loop (CR # LF # body) c = Some (c\<lparr>header_state := HDST_CRLFCR, conn_state := CNST_READING\<rparr>, body)"
  using assms
  by (simp add: header_loop_Cons header_step_def hd_crlf_def hd_crlfcr_def set_hd_def start_body_def header_loop_done)

section \<open>Properties\<close>

text \<open>C14: The header state machine reads a response as a line-wise reading does: it takes the status code from the
  first line, whatever blanks precede it, takes the value of the last \<open>Content-Length\<close> field in any
  spelling and leaves the length alone when there is none, and stops exactly at the first byte of the body.\<close>
theorem header_machine_reads_block:
  assumes "conn_state c = CNST_HEADERS" "header_state c = HDST_LINE1_PROTOCOL" "status_line_ok p b ds t"
    "\<forall>l \<in> set ls. field_ok l"
  shows "header_loop (p @ b @ ds @ t @ CR # LF # field_lines ls @ CR # LF # body) c =
    Some (c\<lparr>conn_state := CNST_READING, header_state := HDST_CRLFCR, http_status := dec_val 0 ds,
            content_length := fold new_length ls (content_length c)\<rparr>, body)"
proof -
  let ?c = "c\<lparr>header_state := HDST_CRLF, http_status := dec_val 0 ds\<rparr>"
  let ?d = "?c\<lparr>content_length := fold new_length ls (content_length ?c)\<rparr>"
  have "header_loop (p @ b @ ds @ t @ CR # LF # field_lines ls @ CR # LF # body) c =
      header_loop (field_lines ls @ CR # LF # body) ?c" by (rule line1_run [OF assms(1-3)])
  also have "\<dots> = header_loop (CR # LF # body) ?d" by (rule fields_run) (use assms in simp_all)
  also have "\<dots> = Some (?d\<lparr>header_state := HDST_CRLFCR, conn_state := CNST_READING\<rparr>, body)"
    by (rule blank_line_run) (use assms in simp_all)
  finally show ?thesis by simp
qed

definition some_connection :: connection where
  "some_connection = \<lparr>url_num = 0, c_sa_in = replicate 16 NUL, c_sa_len = 16, conn_fd = 5, conn_state = CNST_HEADERS,
     header_state = HDST_LINE1_PROTOCOL, did_connect = True, did_response = False,
     started_at = \<lparr>tv_sec = 0, tv_usec = 0\<rparr>, connect_at = \<lparr>tv_sec = 0, tv_usec = 0\<rparr>, request_at = \<lparr>tv_sec = 0, tv_usec = 0\<rparr>,
     response_at = \<lparr>tv_sec = 0, tv_usec = 0\<rparr>, idle_timer = None, wakeup_timer = None, content_length = -1,
     c_bytes = 0, c_checksum = 0, http_status = -1\<rparr>"

theorem header_machine_reads_block_witness:
  "header_loop (''HTTP/1.0'' @ '' '' @ ''200'' @ '' OK'' @ CR # LF # field_lines [''Date: 1'', ''content-Length:  42''] @ CR # LF # ''hello'')
     some_connection =
   Some (some_connection\<lparr>conn_state := CNST_READING, header_state := HDST_CRLFCR, http_status := 200, content_length := 42\<rparr>, ''hello'')"
proof -
  have a: "conn_state some_connection = CNST_HEADERS" "header_state some_connection = HDST_LINE1_PROTOCOL"
    by (simp_all add: some_connection_def)
  have b: "status_line_ok ''HTTP/1.0'' '' '' ''200'' '' OK''"
    by (simp add: status_line_ok_def is_blank_def isdigit_def uchar_def)
  have c: "\<forall>l \<in> set [''Date: 1'', ''content-Length:  42'']. field_ok l"
    by (simp add: field_ok_def isdigit_def uchar_def)
  have "fold new_length [''Date: 1'', ''content-Length:  42''] (-1) = 42"
    by (simp add: new_length_def field_name_def field_value_def is_blank_def isdigit_def uchar_def digit_val_def)
  moreover have "dec_val 0 ''200'' = 200" by (simp add: isdigit_def uchar_def digit_val_def)
  moreover have "content_length some_connection = -1" by (simp add: some_connection_def)
  ultimately show ?thesis using header_machine_reads_block [OF a b c, of "''hello''"] by (simp only:)
qed


end
