(* ===== verification/Load_Safe.thy ===== *)
theory Load_Safe
  imports Load_Inv Load_Header_Spec
begin

text \<open>
  The operations on connections keep the invariant of \<open>Load_Inv\<close> and never fail, but for the cases
  that the theorems name.
\<close>

section \<open>Reading\<close>

lemma upd_conn_good:
  assumes "load_rep s m" "i < length (connections s)" "touch (connections s ! i) (f (connections s ! i))"
  shows "upd_conn (int i) f s = Some (s\<lparr>connections := (connections s)[i := f (connections s ! i)]\<rparr>)"
    "load_rep (s\<lparr>connections := (connections s)[i := f (connections s ! i)]\<rparr>) m"
    "good s (s\<lparr>connections := (connections s)[i := f (connections s ! i)]\<rparr>)"
  using assms(2) good_touch [OF assms, of "s\<lparr>connections := (connections s)[i := f (connections s ! i)]\<rparr>"]
  by (simp_all add: upd_conn_def timers_same_def)

lemma get_conn_nat: "i < length (connections s) \<Longrightarrow> get_conn (int i) s = Some (connections s ! i)"
  by (simp add: get_conn_def)

lemma throttle_pause_good:
  assumes "load_rep s m" "i < length (connections s)" "in_use (connections s ! i)"
  shows "\<exists>s' m'. throttle_pause (int i) s = Some s' \<and> load_rep s' m' \<and> good s s' \<and> in_use (connections s' ! i)"
proof (cases "do_throttle (opt s) \<and> too_fast s (connections s ! i)")
  case False
  with assms show ?thesis by (auto simp: throttle_pause_def get_conn_nat good_def load_inv_def)
next
  case True
  let ?c = "connections s ! i"
  let ?s1 = "s\<lparr>connections := (connections s)[i := ?c\<lparr>conn_state := CNST_PAUSING\<rparr>]\<rparr>"
  have "touch ?c (?c\<lparr>conn_state := CNST_PAUSING\<rparr>)" using assms(3) by (simp add: touch_def in_use_def)
  note u = upd_conn_good [where f = "\<lambda>c. c\<lparr>conn_state := CNST_PAUSING\<rparr>", OF assms(1,2) this]
  have "timer_ok ?s1 (new_timer Wakeup_connection (int i) 1000 False (now s))"
    using True by (simp add: timer_ok_def new_timer_def)
  from create_good [OF u(2) this] obtain t s2 m2 where
    c: "tmr_create (Some (now s)) Wakeup_connection (int i) 1000 False ?s1 = Some (t, s2)" "frame_ok ?s1 s2"
    "load_rep s2 m2" "good ?s1 s2" "\<forall>a. t = Some a \<longrightarrow> m a = None \<and> m2 = m(a \<mapsto> new_timer Wakeup_connection (int i) 1000 False (now s))"
    "t = None \<longrightarrow> m2 = m"
    by (elim exE conjE)
  have len: "i < length (connections s2)" and c2: "connections s2 ! i = ?c\<lparr>conn_state := CNST_PAUSING\<rparr>"
    using assms(2) frame_load(1) [OF c(2)] by simp_all
  let ?c3 = "?c\<lparr>conn_state := CNST_PAUSING, wakeup_timer := t\<rparr>"
  let ?s3 = "s2\<lparr>connections := (connections s2)[i := ?c3]\<rparr>"
  have o: "owns m2 (int i) ?c3"
    using load_repD(2) [OF c(3) len] c2 c(5) by (auto simp: owns_def in_use_def new_timer_def)
  have n: "0 \<le> url_num ?c3" "nat (url_num ?c3) < length (urls s2)"
    using load_repD(3,4) [OF c(3) len] c2 by (simp_all add: in_use_def)
  have "timer_abs ?s3 m2" by (rule timer_abs_same [of s2]) (use c(3) in \<open>simp_all add: timers_same_def load_rep_def\<close>)
  then have r3: "load_rep ?s3 m2" by (rule load_rep_upd [OF c(3) len, where c = ?c3])
    (use o n True frame_load(3) [OF c(2)] in \<open>simp_all add: filled_def\<close>)
  have "used ?s3 = used s2"
    using filter_update_length [OF len, of in_use ?c3] c2 by (simp add: used_def in_use_def)
  then have "good s2 ?s3" by (intro goodI [OF r3]) simp_all
  then have "good s ?s3" using good_trans u(3) c(4) by blast
  moreover have "throttle_pause (int i) s = Some ?s3"
    using True u(1) c(1) assms(2) len c2 by (simp add: throttle_pause_def get_conn_nat upd_conn_def)
  ultimately show ?thesis using r3 len by (intro exI [of _ ?s3] exI [of _ m2]) (simp add: in_use_def)
qed

lemma handle_body_good:
  assumes "load_rep s m" "i < length (connections s)" "in_use (connections s ! i)"
  shows "\<exists>s'. handle_body (int i) buf s = Some s' \<and> good s s'"
proof -
  let ?f = "\<lambda>c. c\<lparr>c_bytes := c_bytes c + int (length buf)\<rparr>" and ?g = "\<lambda>c. c\<lparr>c_checksum := checksum_loop (c_checksum c) buf\<rparr>"
  have "touch (connections s ! i) (?f (connections s ! i))" by (simp add: touch_def in_use_def)
  note u = upd_conn_good [where f = ?f, OF assms(1,2) this]
  let ?s1 = "s\<lparr>connections := (connections s)[i := ?f (connections s ! i)]\<rparr>"
  obtain s2 m2 where t: "throttle_pause (int i) ?s1 = Some s2" "load_rep s2 m2" "good ?s1 s2" "in_use (connections s2 ! i)"
    using throttle_pause_good [OF u(2), of i] assms(2,3) by (auto simp: in_use_def)
  have len2: "i < length (connections s2)" using t(3) assms(2) by (simp add: good_def)
  obtain s3 where s3: "(if do_checksum (opt s2) then upd_conn (int i) ?g s2 else Some s2) = Some s3" "load_rep s3 m2" "good s2 s3"
    "in_use (connections s3 ! i)"
  proof (cases "do_checksum (opt s2)")
    case True
    have "touch (connections s2 ! i) (?g (connections s2 ! i))" by (simp add: touch_def in_use_def)
    from upd_conn_good [where f = ?g, OF t(2) len2 this] True t(4) len2 that show ?thesis by (simp add: in_use_def)
  next
    case False
    have "good s2 s2" using t(2) by (auto simp: good_def load_inv_def)
    with False t that show ?thesis by simp
  qed
  have len3: "i < length (connections s3)" using s3(3) len2 by (simp add: good_def)
  have g: "good s s3" using good_trans u(3) t(3) s3(3) by blast
  let ?c = "connections s3 ! i"
  have eq: "handle_body (int i) buf s =
      (if content_length ?c \<noteq> -1 \<and> c_bytes ?c \<ge> content_length ?c then close_connection (int i) s3 else Some s3)"
    unfolding handle_body_def using u(1) t(1) s3(1) len3 by (simp add: get_conn_nat)
  show ?thesis
  proof (cases "content_length ?c \<noteq> -1 \<and> c_bytes ?c \<ge> content_length ?c")
    case True
    from close_connection_rep [OF s3(2) len3 s3(4)] obtain s4 where s4: "close_connection (int i) s3 = Some s4"
      "load_rep s4 (without ?c m2)" "connections s4 = (connections s3)[i := ?c\<lparr>conn_state := CNST_FREE\<rparr>]" "opt s4 = opt s3"
      "exit_code s4 = exit_code s3" "num_connections s4 = num_connections s3 - 1" "int (used s4) = int (used s3) - 1"
      by (elim exE conjE)
    have "good s3 s4" by (rule goodI [OF s4(2)]) (use s4 in simp_all)
    with g s4(1) eq True show ?thesis using good_trans by auto
  next
    case False
    with eq have "handle_body (int i) buf s = Some s3" by (simp only: if_False)
    with g show ?thesis by blast
  qed
qed

text \<open>A step of the header machine.\<close>

definition reads_on :: "connection \<Rightarrow> connection \<Rightarrow> bool" where
  "reads_on c c' \<longleftrightarrow> touch c c' \<and> (conn_state c' = CNST_HEADERS \<or> conn_state c' = CNST_READING)"

lemma reads_on_base:
  assumes "conn_state c = CNST_HEADERS"
  shows "reads_on c c" "reads_on c (set_hd h c)" "reads_on c (eol_or ch h c)" "reads_on c (start_body c)"
    "reads_on c (c\<lparr>http_status := n\<rparr>)" "reads_on c (set_hd h (c\<lparr>http_status := n\<rparr>))"
    "reads_on c (c\<lparr>content_length := n\<rparr>)" "reads_on c (set_hd h (c\<lparr>content_length := n\<rparr>))" "reads_on c (expect u l h ch c)"
  using assms by (simp_all add: reads_on_def touch_def in_use_def set_hd_def eol_or_def start_body_def expect_def)

lemma reads_on_total:
  assumes "conn_state c = CNST_HEADERS"
  shows "reads_on c (hd_protocol ch c)" "reads_on c (hd_whitespace ch c)" "reads_on c (hd_bol ch c)" "reads_on c (hd_text ch c)"
    "reads_on c (hd_lf ch c)" "reads_on c (hd_cr ch c)" "reads_on c (hd_crlf ch c)" "reads_on c (hd_crlfcr ch c)"
    "reads_on c (hd_colon ch c)" "reads_on c (hd_colon_ws ch c)" "reads_on c (hd_content ch c)" "reads_on c (hd_length ch c)"
  by (simp_all add: hd_protocol_def hd_whitespace_def hd_bol_def hd_text_def hd_lf_def hd_cr_def hd_crlf_def hd_crlfcr_def
      hd_colon_def hd_colon_ws_def hd_content_def hd_length_def reads_on_base [OF assms] split: hdst.split)

lemma reads_on_number:
  assumes "conn_state c = CNST_HEADERS"
  shows "hd_status ch c = Some c' \<Longrightarrow> reads_on c c'" "hd_colon_num ch c = Some c' \<Longrightarrow> reads_on c c'"
  by (auto simp: hd_status_def hd_colon_num_def reads_on_base [OF assms] split: if_splits)

lemma header_step_touch:
  assumes "header_step ch c = Some c'" "conn_state c = CNST_HEADERS"
  shows "touch c c' \<and> (conn_state c' = CNST_HEADERS \<or> conn_state c' = CNST_READING)"
proof -
  note t = reads_on_total [OF assms(2)] reads_on_number [OF assms(2)]
  have "reads_on c c'"
    using assms(1) by (cases "header_state c") (auto simp only: header_step_def hdst.case option.inject intro: t)
  then show ?thesis by (simp add: reads_on_def)
qed

lemma header_loop_touch:
  assumes "header_loop buf c = Some (c', rest)" "conn_state c = CNST_HEADERS"
  shows "touch c c' \<and> (conn_state c' = CNST_HEADERS \<or> conn_state c' = CNST_READING)"
  using assms
proof (induction buf arbitrary: c)
  case (Cons ch buf)
  then obtain c1 where c1: "header_step ch c = Some c1" "header_loop buf c1 = Some (c', rest)"
    by (auto simp: header_loop_Cons split: option.splits)
  note t = header_step_touch [OF c1(1) Cons.prems(2)]
  show ?case
  proof (cases "conn_state c1 = CNST_HEADERS")
    case True
    with Cons.IH [OF c1(2)] t show ?thesis by (auto simp: touch_def)
  next
    case False
    with c1(2) t show ?thesis by (simp add: header_loop_done)
  qed
qed (simp add: touch_def)

lemma handle_bytes_good:
  assumes "load_rep s m" "i < length (connections s)" "wants_read (connections s ! i)"
  shows "case handle_bytes (int i) buf s of Some s' \<Rightarrow> good s s'
    | None \<Rightarrow> conn_state (connections s ! i) = CNST_HEADERS \<and> header_loop buf (connections s ! i) = None"
proof -
  let ?c = "connections s ! i"
  have use: "in_use ?c" using assms(3) by (auto simp: wants_read_def in_use_def)
  consider (h) "conn_state ?c = CNST_HEADERS" | (r) "conn_state ?c = CNST_READING" using assms(3) by (auto simp: wants_read_def)
  then show ?thesis
  proof cases
    case h
    show ?thesis
    proof (cases "header_loop buf ?c")
      case None
      with h assms(2) show ?thesis by (simp add: handle_bytes_def get_conn_nat)
    next
      case (Some p)
      then obtain c' rest where p: "header_loop buf ?c = Some (c', rest)" by (cases p) auto
      note t = header_loop_touch [OF p h]
      from t have t': "touch ?c c'" by simp
      note u = upd_conn_good [where f = "\<lambda>_. c'", OF assms(1,2) t']
      let ?s = "s\<lparr>connections := (connections s)[i := c']\<rparr>"
      have "i < length (connections ?s)" "in_use (connections ?s ! i)" using assms(2) t' use by (simp_all add: touch_def)
      from handle_body_good [OF u(2) this, of rest] obtain s2 where "handle_body (int i) rest ?s = Some s2" "good ?s s2" by blast
      with u h p assms(2) show ?thesis using good_trans by (auto simp: handle_bytes_def get_conn_nat)
    qed
  next
    case r
    from handle_body_good [OF assms(1,2) use, of buf] r assms(2) show ?thesis by (auto simp: handle_bytes_def get_conn_nat)
  qed
qed

definition seen :: "timeval \<Rightarrow> connection \<Rightarrow> connection" where
  "seen tv c = (if did_response c then c else c\<lparr>did_response := True, response_at := tv\<rparr>)"

lemma seen_touch: "touch c (seen tv c)" "conn_state (seen tv c) = conn_state c" "conn_fd (seen tv c) = conn_fd c"
  by (simp_all add: seen_def touch_def in_use_def)

lemma sys_good:
  assumes "load_rep s m"
  shows "load_rep (s\<lparr>sys := w\<rparr>) m \<and> good s (s\<lparr>sys := w\<rparr>)"
proof -
  have "timer_abs s m" using assms by (simp add: load_rep_def)
  then have "timer_abs (s\<lparr>sys := w\<rparr>) m" by (rule timer_abs_same [rotated]) (simp add: timers_same_def)
  with assms have r: "load_rep (s\<lparr>sys := w\<rparr>) m" by (simp add: load_rep_def slot_ok_def timer_ok_def filled_def)
  have "good s (s\<lparr>sys := w\<rparr>)" by (rule goodI [OF r]) (simp_all add: used_def)
  with r show ?thesis by blast
qed

lemma close_good:
  assumes "load_rep s m" "i < length (connections s)" "in_use (connections s ! i)"
  shows "\<exists>s'. close_connection (int i) s = Some s' \<and> good s s'"
proof -
  from close_connection_rep [OF assms] obtain s' where s': "close_connection (int i) s = Some s'"
    "load_rep s' (without (connections s ! i) m)"
    "connections s' = (connections s)[i := (connections s ! i)\<lparr>conn_state := CNST_FREE\<rparr>]" "opt s' = opt s"
    "exit_code s' = exit_code s" "num_connections s' = num_connections s - 1" "int (used s') = int (used s) - 1"
    by (elim exE conjE)
  have "good s s'" by (rule goodI [OF s'(2)]) (use s' in simp_all)
  with s'(1) show ?thesis by blast
qed

lemma handle_read_good:
  assumes "load_rep s m" "i < length (connections s)" "wants_read (connections s ! i)"
    "0 \<le> bytes_to_read (opt s)" "bytes_to_read (opt s) \<le> int READ_SIZE"
  shows "case handle_read (int i) s of Some s' \<Rightarrow> good s s'
    | None \<Rightarrow> conn_state (connections s ! i) = CNST_HEADERS \<and>
        (\<exists>k. header_loop (take k (inq (sys s) (conn_fd (connections s ! i)))) (seen (now s) (connections s ! i)) = None)"
proof -
  let ?c = "connections s ! i"
  have use: "in_use ?c" using assms(3) by (auto simp: wants_read_def in_use_def)
  obtain a t where a: "idle_timer ?c = Some a" "m a = Some t" "timer_proc t = Idle_connection"
    using load_repD(2) [OF assms(1,2) use] by (auto simp: owns_def)
  have "\<not> periodic t" using load_rep_timer [OF assms(1) a(2)] a(3) by (simp add: timer_ok_def)
  from reset_good [OF assms(1) a(2) this, of "now s"] obtain s1 m1 where s1: "tmr_reset (now s) a s = Some s1" "frame_ok s s1"
    "load_rep s1 m1" "good s s1" by (elim exE conjE)
  note fr = frame_load [OF s1(2)]
  have len: "i < length (connections s1)" and c1: "connections s1 ! i = ?c" using fr(1) assms(2) by simp_all
  note u = upd_conn_good [where f = "seen (now s)", OF s1(3) len seen_touch(1)]
  let ?s2 = "s1\<lparr>connections := (connections s1)[i := seen (now s) ?c]\<rparr>"
  have s2: "(if did_response ?c then Some s1 else upd_conn (int i) (\<lambda>c. c\<lparr>did_response := True, response_at := now s1\<rparr>) s1) = Some ?s2"
    unfolding c1 [symmetric] using len fr(7) by (auto simp: upd_conn_def seen_def)
  obtain r buf w where r: "sys_read (conn_fd ?c) (nat (bytes_to_read (opt s))) (sys s) = (r, buf, w)" by (metis prod_cases3)
  let ?s3 = "?s2\<lparr>sys := w\<rparr>"
  note q = sys_good [OF u(2) [unfolded c1], of w]
  have r3: "load_rep ?s3 m1" using q by (rule conjunct1)
  have g3: "good s ?s3" by (rule good_trans [OF s1(4) good_trans [OF u(3) [unfolded c1] conjunct2 [OF q]]])
  have len3: "i < length (connections ?s3)" and c3: "connections ?s3 ! i = seen (now s) ?c" using len by simp_all
  have use3: "in_use (connections ?s3 ! i)" "wants_read (connections ?s3 ! i)"
    using use assms(3) unfolding c3 by (simp_all add: in_use_def wants_read_def seen_touch)
  have eq: "handle_read (int i) s = (if r \<le> 0 then close_connection (int i) ?s3 else handle_bytes (int i) buf ?s3)"
    unfolding handle_read_def using assms(2,4,5) a(1) s1(1) s2 r fr by (simp add: get_conn_nat Let_def)
  show ?thesis
  proof (cases "r \<le> 0")
    case True
    from close_good [OF r3 len3 use3(1)] obtain s4 where "close_connection (int i) ?s3 = Some s4" "good ?s3 s4" by blast
    with True eq have "handle_read (int i) s = Some s4" "good s s4" using good_trans [OF g3] by (simp_all only: if_True)
    then show ?thesis by simp
  next
    case False
    have "\<exists>k. buf = take k (inq (sys s) (conn_fd ?c))" using r False
      by (auto simp: sys_read_def Let_def split: prod.splits if_splits)
    moreover have e: "handle_read (int i) s = handle_bytes (int i) buf ?s3" using eq False by (simp only: if_False)
    note b = handle_bytes_good [OF r3 len3 use3(2), of buf, unfolded c3 seen_touch(2)]
    ultimately show ?thesis
    proof (cases "handle_bytes (int i) buf ?s3")
      case None
      with b have "conn_state ?c = CNST_HEADERS" "header_loop buf (seen (now s) ?c) = None" by (simp_all only: option.case)
      with \<open>\<exists>k. buf = _ k\<close> show ?thesis unfolding e None by auto
    next
      case (Some s4)
      with b have "good ?s3 s4" by (simp only: option.case)
      from good_trans [OF g3 this] show ?thesis unfolding e Some by simp
    qed
  qed
qed

end
