(* ===== verification/Load_Start.thy ===== *)
theory Load_Start
  imports Load_Safe
begin

text \<open>
  Starting a connection, under every behaviour of the kernel: the slot is used afterwards, or it is
  free again; the invariant holds in both cases.
\<close>

section \<open>A slot that is being filled\<close>

definition half :: "(addr \<rightharpoonup> (proc, int) timer) \<Rightarrow> nat \<Rightarrow> load \<Rightarrow> bool" where
  "half m i s \<longleftrightarrow> load_rep s m \<and> i < length (connections s) \<and> conn_state (connections s ! i) = CNST_FREE \<and>
     owns m (int i) (connections s ! i) \<and> filled s (connections s ! i)"

text \<open>What the steps before the connection is in use do not change.\<close>

definition quietly :: "load \<Rightarrow> load \<Rightarrow> bool" where
  "quietly s s' \<longleftrightarrow> exit_code s' = exit_code s \<and> opt s' = opt s \<and> num_connections s' = num_connections s \<and> used s' = used s \<and>
     urls s' = urls s \<and> length (connections s') = length (connections s)"

lemma quietly_refl [simp]: "quietly s s"
  by (simp add: quietly_def)

lemma quietly_trans: "quietly s s1 \<Longrightarrow> quietly s1 s2 \<Longrightarrow> quietly s s2"
  by (simp add: quietly_def)

definition samec :: "load \<Rightarrow> load \<Rightarrow> bool" where
  "samec s s' \<longleftrightarrow> timers_same s s' \<and> exit_code s' = exit_code s \<and> opt s' = opt s \<and> num_connections s' = num_connections s \<and>
     urls s' = urls s \<and> connections s' = connections s"

lemma samec_trans: "samec s s1 \<Longrightarrow> samec s1 s2 \<Longrightarrow> samec s s2"
  by (simp add: samec_def timers_same_def)

lemma samec_steps:
  "samec s (print p s)" "samec s (closefd fd s)" "samec s (gettimeofday s)" "samec s (s\<lparr>sys := w\<rparr>)"
  "sysc f s = (r, s1) \<Longrightarrow> samec s s1" "random s = (k, s1) \<Longrightarrow> samec s s1"
  by (auto simp: samec_def timers_same_def load_ctl split: prod.splits)

lemma bind_source_samec: "bind_source fd s = (ok, s1) \<Longrightarrow> samec s s1"
  unfolding bind_source_def
  by (auto split: if_splits prod.splits simp: samec_def timers_same_def dest!: samec_steps(5,6))

lemma samec_good:
  assumes "load_rep s m" "samec s s'"
  shows "load_rep s' m" "good s s'"
proof -
  have "timer_abs s m" using assms(1) by (simp add: load_rep_def)
  then have "timer_abs s' m" using assms(2) timer_abs_same by (auto simp: samec_def)
  with assms show r: "load_rep s' m" by (simp add: load_rep_def slot_ok_def samec_def timer_ok_def filled_def)
  show "good s s'" by (rule goodI [OF r]) (use assms(2) in \<open>simp_all add: samec_def used_def\<close>)
qed

lemma half_samec:
  assumes "half m i s" "samec s s'"
  shows "half m i s'" "quietly s s'"
proof -
  have "load_rep s' m" using samec_good(1) [OF _ assms(2)] assms(1) by (simp add: half_def)
  with assms show "half m i s'" by (simp add: half_def samec_def filled_def)
  show "quietly s s'" using assms(2) by (simp add: quietly_def samec_def used_def)
qed

lemma half_upd:
  assumes "half m i s" "touch (connections s ! i) (f (connections s ! i))"
  shows "\<exists>s'. upd_conn (int i) f s = Some s' \<and> half m i s' \<and> quietly s s' \<and> connections s' ! i = f (connections s ! i)"
proof -
  have r: "load_rep s m" "i < length (connections s)" using assms(1) by (simp_all add: half_def)
  note u = upd_conn_good [where f = f, OF r assms(2)]
  let ?s = "s\<lparr>connections := (connections s)[i := f (connections s ! i)]\<rparr>"
  have "used ?s = used s" using u(3) by (simp add: good_def)
  moreover have "half m i ?s"
    using assms u(2) owns_touch [of "f (connections s ! i)" "connections s ! i"]
    by (simp add: half_def touch_def in_use_def filled_def)
  ultimately show ?thesis using u(1) r(2) by (intro exI [of _ ?s]) (simp add: quietly_def)
qed

text \<open>The result of a start.\<close>

definition started :: "nat \<Rightarrow> load \<Rightarrow> load \<Rightarrow> bool" where
  "started i s s' \<longleftrightarrow> load_inv s' \<and> exit_code s' = exit_code s \<and> opt s' = opt s \<and>
     length (connections s') = length (connections s) \<and> length (urls s') = length (urls s) \<and>
     used s' = used s + (if in_use (connections s' ! i) then 1 else 0) \<and>
     (num_connections s' = num_connections s \<or> num_connections s' = num_connections s - 1 \<and> \<not> in_use (connections s' ! i))"

lemma started_quietly: "quietly s s1 \<Longrightarrow> started i s1 s' \<Longrightarrow> started i s s'"
  by (simp add: quietly_def started_def)

lemma half_started: "half m i s \<Longrightarrow> started i s s"
  by (auto simp: half_def started_def load_inv_def in_use_def)

lemma half_samec_started: "half m i s \<Longrightarrow> samec s s' \<Longrightarrow> started i s s'"
  using half_samec half_started started_quietly by blast

lemma half_use:
  assumes "half m i s" "in_use (f (connections s ! i))" "idle_timer (f (connections s ! i)) = idle_timer (connections s ! i)"
    "wakeup_timer (f (connections s ! i)) = wakeup_timer (connections s ! i)" "url_num (f (connections s ! i)) = url_num (connections s ! i)"
  shows "\<exists>s'. upd_conn (int i) f s = Some s' \<and> started i s s'"
proof -
  let ?c = "f (connections s ! i)"
  let ?s = "s\<lparr>connections := (connections s)[i := ?c]\<rparr>"
  have h: "load_rep s m" "i < length (connections s)" "timer_abs s m" using assms(1) by (simp_all add: half_def load_rep_def)
  have "timer_abs ?s m" using h(3) by (rule timer_abs_same [rotated]) (simp add: timers_same_def)
  then have "load_rep ?s m"
    by (rule load_rep_upd [OF h(1,2), where c = ?c])
      (use assms owns_touch [OF assms(3,4)] in \<open>simp_all add: half_def filled_def\<close>)
  moreover have "used ?s = used s + 1"
    using filter_update_length [OF h(2), of in_use ?c] assms(1,2) by (simp add: used_def half_def in_use_def)
  ultimately show ?thesis using h(2) assms(2) by (intro exI [of _ ?s]) (auto simp: started_def upd_conn_def load_inv_def)
qed

lemma half_close:
  assumes "half m i s"
  shows "\<exists>s'. close_connection (int i) s = Some s' \<and> started i s s'"
proof -
  let ?c = "connections s ! i"
  have h: "load_rep s m" "i < length (connections s)" "timer_abs s m" "owns m (int i) ?c" "0 \<le> url_num ?c"
    "nat (url_num ?c) < length (urls s)" "conn_state ?c = CNST_FREE"
    using assms by (simp_all add: half_def load_rep_def filled_def)
  from close_connection_ok [OF h(3,2,4-6)] obtain s' where s': "close_connection (int i) s = Some s'"
    "timer_abs s' (without ?c m)" "connections s' = (connections s)[i := ?c\<lparr>conn_state := CNST_FREE\<rparr>]"
    "length (urls s') = length (urls s)" "opt s' = opt s" "exit_code s' = exit_code s"
    "num_connections s' = num_connections s - 1" by (elim exE conjE)
  have "load_rep s' (without ?c m)"
    by (rule load_rep_upd [OF h(1,2) s'(2-5)]) (use owns_without [OF h(4)] ran_without in \<open>auto simp: in_use_def filled_def\<close>)
  moreover have "used s' = used s"
    using filter_update_length [OF h(2), of in_use "?c\<lparr>conn_state := CNST_FREE\<rparr>"] h(7) s'(3) by (simp add: used_def in_use_def)
  ultimately show ?thesis using s' h(2) by (intro exI [of _ s']) (auto simp: started_def load_inv_def in_use_def)
qed

section \<open>The steps of a start\<close>

definition request_fits :: "options \<Rightarrow> url \<Rightarrow> bool" where
  "request_fits o1 u \<longleftrightarrow> (\<exists>buf n. format_request o1 u = Some (buf, n) \<and> n \<le> length buf)"

lemma send_request_started:
  assumes "half m i s" "request_fits (opt s) (urls s ! nat (url_num (connections s ! i)))"
  shows "\<exists>s'. send_request (int i) s = Some s' \<and> started i s s'"
proof -
  let ?c = "connections s ! i"
  let ?u = "urls s ! nat (url_num ?c)"
  obtain buf n where f: "format_request (opt s) ?u = Some (buf, n)" "n \<le> length buf" using assms(2) by (auto simp: request_fits_def)
  have i: "i < length (connections s)" using assms(1) by (simp add: half_def)
  obtain s1 where s1: "upd_conn (int i) (\<lambda>c. c\<lparr>did_connect := True\<rparr>) s = Some s1" "half m i s1" "quietly s s1"
    "connections s1 ! i = ?c\<lparr>did_connect := True\<rparr>"
    using half_upd [OF assms(1), of "\<lambda>c. c\<lparr>did_connect := True\<rparr>"] by (auto simp: touch_def in_use_def)
  obtain s2 where s2: "upd_conn (int i) (\<lambda>c. c\<lparr>request_at := now s1\<rparr>) s1 = Some s2" "half m i s2" "quietly s1 s2"
    using half_upd [OF s1(2), of "\<lambda>c. c\<lparr>request_at := now s1\<rparr>"] by (auto simp: touch_def in_use_def)
  obtain r s3 where r: "sysc (sys_write (conn_fd ?c) (take n buf)) s2 = (r, s3)" by (cases "sysc (sys_write (conn_fd ?c) (take n buf)) s2")
  note h3 = half_samec [OF s2(2) samec_steps(5) [OF r]]
  have q: "quietly s s3" using s1(3) s2(3) h3(2) quietly_trans by blast
  have u: "get_url (url_num ?c) s1 = Some ?u" using assms(1) s1(3) by (simp add: half_def filled_def get_url_def quietly_def)
  have eq: "send_request (int i) s =
      (if r < 0 then close_connection (int i) (print (Perror (url_str ?u)) s3)
       else upd_conn (int i) (\<lambda>c. c\<lparr>conn_state := CNST_HEADERS, header_state := HDST_LINE1_PROTOCOL\<rparr>) s3)"
    unfolding send_request_def using i s1 s2 u f r by (simp add: get_conn_nat quietly_def)
  show ?thesis
  proof (cases "r < 0")
    case True
    note h4 = half_samec [OF h3(1) samec_steps(1), of "Perror (url_str ?u)"]
    from half_close [OF h4(1)] started_quietly [OF quietly_trans [OF q h4(2)]] eq True show ?thesis by auto
  next
    case False
    from half_use [OF h3(1), of "\<lambda>c. c\<lparr>conn_state := CNST_HEADERS, header_state := HDST_LINE1_PROTOCOL\<rparr>"]
      started_quietly [OF q] eq False show ?thesis by (auto simp: in_use_def)
  qed
qed

lemma connect_socket_started:
  assumes "half m i s" "u = urls s ! nat (url_num (connections s ! i))" "request_fits (opt s) u" "u_sa_len u \<le> int CONN_SA_SIZE"
  shows "\<exists>s'. connect_socket (int i) u fd s = Some s' \<and> started i s s'"
proof -
  let ?f = "\<lambda>c. c\<lparr>c_sa_len := u_sa_len u, c_sa_in := take (nat (u_sa_len u)) (u_sa_in u) @ drop (nat (u_sa_len u)) (c_sa_in c),
               connect_at := now s\<rparr>"
  obtain s1 where s1: "upd_conn (int i) ?f s = Some s1" "half m i s1" "quietly s s1" "connections s1 ! i = ?f (connections s ! i)"
    using half_upd [OF assms(1), of ?f] by (auto simp: touch_def in_use_def)
  obtain r s2 where r: "sysc sys_connect s1 = (r, s2)" by (cases "sysc sys_connect s1")
  note sc = samec_steps(5) [OF r]
  note h2 = half_samec [OF s1(2) sc]
  have q: "quietly s s2" using s1(3) h2(2) quietly_trans by blast
  have eq: "connect_socket (int i) u fd s =
      (if r < 0
       then if errno (sys s2) = EINPROGRESS then upd_conn (int i) (\<lambda>c. c\<lparr>conn_state := CNST_CONNECTING\<rparr>) s2
            else socket_error (url_str u) fd s2
       else handle_connect (int i) False (gettimeofday s2))"
    unfolding connect_socket_def using assms(4) s1(1) r by simp
  consider (wait) "r < 0" "errno (sys s2) = EINPROGRESS" | (err) "r < 0" "errno (sys s2) \<noteq> EINPROGRESS" | (instant) "\<not> r < 0" by blast
  then show ?thesis
  proof cases
    case wait
    from half_use [OF h2(1), of "\<lambda>c. c\<lparr>conn_state := CNST_CONNECTING\<rparr>"] started_quietly [OF q] eq wait
    show ?thesis by (auto simp: in_use_def)
  next
    case err
    have "samec s2 (closefd fd (print (Perror (url_str u)) s2))" using samec_steps(1,2) samec_trans by blast
    from half_samec_started [OF h2(1) this] started_quietly [OF q] eq err show ?thesis by (auto simp: socket_error_def)
  next
    case instant
    note h3 = half_samec [OF h2(1) samec_steps(3)]
    let ?s3 = "gettimeofday s2"
    have "url_num (connections ?s3 ! i) = url_num (connections s ! i)"
      using s1(4) sc samec_steps(3) [of s2] by (simp add: samec_def)
    then have "request_fits (opt ?s3) (urls ?s3 ! nat (url_num (connections ?s3 ! i)))"
      using assms(2,3) q h3(2) by (simp add: quietly_def)
    from send_request_started [OF h3(1) this] started_quietly [OF quietly_trans [OF q h3(2)]] eq instant
    show ?thesis by (auto simp: handle_connect_def)
  qed
qed

lemma socket_error_started:
  assumes "half m i s" "quietly s0 s"
  shows "\<exists>s'. socket_error name fd s = Some s' \<and> started i s0 s'"
proof -
  have "samec s (closefd fd (print (Perror name) s))" using samec_steps(1,2) samec_trans by blast
  from started_quietly [OF assms(2) half_samec_started [OF assms(1) this]] show ?thesis by (simp add: socket_error_def)
qed

lemma open_socket_started:
  assumes "half m i s" "u = urls s ! nat (url_num (connections s ! i))" "request_fits (opt s) u" "u_sa_len u \<le> int CONN_SA_SIZE"
  shows "\<exists>s'. open_socket (int i) u s = Some s' \<and> started i s s'"
proof -
  obtain fd s1 where 1: "sysc sys_socket s = (fd, s1)" by (cases "sysc sys_socket s")
  note h1 = half_samec [OF assms(1) samec_steps(5) [OF 1]]
  obtain s2 where s2: "upd_conn (int i) (\<lambda>c. c\<lparr>conn_fd := fd\<rparr>) s1 = Some s2" "half m i s2" "quietly s1 s2"
    "connections s2 ! i = (connections s1 ! i)\<lparr>conn_fd := fd\<rparr>"
    using half_upd [OF h1(1), of "\<lambda>c. c\<lparr>conn_fd := fd\<rparr>"] by (auto simp: touch_def in_use_def)
  note q2 = quietly_trans [OF h1(2) s2(3)]
  obtain flg s3 where 3: "sysc (sys_getfl fd) s2 = (flg, s3)" by (cases "sysc (sys_getfl fd) s2")
  note h3 = half_samec [OF s2(2) samec_steps(5) [OF 3]]
  note q3 = quietly_trans [OF q2 h3(2)]
  obtain r s4 where 4: "sysc (sys_setfl fd (flg OR O_NONBLOCK)) s3 = (r, s4)" by (cases "sysc (sys_setfl fd (flg OR O_NONBLOCK)) s3")
  note h4 = half_samec [OF h3(1) samec_steps(5) [OF 4]]
  note q4 = quietly_trans [OF q3 h4(2)]
  obtain ok s5 where 5: "bind_source fd s4 = (ok, s5)" by (cases "bind_source fd s4")
  note h5 = half_samec [OF h4(1) bind_source_samec [OF 5]]
  note q5 = quietly_trans [OF q4 h5(2)]
  have eq: "open_socket (int i) u s =
      (if fd < 0 then Some (print (Perror (url_str u)) s2)
       else if flg = -1 then socket_error (url_str u) fd s3
       else if r < 0 then socket_error (url_str u) fd s4
       else if \<not> ok then socket_error ''binding local address'' fd s5
       else connect_socket (int i) u fd s5)"
    unfolding open_socket_def using 1 s2(1) 3 4 5 by simp
  have c5: "url_num (connections s5 ! i) = url_num (connections s ! i)"
    using samec_steps(5) [OF 1] samec_steps(5) [OF 3] samec_steps(5) [OF 4] bind_source_samec [OF 5] s2(4) by (simp add: samec_def)
  have c: "\<exists>s'. connect_socket (int i) u fd s5 = Some s' \<and> started i s5 s'"
    by (rule connect_socket_started [OF h5(1)]) (use assms q5 c5 in \<open>simp_all add: quietly_def\<close>)
  have e: "started i s (print (Perror (url_str u)) s2)"
    by (rule started_quietly [OF q2 half_samec_started [OF s2(2) samec_steps(1)]])
  show ?thesis
    using eq c e started_quietly [OF q5] socket_error_started [OF h3(1) q3] socket_error_started [OF h4(1) q4]
      socket_error_started [OF h5(1) q5] by (cases "fd < 0"; cases "flg = -1"; cases "r < 0"; cases ok) auto
qed

lemma start_socket_started:
  assumes "load_rep s m" "i < length (connections s)" "conn_state (connections s ! i) = CNST_FREE" "has_room s"
    "0 \<le> u" "nat u < length (urls s)" "request_fits (opt s) (urls s ! nat u)" "u_sa_len (urls s ! nat u) \<le> int CONN_SA_SIZE"
  shows "\<exists>s'. start_socket u (int i) s = Some s' \<and> started i s s'"
proof -
  let ?t = "new_timer Idle_connection (int i) (idle_secs (opt s) * 1000) False (now s)"
  have "timer_abs s m" using assms(1) by (simp add: load_rep_def)
  from create_abs [OF this, of "now s" Idle_connection "int i" "idle_secs (opt s) * 1000" False] assms(4)
  obtain a s1 where a: "tmr_create (Some (now s)) Idle_connection (int i) (idle_secs (opt s) * 1000) False s = Some (Some a, s1)"
    "frame_ok s s1" "m a = None" "timer_abs s1 (m(a \<mapsto> ?t))" by auto
  note fr = frame_load [OF a(2)]
  let ?c = "fill_slot u (Some a) (now s1) (connections s ! i)"
  let ?s = "s1\<lparr>connections := (connections s1)[i := ?c]\<rparr>"
  have len: "i < length (connections s1)" using assms(2) fr(1) by simp
  have o: "owns (m(a \<mapsto> ?t)) (int i) ?c" by (simp add: owns_def fill_slot_def new_timer_def)
  have st: "conn_state ?c = CNST_FREE" "url_num ?c = u" using assms(3) by (simp_all add: fill_slot_def)
  have f: "filled s ?c" using assms(5,6) by (simp add: fill_slot_def filled_def)
  have "timer_ok ?s ?t"
    using len f fr(2,3) by (simp add: timer_ok_def new_timer_def filled_def)
  then have k: "x \<in> ran (m(a \<mapsto> ?t)) \<Longrightarrow> x \<in> ran m \<or> timer_ok ?s x" for x
    using a(3) by (auto simp: ran_def split: if_splits)
  have "timer_abs ?s (m(a \<mapsto> ?t))"
    by (rule timer_abs_same [of s1]) (use a(4) in \<open>simp_all add: timers_same_def\<close>)
  then have "load_rep ?s (m(a \<mapsto> ?t))"
    by (rule load_rep_upd [OF assms(1,2), where c = ?c])
      (use o st f fr k owns_fresh [where m = m and a = a, OF a(3)] in \<open>simp_all add: in_use_def\<close>)
  then have h: "half (m(a \<mapsto> ?t)) i ?s" using len o st f fr by (simp add: half_def filled_def)
  have q: "quietly s ?s"
    using filter_update_length [OF assms(2), of in_use ?c] assms(3) st fr by (simp add: quietly_def used_def in_use_def)
  have "\<exists>s'. open_socket (int i) (urls s ! nat u) ?s = Some s' \<and> started i ?s s'"
    by (rule open_socket_started [OF h]) (use assms fr len st in simp_all)
  moreover have "start_socket u (int i) s = open_socket (int i) (urls s ! nat u) ?s"
    unfolding start_socket_def using a(1) len fr assms(5,6) by (simp add: upd_conn_def get_url_def)
  ultimately show ?thesis using started_quietly [OF q] by auto
qed

lemma find_free:
  assumes "find (is_free s) [0..<length (connections s)] = Some i"
  shows "i < length (connections s)" "conn_state (connections s ! i) = CNST_FREE"
proof -
  obtain k where "k < length [0..<length (connections s)]" "is_free s ([0..<length (connections s)] ! k)"
    "i = [0..<length (connections s)] ! k"
    using assms by (auto simp: find_Some_iff)
  then show "i < length (connections s)" "conn_state (connections s ! i) = CNST_FREE" by (simp_all add: is_free_def)
qed

definition targets_ok :: "load \<Rightarrow> bool" where
  "targets_ok s \<longleftrightarrow> urls s \<noteq> [] \<and> (\<forall>u \<in> set (urls s). request_fits (opt s) u \<and> u_sa_len u \<le> int CONN_SA_SIZE)"

lemma start_connection_good:
  assumes "load_rep s m" "\<not> exited s" "\<exists>c \<in> set (connections s). conn_state c = CNST_FREE" "has_room s" "targets_ok s"
  shows "\<exists>s'. start_connection s = Some s' \<and> load_inv s' \<and> exit_code s' = exit_code s \<and> opt s' = opt s \<and>
    length (connections s') = length (connections s) \<and>
    (num_connections s' - int (used s') = num_connections s - int (used s) \<or>
     num_connections s' = num_connections s - 1 \<and> used s' = used s)"
proof -
  have "find (is_free s) [0..<length (connections s)] \<noteq> None"
    using assms(3) by (auto simp: find_None_iff is_free_def in_set_conv_nth)
  then obtain i where i: "find (is_free s) [0..<length (connections s)] = Some i" by auto
  note fi = find_free [OF i]
  obtain k s1 where k: "random s = (k, s1)" by (cases "random s")
  note sc = samec_steps(6) [OF k]
  note r1 = samec_good(1) [OF assms(1) sc]
  let ?u = "k mod int (length (urls s1))"
  have ne: "urls s1 \<noteq> []" using assms(5) sc by (simp add: targets_ok_def samec_def)
  then have u: "0 \<le> ?u" "nat ?u < length (urls s1)" by (simp_all add: nat_less_iff)
  have "urls s1 ! nat ?u \<in> set (urls s)" using u(2) sc by (simp add: samec_def)
  then have fit: "request_fits (opt s1) (urls s1 ! nat ?u)" "u_sa_len (urls s1 ! nat ?u) \<le> int CONN_SA_SIZE"
    using assms(5) sc by (auto simp: targets_ok_def samec_def)
  have room: "has_room s1" using assms(4) k by (auto simp: has_room_def random_def)
  from start_socket_started [OF r1 _ _ room u fit, of i] fi sc obtain s2 where
    s2: "start_socket ?u (int i) s1 = Some s2" "started i s1 s2" by (auto simp: samec_def)
  have len: "i < length (connections s2)" using s2(2) fi(1) sc by (simp add: started_def samec_def)
  define s3 where "s3 = (if in_use (connections s2 ! i) then s2\<lparr>num_connections := num_connections s2 + 1,
       stat := (stat s2)\<lparr>max_parallel := max (max_parallel (stat s2)) (num_connections s2 + 1)\<rparr>\<rparr> else s2)"
  let ?s4 = "s3\<lparr>stat := (stat s3)\<lparr>fetches_started := fetches_started (stat s3) + 1\<rparr>\<rparr>"
  have cs: "count_started (int i) s2 = Some ?s4"
    unfolding count_started_def s3_def in_use_def using len by (simp add: get_conn_nat Let_def)
  have same: "timers_same s2 ?s4" "connections ?s4 = connections s2" "urls ?s4 = urls s2" "exit_code ?s4 = exit_code s2"
    "opt ?s4 = opt s2" "num_connections ?s4 = num_connections s2 + (if in_use (connections s2 ! i) then 1 else 0)"
    by (simp_all add: s3_def timers_same_def)
  have "load_inv ?s4"
  proof -
    from s2(2) obtain m2 where m2: "load_rep s2 m2" by (auto simp: started_def load_inv_def)
    then have "timer_abs ?s4 m2" using timer_abs_same [OF same(1)] by (simp add: load_rep_def)
    with m2 same(2,3,5) have "load_rep ?s4 m2" by (simp add: load_rep_def slot_ok_def timer_ok_def filled_def)
    then show ?thesis by (auto simp: load_inv_def)
  qed
  moreover have "start_connection s = Some ?s4"
    unfolding start_connection_def using i k ne s2 cs assms(2) sc by (simp add: and_then_def started_def samec_def)
  moreover have "used ?s4 = used s2" using same(2) by (simp add: used_def)
  moreover have "used s1 = used s" using sc by (simp add: used_def samec_def)
  ultimately show ?thesis using s2(2) same sc
    by (intro exI [of _ ?s4]) (auto simp: started_def samec_def)
qed

end
