(* ===== verification/Load_Keep.thy ===== *)
theory Load_Keep
  imports Load_Start Timers_Calls
begin

text \<open>
  What the operations of the load generator keep whenever they return: the options, the addresses and requests of
  the URLs, and the memory for timers, of which only a start takes some (and the pause of a throttled connection).
\<close>

section \<open>Steps that may end the process\<close>

definition settles :: "(load \<Rightarrow> bool) \<Rightarrow> load option \<Rightarrow> bool" where
  "settles Q r \<longleftrightarrow> (\<exists>s. r = Some s \<and> (exited s \<or> Q s))"

lemma settles_then:
  assumes "settles P r" "\<And>s. \<not> exited s \<Longrightarrow> P s \<Longrightarrow> settles Q (f s)"
  shows "settles Q (and_then r f)"
  using assms by (force simp: settles_def and_then_def)

lemma settles_Some [intro]: "Q s \<Longrightarrow> settles Q (Some s)"
  by (simp add: settles_def)

lemma settles_mono: "settles P r \<Longrightarrow> (\<And>s. P s \<Longrightarrow> Q s) \<Longrightarrow> settles Q r"
  by (auto simp: settles_def)

section \<open>What the operations keep\<close>

text \<open>The part of a URL that a request depends on.\<close>

definition target_of :: "url \<Rightarrow> string \<times> int \<times> string \<times> int" where
  "target_of u = (hostname u, port u, filename u, u_sa_len u)"

definition kept :: "load \<Rightarrow> load \<Rightarrow> bool" where
  "kept s s' \<longleftrightarrow> mem_left s' = mem_left s \<and> opt s' = opt s \<and> map target_of (urls s') = map target_of (urls s)"

named_theorems load_kept \<open>what an operation of the load generator keeps\<close>

lemma kept_trans: "kept s s1 \<Longrightarrow> kept s1 s2 \<Longrightarrow> kept s s2"
  by (simp add: kept_def)

lemma kept_steps [load_kept]:
  "sysc f s = (r, s') \<Longrightarrow> kept s s'" "random s = (k, s') \<Longrightarrow> kept s s'" "upd_conn i g s = Some s' \<Longrightarrow> kept s s'"
  by (auto simp: kept_def load_ctl upd_conn_def split: prod.splits if_splits)

lemma kept_simple [simp]: "kept s (print p s)" "kept s (closefd fd s)" "kept s (gettimeofday s)"
  by (simp_all add: kept_def load_ctl)

lemma kept_aside: "aside s s' \<Longrightarrow> kept s s'" for s s' :: load
  by (cases s; cases s') (simp add: aside_def kept_def)

lemma kept_url:
  assumes "upd_url u f s = Some s'" "\<And>x. target_of (f x) = target_of x"
  shows "kept s s'"
  using assms by (auto simp: kept_def upd_url_def map_update split: if_splits intro!: list_update_same_conv [THEN iffD2])

lemma cancel_timer_kept [load_kept]: "cancel_timer t s = Some s' \<Longrightarrow> kept s s'"
  by (auto simp: cancel_timer_def kept_def intro: kept_aside [unfolded kept_def] dest!: tmr_cancel_aside kept_aside split: option.splits)

lemma verify_kept [load_kept]: "verify_checksum c s = Some s' \<Longrightarrow> kept s s'" "verify_bytes c s = Some s' \<Longrightarrow> kept s s'"
proof -
  have u: "upd_url k (\<lambda>u. u\<lparr>u_checksum := x, got_checksum := True\<rparr>) s = Some s' \<Longrightarrow> kept s s'"
    "upd_url k (\<lambda>u. u\<lparr>u_bytes := x, got_bytes := True\<rparr>) s = Some s' \<Longrightarrow> kept s s'" for k x
    by (erule kept_url, simp add: target_of_def)+
  show "verify_checksum c s = Some s' \<Longrightarrow> kept s s'" "verify_bytes c s = Some s' \<Longrightarrow> kept s s'"
    by (auto simp: verify_checksum_def verify_bytes_def print_def Option.bind_eq_Some_conv dest!: u split: if_splits)
      (simp_all add: kept_def)
qed

lemma close_connection_kept [load_kept]:
  assumes "close_connection i s = Some s'"
  shows "kept s s'"
proof -
  from assms obtain c s1 s2 s3 where s: "upd_conn i (\<lambda>c. c\<lparr>conn_state := CNST_FREE\<rparr>) (closefd (conn_fd c) s) = Some s1"
    "cancel_timer (idle_timer c) s1 = Some s2" "cancel_timer (wakeup_timer c) s2 = Some s3"
    "(if do_checksum (opt s3) then verify_checksum c (s3\<lparr>num_connections := num_connections s3 - 1, stat := close_stats c (stat s3)\<rparr>)
      else verify_bytes c (s3\<lparr>num_connections := num_connections s3 - 1, stat := close_stats c (stat s3)\<rparr>)) = Some s'"
    by (auto simp: close_connection_def Option.bind_eq_Some_conv Let_def)
  then have "kept s s3" using kept_simple(2) kept_trans load_kept by meson
  moreover have "kept s3 s'" using s(4) by (auto simp: kept_def dest!: verify_kept split: if_splits)
  ultimately show ?thesis by (rule kept_trans)
qed

lemma kept_sys [simp]: "kept s (s\<lparr>sys := w\<rparr>)"
  by (simp add: kept_def)

lemma send_request_kept [load_kept]: "send_request i s = Some s' \<Longrightarrow> kept s s'"
  by (auto simp: send_request_def Option.bind_eq_Some_conv kept_def load_ctl upd_conn_def
      dest!: close_connection_kept split: prod.splits if_splits)

lemma connect_failed_kept [load_kept]: "connect_failed i e n s = Some s' \<Longrightarrow> kept s s'"
  by (auto simp: connect_failed_def kept_def load_ctl dest!: close_connection_kept split: prod.splits if_splits)

lemma handle_connect_kept [load_kept]: "handle_connect i b s = Some s' \<Longrightarrow> kept s s'"
  by (auto simp: handle_connect_def Option.bind_eq_Some_conv kept_def load_ctl
      dest!: send_request_kept connect_failed_kept split: prod.splits if_splits)

lemma connect_socket_kept [load_kept]: "connect_socket i u fd s = Some s' \<Longrightarrow> kept s s'"
  by (auto simp: connect_socket_def socket_error_def Option.bind_eq_Some_conv kept_def load_ctl upd_conn_def
      dest!: handle_connect_kept split: prod.splits if_splits)

lemma bind_source_kept [load_kept]: "bind_source fd s = (ok, s') \<Longrightarrow> kept s s'"
  by (auto simp: bind_source_def kept_def dest!: kept_steps split: prod.splits if_splits)

lemma open_socket_kept [load_kept]:
  assumes "open_socket i u s = Some s'"
  shows "kept s s'"
proof -
  obtain fd s1 where 1: "sysc sys_socket s = (fd, s1)" by (cases "sysc sys_socket s")
  from assms 1 obtain s2 where 2: "upd_conn i (\<lambda>c. c\<lparr>conn_fd := fd\<rparr>) s1 = Some s2"
    by (auto simp: open_socket_def Option.bind_eq_Some_conv)
  have "kept s2 s'"
    using assms 1 2 by (auto simp: open_socket_def socket_error_def kept_def dest!: kept_steps(1) bind_source_kept connect_socket_kept
        split: prod.splits if_splits) (simp_all add: load_ctl)
  with load_kept 1 2 show ?thesis using kept_trans by meson
qed

text \<open>Only a start takes memory.\<close>

definition spent :: "nat \<Rightarrow> load \<Rightarrow> load \<Rightarrow> bool" where
  "spent n s s' \<longleftrightarrow> mem_left s \<le> mem_left s' + n \<and> opt s' = opt s \<and> map target_of (urls s') = map target_of (urls s)"

lemma kept_spent: "kept s s1 \<Longrightarrow> spent n s1 s2 \<Longrightarrow> spent n s s2" "spent n s s1 \<Longrightarrow> kept s1 s2 \<Longrightarrow> spent n s s2" "kept s s1 \<Longrightarrow> spent n s s1"
  by (simp_all add: kept_def spent_def)

lemma start_socket_spent:
  assumes "start_socket u i s = Some s'"
  shows "spent 1 s s'"
proof -
  from assms obtain t s1 s2 r where 1: "tmr_create (Some (now s)) Idle_connection i (idle_secs (opt s) * 1000) False s = Some (t, s1)"
    "upd_conn i (fill_slot u t (now s1)) s1 = Some s2" "open_socket i r s2 = Some s'"
    by (auto simp: start_socket_def Option.bind_eq_Some_conv)
  have "spent 1 s s1" using tmr_create_aside(2) [OF 1(1)] frame_load(2,3) [OF tmr_create_aside(1) [OF 1(1)]] by (simp add: spent_def)
  with load_kept 1(2,3) kept_spent(2) show ?thesis by meson
qed

lemma count_started_kept [load_kept]: "count_started i s = Some s' \<Longrightarrow> kept s s'"
  by (auto simp: count_started_def kept_def Option.bind_eq_Some_conv Let_def)

lemma start_connection_spent:
  assumes "start_connection s = Some s'" "\<not> exited s'"
  shows "spent 1 s s'"
proof (cases "find (is_free s) [0..<length (connections s)]")
  case None
  with assms show ?thesis by (auto simp: start_connection_def finish_def exit_with_def Option.bind_eq_Some_conv Let_def)
next
  case (Some i)
  obtain k s1 where k: "random s = (k, s1)" by (cases "random s")
  with Some assms obtain s2 where "start_socket (k mod int (length (urls s1))) (int i) s1 = Some s2"
    "s2 = s' \<or> count_started (int i) s2 = Some s'"
    by (auto simp: start_connection_def and_then_def split: if_splits option.splits)
  then show ?thesis using k load_kept start_socket_spent kept_spent by meson
qed

lemma handle_body_kept [load_kept]: "handle_body i buf s = Some s' \<Longrightarrow> \<not> do_throttle (opt s) \<Longrightarrow> kept s s'"
  by (auto simp: handle_body_def throttle_pause_def Option.bind_eq_Some_conv kept_def upd_conn_def
      dest!: close_connection_kept split: if_splits)

lemma handle_bytes_kept [load_kept]:
  assumes "handle_bytes i buf s = Some s'" "\<not> do_throttle (opt s)"
  shows "kept s s'"
proof -
  from assms(1) obtain c where "get_conn i s = Some c" by (auto simp: handle_bytes_def Option.bind_eq_Some_conv)
  with assms show ?thesis
    by (cases "conn_state c") (auto simp: handle_bytes_def Option.bind_eq_Some_conv kept_def
        dest!: kept_steps(3) handle_body_kept split: if_splits)
qed

lemma handle_read_kept [load_kept]:
  assumes "handle_read i s = Some s'" "\<not> do_throttle (opt s)"
  shows "kept s s'"
proof -
  from assms(1) obtain c t s1 where 1: "get_conn i s = Some c" "idle_timer c = Some t" "tmr_reset (now s) t s = Some s1"
    by (auto simp: handle_read_def Option.bind_eq_Some_conv)
  let ?u = "if did_response c then Some s1 else upd_conn i (\<lambda>c. c\<lparr>did_response := True, response_at := now s1\<rparr>) s1"
  from assms(1) 1 obtain s2 where 2: "?u = Some s2" by (cases ?u) (auto simp: handle_read_def Let_def)
  obtain r buf w where 3: "sys_read (conn_fd c) (nat (bytes_to_read (opt s1))) (sys s2) = (r, buf, w)" by (metis prod_cases3)
  have 4: "close_connection i (s2\<lparr>sys := w\<rparr>) = Some s' \<or> handle_bytes i buf (s2\<lparr>sys := w\<rparr>) = Some s'"
    using assms(1) 1 2 3 by (simp add: handle_read_def Let_def split: if_splits)
  have k: "kept s s2"
    using kept_aside [OF tmr_reset_aside [OF 1(3)]] 2 kept_steps(3) kept_trans by (auto split: if_splits)
  then have "\<not> do_throttle (opt s2)" using assms(2) by (simp add: kept_def)
  with 4 have "kept s2 s'" by (auto simp: kept_def dest!: handle_bytes_kept close_connection_kept)
  with k show ?thesis by (rule kept_trans)
qed

end
