(* ===== verification/Load_Run.thy ===== *)
theory Load_Run
  imports Load_Keep Timers_Props
begin

text \<open>
  The main loop of the load generator as a whole, for a run with \<open>-parallel\<close> and without throttling: the timers,
  the new connections and the connections that are ready, under every behaviour of the kernel and of the peers.
\<close>

section \<open>The report\<close>

lemma print_if_keeps [simp]:
  "heap (print_if b p s) = heap s" "timers (print_if b p s) = timers s" "free_timers (print_if b p s) = free_timers s"
  "brk (print_if b p s) = brk s" "stat (print_if b p s) = stat s" "opt (print_if b p s) = opt s"
  by (simp_all add: print_if_def print_def)

lemma timers_same_trans: "timers_same s s1 \<Longrightarrow> timers_same s1 s2 \<Longrightarrow> timers_same s s2"
  by (simp add: timers_same_def)

lemma report_steps:
  "timers_same s (report_fetches e s)" "timers_same s (report_times s)" "timers_same s (report_errors s)"
  by (simp_all add: timers_same_def report_errors_def report_times_def report_fetches_def Let_def print_def)

lemma report_codes_keeps: "timers_same s (report_codes s)"
proof -
  define f where "f = (\<lambda>i s. let n = http_status_counts (stat s) ! i
    in print_if (n > 0) (Stdout ''  code %03d -- %d'' [D (int i), D n]) s)"
  have "timers_same s (fold f is s)" for "is" s
    by (induction "is" arbitrary: s) (simp_all add: f_def timers_same_def Let_def)
  moreover have "timers_same s (print p s)" for p by (simp add: timers_same_def print_def)
  ultimately show ?thesis unfolding report_codes_def f_def [symmetric] using timers_same_trans by blast
qed

lemma report_keeps: "timers_same s (report_codes (report_errors (report_times (report_fetches e s))))"
  using report_steps report_codes_keeps timers_same_trans by meson

lemma finish_ends:
  assumes "timer_abs s m"
  shows "\<exists>s'. finish s = Some s' \<and> exit_code s' = Some 0"
proof -
  let ?s = "report_codes (report_errors (report_times (report_fetches (elapsed_secs (delta_timeval (start_at s) (now s))) s)))"
  have "timer_abs ?s m" by (rule timer_abs_same [OF report_keeps assms])
  then obtain B F where "timers_inv ?s B F" by (auto simp: timer_abs_def)
  from destroy_frees [OF this] obtain s' where "tmr_destroy ?s = Some s'" by blast
  then show ?thesis by (simp add: finish_def exit_with_def Let_def)
qed

section \<open>A connection that becomes writable\<close>

lemma send_request_good:
  assumes "load_rep s m" "i < length (connections s)" "in_use (connections s ! i)"
    "request_fits (opt s) (urls s ! nat (url_num (connections s ! i)))"
  shows "\<exists>s'. send_request (int i) s = Some s' \<and> good s s'"
proof -
  let ?c = "connections s ! i"
  let ?u = "urls s ! nat (url_num ?c)"
  let ?c2 = "?c\<lparr>did_connect := True, request_at := now s\<rparr>"
  let ?s2 = "s\<lparr>connections := (connections s)[i := ?c2]\<rparr>"
  obtain buf n where f: "format_request (opt s) ?u = Some (buf, n)" "n \<le> length buf" using assms(4) by (auto simp: request_fits_def)
  have u: "get_url (url_num ?c) s' = Some ?u" if "urls s' = urls s" for s'
    using load_repD(3,4) [OF assms(1-3)] that by (simp add: get_url_def)
  have "touch ?c ?c2" by (simp add: touch_def in_use_def)
  note u2 = upd_conn_good [where f = "\<lambda>_. ?c2", OF assms(1,2) this]
  obtain r w where r: "sys_write (conn_fd ?c) (take n buf) (sys s) = (r, w)" by (cases "sys_write (conn_fd ?c) (take n buf) (sys s)")
  let ?s3 = "?s2\<lparr>sys := w\<rparr>"
  note s3 = sys_good [OF u2(2), of w]
  have len: "i < length (connections ?s3)" and use: "in_use (connections ?s3 ! i)" using assms(2,3) by (simp_all add: in_use_def)
  have eq: "send_request (int i) s =
      (if r < 0 then close_connection (int i) (print (Perror (url_str ?u)) ?s3)
       else upd_conn (int i) (\<lambda>c. c\<lparr>conn_state := CNST_HEADERS, header_state := HDST_LINE1_PROTOCOL\<rparr>) ?s3)"
    unfolding send_request_def using assms(2) u f r by (simp add: get_conn_nat upd_conn_def sysc_def)
  show ?thesis
  proof (cases "r < 0")
    case True
    note p = samec_good [OF conjunct1 [OF s3] samec_steps(1) [of _ "Perror (url_str ?u)"]]
    from close_good [OF p(1), of i] len use obtain s4 where
      "close_connection (int i) (print (Perror (url_str ?u)) ?s3) = Some s4" "good (print (Perror (url_str ?u)) ?s3) s4"
      by (auto simp: print_def)
    with eq True u2(3) s3 p(2) show ?thesis using good_trans by (metis (no_types, lifting))
  next
    case False
    let ?f = "\<lambda>c. c\<lparr>conn_state := CNST_HEADERS, header_state := HDST_LINE1_PROTOCOL\<rparr>"
    have "touch (connections ?s3 ! i) (?f (connections ?s3 ! i))" using use by (simp add: touch_def in_use_def)
    note u4 = upd_conn_good [where f = ?f, OF conjunct1 [OF s3] len this]
    from good_trans [OF u2(3) good_trans [OF conjunct2 [OF s3] u4(3)]] u4(1) eq False show ?thesis by auto
  qed
qed

lemma close_samec_good:
  assumes "load_rep s m" "i < length (connections s)" "in_use (connections s ! i)" "samec s s1"
  shows "\<exists>s'. close_connection (int i) s1 = Some s' \<and> good s s'"
proof -
  note r = samec_good [OF assms(1,4)]
  have c: "connections s1 = connections s" using assms(4) by (simp add: samec_def)
  from close_good [OF r(1), of i] assms(2,3) r(2) show ?thesis unfolding c using good_trans by blast
qed

lemma handle_connect_good:
  assumes "load_rep s m" "i < length (connections s)" "in_use (connections s ! i)"
    "request_fits (opt s) (urls s ! nat (url_num (connections s ! i)))"
  shows "\<exists>s'. handle_connect (int i) True s = Some s' \<and> good s s'"
proof -
  let ?c = "connections s ! i"
  obtain r s1 where r: "sysc sys_connect s = (r, s1)" by (cases "sysc sys_connect s")
  note sc = samec_steps(5) [OF r]
  have c: "connections s1 = connections s" "urls s1 = urls s" "opt s1 = opt s" using sc by (simp_all add: samec_def)
  show ?thesis
  proof (cases "r < 0 \<and> errno (sys s1) \<noteq> EISCONN")
    case True
    let ?u = "urls s ! nat (url_num ?c)"
    have u: "get_url (url_num ?c) s1 = Some ?u" using load_repD(3,4) [OF assms(1-3)] c by (simp add: get_url_def)
    then have eq: "handle_connect (int i) True s = connect_failed (int i) (errno (sys s1)) (url_str ?u) s1"
      using r True assms(2) c by (simp add: handle_connect_def get_conn_nat)
    obtain q s2 where q: "sysc sys_getsockopt s1 = (q, s2)" by (cases "sysc sys_getsockopt s1")
    have cl: "\<exists>s''. close_connection (int i) (print p s') = Some s'' \<and> good s s''" if "samec s s'" for p s'
      by (rule close_samec_good [OF assms(1-3) samec_trans [OF that samec_steps(1)]])
    show ?thesis unfolding eq connect_failed_def using cl [OF sc] cl [OF samec_trans [OF sc samec_steps(5) [OF q]]] q by simp
  next
    case False
    have "request_fits (opt s1) (urls s1 ! nat (url_num (connections s1 ! i)))" using assms(4) c by simp
    from send_request_good [OF samec_good(1) [OF assms(1) sc] _ _ this] assms(2,3) samec_good(2) [OF assms(1) sc] r False c show ?thesis
      using good_trans by (fastforce simp: handle_connect_def)
  qed
qed

section \<open>The timers\<close>

text \<open>The invariant of a run; \<open>n\<close> bounds the memory that is left for timers.\<close>

definition running :: "nat \<Rightarrow> load \<Rightarrow> (addr \<rightharpoonup> (proc, int) timer) \<Rightarrow> bool" where
  "running n s m \<longleftrightarrow> load_rep s m \<and> \<not> do_throttle (opt s) \<and> start (opt s) = START_PARALLEL \<and> targets_ok s \<and> n \<le> mem_left s"

lemma request_fits_target: "target_of u = target_of v \<Longrightarrow> request_fits o1 u = request_fits o1 v"
  by (simp add: target_of_def request_fits_def format_request_def request_parts_def request_line_def)

lemma targets_ok_cong:
  assumes "targets_ok s" "opt s' = opt s" "map target_of (urls s') = map target_of (urls s)"
  shows "targets_ok s'"
  unfolding targets_ok_def
proof (intro conjI ballI)
  show "urls s' \<noteq> []" using assms(1,3) by (auto simp: targets_ok_def)
  fix u
  assume "u \<in> set (urls s')"
  then have "target_of u \<in> set (map target_of (urls s'))" by simp
  then obtain v where v: "v \<in> set (urls s)" "target_of u = target_of v" unfolding assms(3) by auto
  then have "u_sa_len u = u_sa_len v" by (simp add: target_of_def)
  with v assms(1,2) request_fits_target [OF v(2)] show "request_fits (opt s') u" "u_sa_len u \<le> int CONN_SA_SIZE"
    by (auto simp: targets_ok_def)
qed

lemma running_spent:
  assumes "running (n + k) s m" "load_rep s' m'" "spent k s s'"
  shows "running n s' m'"
  using assms targets_ok_cong [of s s'] by (simp add: running_def spent_def)

lemma running_kept: "running n s m \<Longrightarrow> load_rep s' m' \<Longrightarrow> kept s s' \<Longrightarrow> running n s' m'"
  using running_spent [of n 0] kept_spent(3) by simp

text \<open>The idle timer of a slot fires: the slot is freed; no other timer is touched.\<close>

lemma idle_connection_frees:
  assumes "i < length (connections s)" "filled s (connections s ! i)" "\<not> do_throttle (opt s)"
  shows "\<exists>s'. idle_connection (int i) s = Some s' \<and> timers_same s s' \<and>
    connections s' = (connections s)[i := (connections s ! i)\<lparr>idle_timer := None, conn_state := CNST_FREE\<rparr>] \<and>
    length (urls s') = length (urls s) \<and> exit_code s' = exit_code s \<and> now s' = now s \<and> kept s s'"
proof -
  let ?c = "(connections s ! i)\<lparr>idle_timer := None\<rparr>"
  let ?u = "urls s ! nat (url_num ?c)"
  let ?s = "print (Stderr ''%s: timed out'' [S (url_str ?u)]) (s\<lparr>connections := (connections s)[i := ?c]\<rparr>)"
  have c: "i < length (connections ?s)" "connections ?s ! i = ?c" using assms(1) by (simp_all add: print_def)
  have w: "wakeup_timer ?c = None" "0 \<le> url_num ?c" "nat (url_num ?c) < length (urls ?s)"
    using assms(2,3) by (simp_all add: filled_def print_def)
  let ?s1 = "(closefd (conn_fd ?c) ?s)\<lparr>connections := (connections ?s)[i := ?c\<lparr>conn_state := CNST_FREE\<rparr>],
      num_connections := num_connections ?s - 1, stat := close_stats ?c (stat ?s)\<rparr>"
  obtain s2 where s2: "close_connection (int i) ?s = Some s2" "verified ?s1 s2"
    using close_untimed(2) [OF c(1)] w unfolding c(2) by auto
  let ?s' = "s2\<lparr>stat := (stat s2)\<lparr>total_timeouts := total_timeouts (stat s2) + 1\<rparr>\<rparr>"
  have "idle_connection (int i) s = Some ?s'"
    unfolding idle_connection_def using assms(1) w s2(1) by (simp add: load_access print_def)
  moreover have "kept ?s s2" by (rule close_connection_kept [OF s2(1)])
  ultimately show ?thesis using s2(2)
    by (intro exI [of _ ?s']) (simp add: verified_def timers_same_def kept_def closefd_def print_def)
qed

lemma owns_keep:
  assumes "owns m j d" "\<And>b u. m b = Some u \<Longrightarrow> client_data u = j \<Longrightarrow> timer_proc u \<noteq> Progress_report \<Longrightarrow> m' b = Some u"
  shows "owns m' j d"
  unfolding owns_def
proof (intro conjI allI impI)
  show "\<exists>a t. idle_timer d = Some a \<and> m' a = Some t \<and> timer_proc t = Idle_connection \<and> client_data t = j"
    using assms unfolding owns_def by (metis proc.distinct(3))
  fix b
  assume "wakeup_timer d = Some b"
  then show "\<exists>t. m' b = Some t \<and> timer_proc t = Wakeup_connection \<and> client_data t = j"
    using assms unfolding owns_def by (metis proc.distinct(9))
qed

lemma idle_call:
  assumes "running n s m" "m a = Some t" "timer_proc t = Idle_connection"
  shows "\<exists>s'. timer_call (timer_proc t) (client_data t) s = Some s' \<and> exit_code s' = exit_code s \<and> timer_abs s' m \<and> now s' = now s \<and>
    (\<forall>s''. frame_ok s' s'' \<longrightarrow> mem_left s'' = mem_left s' \<longrightarrow> timer_abs s'' (after a t m) \<longrightarrow> running n s'' (after a t m))"
proof -
  have rep: "load_rep s m" and th: "\<not> do_throttle (opt s)" using assms(1) by (simp_all add: running_def)
  from load_rep_timer [OF rep assms(2)] assms(3) obtain i where i: "\<not> periodic t" "i < length (connections s)"
    "client_data t = int i" "filled s (connections s ! i)" by (auto simp: timer_ok_def)
  let ?c = "(connections s ! i)\<lparr>idle_timer := None, conn_state := CNST_FREE\<rparr>"
  from idle_connection_frees [OF i(2,4) th] obtain s' where s': "idle_connection (int i) s = Some s'" "timers_same s s'"
    "connections s' = (connections s)[i := ?c]" "length (urls s') = length (urls s)" "now s' = now s" "kept s s'" "exit_code s' = exit_code s" by (elim exE conjE)
  have "running n s'' (after a t m)"
    if f: "frame_ok s' s''" "mem_left s'' = mem_left s'" "timer_abs s'' (after a t m)" for s''
  proof (rule running_kept [OF assms(1)])
    note fr = frame_load [OF f(1)]
    have ran: "x \<in> ran (after a t m) \<Longrightarrow> x \<in> ran m" for x using i(1) by (auto simp: after_def ran_def split: if_splits)
    show "load_rep s'' (after a t m)"
    proof (rule load_rep_upd [OF rep i(2) f(3), where c = ?c])
      show "opt s'' = opt s" using fr(3) s'(6) by (simp add: kept_def)
      show "\<forall>j < length (connections s). j \<noteq> i \<longrightarrow> owns m (int j) (connections s ! j) \<longrightarrow> owns (after a t m) (int j) (connections s ! j)"
        using owns_keep [where m = m and m' = "after a t m"] assms(2) i(1,3) by (fastforce simp: after_def)
    qed (use fr s'(3,4) ran in \<open>simp_all add: filled_def in_use_def\<close>)
    show "kept s s''" using s'(6) fr f(2) by (simp add: kept_def)
  qed
  moreover have "timer_abs s m" using rep by (simp add: load_rep_def)
  then have "timer_abs s' m" by (rule timer_abs_same [OF s'(2)])
  ultimately show ?thesis using s'(1,5,7) assms(3) i(3) by (simp add: timer_call_def)
qed

lemma progress_call:
  assumes "running n s m" "m a = Some t" "timer_proc t = Progress_report"
  shows "\<exists>s'. timer_call (timer_proc t) (client_data t) s = Some s' \<and> exit_code s' = exit_code s \<and> timer_abs s' m \<and> now s' = now s \<and>
    (\<forall>s''. frame_ok s' s'' \<longrightarrow> mem_left s'' = mem_left s' \<longrightarrow> timer_abs s'' (after a t m) \<longrightarrow> running n s'' (after a t m))"
proof -
  have rep: "load_rep s m" using assms(1) by (simp add: running_def)
  obtain p where p: "progress_report s = Some (print p s)" by (simp add: progress_report_def)
  note sc = samec_good(1) [OF rep samec_steps(1), of p]
  have tk: "timer_ok s t" by (rule load_rep_timer [OF rep assms(2)])
  let ?t = "t\<lparr>time := tv_add_ms (time t) (msecs t), hash_of := hash_time (tv_add_ms (time t) (msecs t))\<rparr>"
  have ran: "x \<in> ran (after a t m) \<Longrightarrow> x \<in> ran m \<or> timer_ok (print p s) x" for x
  proof -
    have "periodic t \<Longrightarrow> timer_ok (print p s) ?t"
      using tk assms(3) tv_add_ms_normal by (simp add: timer_ok_def)
    then show "x \<in> ran (after a t m) \<Longrightarrow> x \<in> ran m \<or> timer_ok (print p s) x"
      by (auto simp: after_def ran_def split: if_splits)
  qed
  have own: "owns m j d \<Longrightarrow> owns (after a t m) j d" for j d
    by (erule owns_keep) (use assms(2,3) in \<open>auto simp: after_def\<close>)
  have "running n s'' (after a t m)"
    if f: "frame_ok (print p s) s''" "mem_left s'' = mem_left (print p s)" "timer_abs s'' (after a t m)" for s''
  proof (rule running_kept [OF assms(1)])
    show "load_rep s'' (after a t m)" using good_timers [OF sc f(1,3) own ran] by blast
    show "kept s s''" using frame_load [OF f(1)] f(2) by (simp add: kept_def print_def)
  qed
  moreover have "timer_abs (print p s) m" using sc by (simp add: load_rep_def)
  ultimately show ?thesis using p assms(3) by (simp add: timer_call_def) (simp add: print_def)
qed

interpretation lr: orderly_calls timer_call now "running n" "\<lambda>s. exit_code s = Some 0" for n
proof unfold_locales
  fix s s' :: load and m a t
  show "running n s m \<Longrightarrow> timer_abs s m" by (simp add: running_def load_rep_def)
  show "running n s m \<Longrightarrow> m a = Some t \<Longrightarrow> period_ok t"
    using load_rep_timer by (auto simp: running_def timer_ok_def period_ok_def)
  show "frame_ok s s' \<Longrightarrow> now s' = now s" by (rule frame_load)
  assume r: "running n s m" "m a = Some t" "\<not> exited s"
  have tk: "timer_ok s t" "\<not> do_throttle (opt s)" "start (opt s) = START_PARALLEL" "timer_abs s m"
    using r load_rep_timer by (auto simp: running_def load_rep_def)
  show "\<exists>s'. timer_call (timer_proc t) (client_data t) s = Some s' \<and>
      (exited s' \<and> exit_code s' = Some 0 \<or> \<not> exited s' \<and> timer_abs s' m \<and> now s' = now s \<and>
        (\<forall>s''. frame_ok s' s'' \<longrightarrow> mem_left s'' = mem_left s' \<longrightarrow> timer_abs s'' (after a t m) \<longrightarrow> running n s'' (after a t m)))"
  proof (cases "timer_proc t")
    case Idle_connection
    with idle_call [OF r(1,2)] r(3) show ?thesis by auto
  next
    case Progress_report
    with progress_call [OF r(1,2)] r(3) show ?thesis by auto
  next
    case End_timer
    with finish_ends [OF tk(4)] show ?thesis by (auto simp: timer_call_def end_timer_def)
  qed (use tk(1-3) in \<open>simp_all add: timer_ok_def\<close>)
qed

section \<open>The rounds\<close>

text \<open>A connection reads a number in its header that overflows.\<close>

definition number_overflow :: "nat \<Rightarrow> load \<Rightarrow> bool" where
  "number_overflow i s \<longleftrightarrow> i < length (connections s) \<and> conn_state (connections s ! i) = CNST_HEADERS \<and>
     (\<exists>k. header_loop (take k (inq (sys s) (conn_fd (connections s ! i)))) (seen (now s) (connections s ! i)) = None)"

text \<open>The invariant after a step that may end the process.\<close>

definition runs_on :: "nat \<Rightarrow> load option \<Rightarrow> bool" where
  "runs_on n r \<longleftrightarrow> settles (\<lambda>s. \<exists>m. running n s m) r"

lemma runs_on_then:
  assumes "runs_on n r" "\<And>s m. \<not> exited s \<Longrightarrow> running n s m \<Longrightarrow> runs_on k (f s)"
  shows "runs_on k (and_then r f)"
  using assms settles_then [of _ r _ f] unfolding runs_on_def by blast

lemma running_good: "running n s m \<Longrightarrow> good s s' \<Longrightarrow> kept s s' \<Longrightarrow> \<exists>m'. running n s' m'"
  unfolding good_def load_inv_def using running_kept by blast

lemma running_same:
  assumes "running n s m" "samec s s'" "kept s s'"
  shows "running n s' m"
proof (rule running_kept [OF assms(1) _ assms(3)])
  have "load_rep s m" using assms(1) by (simp add: running_def)
  then show "load_rep s' m" by (rule samec_good(1) [OF _ assms(2)])
qed

lemma run_timers:
  assumes "running n s m" "\<not> exited s"
  shows "runs_on n (tmr_run timer_call now s)"
  using lr.run_ok [OF assms] by (auto simp: runs_on_def settles_def lr.ran_ok_def)

lemma start_connection_running:
  assumes "running (Suc n) s m" "\<not> exited s"
  shows "runs_on n (start_connection s)"
proof (cases "\<exists>c \<in> set (connections s). conn_state c = CNST_FREE")
  case True
  have "load_rep s m" "has_room s" "targets_ok s" using assms(1) by (simp_all add: running_def has_room_def)
  from start_connection_good [OF this(1) assms(2) True this(2,3)] obtain s' m' where
    s': "start_connection s = Some s'" "load_rep s' m'" "exit_code s' = exit_code s" by (auto simp: load_inv_def)
  have "running n s' m'"
    by (rule running_spent [of n 1, OF _ s'(2)]) (use assms s' start_connection_spent in simp_all)
  with s'(1) show ?thesis by (auto simp: runs_on_def settles_def)
next
  case False
  then have "find (is_free s) [0..<length (connections s)] = None" by (auto simp: find_None_iff is_free_def)
  moreover have "load_rep s m" using assms(1) by (simp add: running_def)
  then have "timer_abs (print p s) m" for p using samec_good(1) [OF _ samec_steps(1)] by (auto simp: load_rep_def)
  ultimately show ?thesis using finish_ends by (fastforce simp: start_connection_def runs_on_def settles_def)
qed

lemma start_some_running:
  assumes "running (n + k) s m" "\<not> exited s"
  shows "runs_on n (start_some k s)"
  using assms
proof (induction k arbitrary: s m)
  case 0
  then show ?case by (auto simp: runs_on_def settles_def)
next
  case (Suc k)
  have "runs_on n (and_then (start_connection s) (\<lambda>s. and_then (tmr_run timer_call now (gettimeofday s)) (start_some k)))"
  proof (rule runs_on_then)
    show "runs_on (n + k) (start_connection s)" by (rule start_connection_running) (use Suc.prems in simp_all)
    fix s1 m1
    assume 1: "\<not> exited s1" "running (n + k) s1 m1"
    then have 2: "running (n + k) (gettimeofday s1) m1" "\<not> exited (gettimeofday s1)"
      using running_same [OF _ samec_steps(3) kept_simple(3)] by simp_all (simp add: gettimeofday_def)
    show "runs_on n (and_then (tmr_run timer_call now (gettimeofday s1)) (start_some k))"
      by (rule runs_on_then [OF run_timers [OF 2]]) (use Suc.IH in blast)
  qed
  moreover have "running n s m" using Suc.prems(1) by (simp add: running_def)
  ultimately show ?case by (auto simp: runs_on_def settles_def)
qed

lemma service_running:
  assumes "running n s m" "i < length (connections s)"
  shows "(\<exists>s' m'. service rset wset (int i) s = Some s' \<and> exit_code s' = exit_code s \<and> running n s' m' \<and>
      length (connections s') = length (connections s)) \<or> number_overflow i s"
proof -
  let ?c = "connections s ! i"
  have rep: "load_rep s m" "\<not> do_throttle (opt s)" "targets_ok s" using assms(1) by (simp_all add: running_def)
  have fin: ?thesis if "service rset wset (int i) s = Some s'" "good s s'" "kept s s'" for s'
    using that running_good [OF assms(1) that(2,3)] by (auto simp: good_def)
  have idle: ?thesis if "service rset wset (int i) s = Some s" using that assms(1) by blast
  note c = get_conn_nat [OF assms(2)]
  consider (w) "wants_write ?c" "conn_fd ?c \<in> set wset" | (r) "wants_read ?c" "\<not> wants_write ?c" "conn_fd ?c \<in> set rset"
    | (none) "service rset wset (int i) s = Some s" unfolding service_def c Option.bind.simps by argo
  then show ?thesis
  proof cases
    case w
    then have use: "in_use ?c" by (simp add: in_use_def wants_write_def)
    have "urls s ! nat (url_num ?c) \<in> set (urls s)" using load_repD(4) [OF rep(1) assms(2) use] by simp
    then have "request_fits (opt s) (urls s ! nat (url_num ?c))" using rep(3) by (simp add: targets_ok_def)
    from handle_connect_good [OF rep(1) assms(2) use this] w c fin handle_connect_kept show ?thesis by (auto simp: service_def)
  next
    case r
    have "bytes_to_read (opt s) = int READ_SIZE" using rep(2) by (simp add: bytes_to_read_def)
    with handle_read_good [OF rep(1) assms(2) r(1)] r c fin handle_read_kept [OF _ rep(2)] assms(2) show ?thesis
      by (cases "handle_read (int i) s") (auto simp: service_def number_overflow_def)
  qed (rule idle)
qed

lemma service_all_running:
  assumes "running n s m" "\<not> exited s" "\<forall>i \<in> set is. i < length (connections s)"
  shows "(\<exists>s' m'. service_all rset wset is s = Some s' \<and> \<not> exited s' \<and> running n s' m') \<or>
    (\<exists>is1 i is2 s1. is = is1 @ i # is2 \<and> service_all rset wset is1 s = Some s1 \<and> number_overflow i s1)"
  using assms
proof (induction "is" arbitrary: s m)
  case (Cons i "is")
  from service_running [OF Cons.prems(1), of i rset wset] Cons.prems(3) consider
      (ok) s1 m1 where "service rset wset (int i) s = Some s1" "exit_code s1 = exit_code s" "running n s1 m1"
        "length (connections s1) = length (connections s)"
    | (over) "number_overflow i s" by auto
  then show ?case
  proof cases
    case ok
    have run: "service_all rset wset (i # js) s = service_all rset wset js s1" for js
      using ok(1,2) Cons.prems(2) by (simp add: and_then_def)
    have "\<not> exited s1" "\<forall>j \<in> set is. j < length (connections s1)" using ok(2,4) Cons.prems(2,3) by simp_all
    from Cons.IH [OF ok(3) this] show ?thesis
    proof (elim disjE exE conjE)
      fix is1 k is2 s2
      assume "is = is1 @ k # is2" "service_all rset wset is1 s1 = Some s2" "number_overflow k s2"
      then show ?thesis using run [of is1] by (metis append_Cons)
    qed (use run in auto)
  next
    case over
    then show ?thesis by (intro disjI2 exI [of _ "[]"]) simp
  qed
qed auto

text \<open>The two ways in which a round can fail: a descriptor that does not fit in a descriptor set, and a number in a
  header that overflows.\<close>

definition stuck :: "int list \<Rightarrow> load \<Rightarrow> bool" where
  "stuck ready s \<longleftrightarrow> (\<exists>s1. start_some 10 s = Some s1 \<and> \<not> exited s1 \<and>
     (let rset = fdset wants_read s1; wset = fdset wants_write s1
      in \<not> list_all fd_fits (rset @ wset) \<or>
         (\<exists>i s2. service_all (filter (\<lambda>fd. fd \<in> set ready) rset) (filter (\<lambda>fd. fd \<in> set ready) wset) [0..<i]
              (gettimeofday (snd (sysc sys_select s1))) = Some s2 \<and> number_overflow i s2)))"

lemma upt_prefix:
  assumes "[0..<n] = is1 @ i # is2"
  shows "is1 = [0..<i]"
proof -
  have l: "length is1 < n" using arg_cong [OF assms, of length] by simp
  have "is1 = take (length is1) [0..<n]" using assms by simp
  also have "\<dots> = [0..<length is1]" using l by (simp add: take_upt)
  finally have "is1 = [0..<length is1]" .
  moreover have "i = length is1" using arg_cong [OF assms, of "\<lambda>xs. xs ! length is1"] l by simp
  ultimately show ?thesis by simp
qed

lemma timeout_returns: "timer_abs s m \<Longrightarrow> \<exists>tv. tmr_timeout n s = Some tv"
proof -
  assume "timer_abs s m"
  then obtain B F where "links s B F" by (auto simp: timer_abs_def timers_inv_def)
  from mstimeout_loop_min [OF this, of "[0..<HASH_SIZE]" n "[]"] show ?thesis
    by (simp add: tmr_timeout_def tmr_mstimeout_def min_list_opt_def)
qed

lemma wait_ready_running:
  assumes "running n s m" "\<not> exited s" "start_some 10 s0 = Some s"
  shows "runs_on n (wait_ready ready s) \<or> stuck ready s0"
proof (cases "list_all fd_fits (fdset wants_read s @ fdset wants_write s)")
  case False
  with assms(2,3) show ?thesis by (simp add: stuck_def Let_def)
next
  case True
  let ?r = "filter (\<lambda>fd. fd \<in> set ready) (fdset wants_read s)" and ?w = "filter (\<lambda>fd. fd \<in> set ready) (fdset wants_write s)"
  obtain r s1 where 1: "sysc sys_select s = (r, s1)" by (cases "sysc sys_select s")
  let ?s = "gettimeofday s1"
  have sc: "samec s s1" "kept s s1" using samec_steps(5) [OF 1] kept_steps(1) [OF 1] by simp_all
  have "timer_abs s m" using assms(1) by (simp add: running_def load_rep_def)
  then obtain tv where tv: "tmr_timeout (now s) s = Some tv" using timeout_returns by blast
  have eq: "wait_ready ready s = (if r < 0 then Some (exit_with 1 (print (Perror ''select'') s1))
      else and_then (service_all ?r ?w [0..<length (connections s1)] ?s) (tmr_run timer_call now))"
    using True 1 tv by (simp add: wait_ready_def Let_def)
  show ?thesis
  proof (cases "r < 0")
    case False
    have s: "running n ?s m" "\<not> exited ?s" "connections ?s = connections s1"
      using running_same [OF running_same [OF assms(1) sc] samec_steps(3) kept_simple(3)] assms(2) sc(1)
      by simp_all (simp_all add: gettimeofday_def samec_def)
    from service_all_running [OF s(1,2), of "[0..<length (connections s1)]" ?r ?w] s(3) consider
        (ok) s2 m2 where "service_all ?r ?w [0..<length (connections s1)] ?s = Some s2" "\<not> exited s2" "running n s2 m2"
      | (over) is1 i is2 s2 where "[0..<length (connections s1)] = is1 @ i # is2" "service_all ?r ?w is1 ?s = Some s2" "number_overflow i s2"
      by auto
    then show ?thesis
    proof cases
      case ok
      with run_timers [OF ok(3,2)] eq False show ?thesis by (simp add: and_then_def)
    next
      case over
      with upt_prefix [OF over(1)] assms(2,3) 1 show ?thesis by (auto simp: stuck_def Let_def)
    qed
  qed (use eq in \<open>simp add: runs_on_def settles_def exit_with_def\<close>)
qed

lemma main_round_running:
  assumes "running (n + 10) s m" "\<not> exited s"
  shows "runs_on n (main_round ready s) \<or> stuck ready s"
proof (cases "end_at (opt s) = END_FETCHES \<and> fetches_completed (stat s) \<ge> end_fetches (opt s)")
  case True
  have "timer_abs s m" using assms(1) by (simp add: running_def load_rep_def)
  from finish_ends [OF this] True show ?thesis by (auto simp: main_round_def and_then_def runs_on_def settles_def)
next
  case False
  have "start (opt s) = START_PARALLEL" using assms(1) by (simp add: running_def)
  with False assms(2) have eq: "main_round ready s = and_then (start_some 10 s) (wait_ready ready)"
    by (auto simp: main_round_def and_then_def)
  from start_some_running [OF assms] show ?thesis
    unfolding eq using wait_ready_running by (fastforce simp: runs_on_def settles_def and_then_def)
qed

lemma main_loop_running:
  assumes "running (n + 10 * length rs) s m" "\<not> exited s"
  shows "runs_on n (main_loop rs s) \<or>
    (\<exists>k s1. k < length rs \<and> main_loop (take k rs) s = Some s1 \<and> \<not> exited s1 \<and> stuck (rs ! k) s1)"
  using assms
proof (induction rs arbitrary: s m)
  case Nil
  then show ?case by (auto simp: runs_on_def settles_def)
next
  case (Cons r rs)
  have "running (n + 10 * length rs + 10) s m" using Cons.prems(1) by (simp add: running_def)
  from main_round_running [OF this Cons.prems(2), of r] show ?case
  proof
    assume "stuck r s"
    with Cons.prems(2) show ?thesis by (intro disjI2 exI [of _ 0] exI [of _ s]) simp
  next
    assume "runs_on (n + 10 * length rs) (main_round r s)"
    then obtain s1 where s1: "main_round r s = Some s1" "exited s1 \<or> (\<exists>m. running (n + 10 * length rs) s1 m)" by (auto simp: runs_on_def settles_def)
    show ?thesis
    proof (cases "exited s1")
      case True
      with s1(1) show ?thesis by (simp add: and_then_def runs_on_def settles_def)
    next
      case False
      then have run: "main_loop (r # qs) s = main_loop qs s1" for qs using s1(1) by (simp add: and_then_def)
      from False s1(2) Cons.IH have "runs_on n (main_loop rs s1) \<or>
        (\<exists>k s2. k < length rs \<and> main_loop (take k rs) s1 = Some s2 \<and> \<not> exited s2 \<and> stuck (rs ! k) s2)" by blast
      then show ?thesis
      proof (elim disjE exE conjE)
        fix k s2
        assume "k < length rs" "main_loop (take k rs) s1 = Some s2" "\<not> exited s2" "stuck (rs ! k) s2"
        then show ?thesis by (intro disjI2 exI [of _ "Suc k"] exI [of _ s2]) (simp add: run del: main_loop.simps)
      qed (simp add: run del: main_loop.simps)
    qed
  qed
qed

end
