(* ===== verification/Load_Demo.thy ===== *)
theory Load_Demo
  imports Load_Safe Timers_Props
begin

text \<open>
  Concrete states of the load generator, on which the theorems about every state are applied: one URL and a table of
  connections, the first of which may own the timer at address 0.
\<close>

definition some_url :: url where
  "some_url = \<lparr>url_str = ''http://h/f'', protocol = PROTO_HTTP, hostname = ''h'', port = 80, u_sa_in = replicate 28 NUL,
     u_sa_len = 16, sock_family = AF_INET, sock_type = 1, sock_protocol = 0, filename = ''/f'',
     got_bytes = False, u_bytes = 0, got_checksum = False, u_checksum = 0\<rparr>"

definition some_options :: options where
  "some_options = \<lparr>do_checksum = False, do_throttle = False, do_verbose = False, do_jitter = False, do_proxy = False,
     throttle = THROTTLE, idle_secs = IDLE_SECS, proxy_hostname = [], proxy_port = 0, start = START_PARALLEL,
     start_parallel = 1, start_rate = -1, end_at = END_FETCHES, end_fetches = 1, end_seconds = -1, sip_file = None\<rparr>"

definition some_stats :: stats where
  "some_stats = \<lparr>fetches_started = 1, connects_completed = 0, responses_completed = 0, fetches_completed = 0,
     total_bytes = 0, total_connect_usecs = 0, max_connect_usecs = 0, min_connect_usecs = 1000000000,
     total_response_usecs = 0, max_response_usecs = 0, min_response_usecs = 1000000000,
     total_timeouts = 0, total_badbytes = 0, total_badchecksums = 0, max_parallel = 1,
     http_status_counts = replicate 1000 0\<rparr>"

definition epoch :: timeval where
  "epoch = \<lparr>tv_sec = 0, tv_usec = 0\<rparr>"

definition some_load :: "connection list \<Rightarrow> url list \<Rightarrow> os \<Rightarrow> load" where
  "some_load cs us w = \<lparr>heap = Map.empty, timers = (\<lambda>_. None), free_timers = None, brk = 0, mem_left = 5,
     clock = epoch, exit_code = None, argv0 = ''http_load'', opt = some_options, stat = some_stats, urls = us, max_urls = 100,
     sips = [], max_sips = 0, connections = cs, max_connections = 1, num_connections = int (length (filter in_use cs)),
     start_at = epoch, start_interval = 0, low_interval = 0, range_interval = 0, now = epoch, sys = w,
     rnd = (\<lambda>_. 0), nrnd = 0, times = (\<lambda>_. epoch), ntimes = 0, prints = []\<rparr>"

lemma some_load_fields [simp]:
  "connections (some_load cs us w) = cs" "urls (some_load cs us w) = us" "sys (some_load cs us w) = w"
  "opt (some_load cs us w) = some_options" "stat (some_load cs us w) = some_stats" "exit_code (some_load cs us w) = None"
  "num_connections (some_load cs us w) = int (length (filter in_use cs))" "now (some_load cs us w) = epoch"
  "has_room (some_load cs us w)"
  by (simp_all add: some_load_def has_room_def)

text \<open>No timer at all, and a single one at address 0.\<close>

lemma no_timer_abs: "timer_abs (some_load cs us w) Map.empty"
proof -
  have "timers_inv (some_load cs us w) (\<lambda>_. []) []"
    by (simp add: timers_inv_def links_def ordered_def bucket_ok_def some_load_def)
  moreover have "scheduled (some_load cs us w) (\<lambda>_. []) = Map.empty" by (auto simp: scheduled_def)
  ultimately show ?thesis by (auto simp: timer_abs_def intro!: exI [of _ "\<lambda>_. []"])
qed

definition some_timer :: "(proc, int) timer" where
  "some_timer = new_timer Idle_connection 0 60000 False epoch"

definition with_timer :: "load \<Rightarrow> load" where
  "with_timer s = s\<lparr>heap := [0 \<mapsto> some_timer], timers := (\<lambda>_. None)(hash some_timer \<mapsto> 0), brk := 1\<rparr>"

lemma with_timer_fields [simp]:
  "connections (with_timer s) = connections s" "urls (with_timer s) = urls s" "sys (with_timer s) = sys s"
  "opt (with_timer s) = opt s" "stat (with_timer s) = stat s" "exit_code (with_timer s) = exit_code s"
  "num_connections (with_timer s) = num_connections s" "now (with_timer s) = now s"
  by (simp_all add: with_timer_def)

lemma some_timer_fields: "payload some_timer = some_timer" "hash_of some_timer = hash some_timer" "prev some_timer = None"
  "next_t some_timer = None" "timer_proc some_timer = Idle_connection" "client_data some_timer = 0"
  by (simp_all add: some_timer_def payload_def new_timer_def hash_def)

lemma one_timer_abs: "timer_abs (with_timer (some_load cs us w)) [0 \<mapsto> some_timer]"
proof -
  have "timers_inv (with_timer (some_load cs us w)) ((\<lambda>_. [])(hash some_timer := [0])) []"
    by (simp add: timers_inv_def links_def ordered_def bucket_ok_def some_load_def with_timer_def some_timer_fields)
  moreover have "scheduled (with_timer (some_load cs us w)) ((\<lambda>_. [])(hash some_timer := [0])) = [0 \<mapsto> some_timer]"
    by (auto simp: scheduled_def one_timer_active with_timer_def some_timer_fields)
  ultimately show ?thesis by (auto simp: timer_abs_def intro!: exI [of _ "(\<lambda>_. [])(hash some_timer := [0])"])
qed

definition busy_slot :: connection where
  "busy_slot = some_connection\<lparr>idle_timer := Some 0\<rparr>"

lemma busy_slot_rep: "load_rep (with_timer (some_load (busy_slot # cs) (some_url # us) w)) [0 \<mapsto> some_timer]"
  if "\<forall>c \<in> set cs. \<not> in_use c"
proof -
  have "slot_ok [0 \<mapsto> some_timer] (with_timer (some_load (busy_slot # cs) (some_url # us) w)) i" if "i < length (busy_slot # cs)" for i
    using that \<open>\<forall>c \<in> set cs. \<not> in_use c\<close>
    by (cases i) (auto simp: slot_ok_def owns_def busy_slot_def some_connection_def some_timer_fields)
  moreover have "timer_ok (with_timer (some_load (busy_slot # cs) (some_url # us) w)) some_timer"
    using some_timer_fields
    by (auto simp: timer_ok_def filled_def some_timer_def new_timer_def busy_slot_def some_connection_def intro!: exI [of _ 0])
  ultimately show ?thesis using one_timer_abs by (simp add: load_rep_def ran_map_upd)
qed

definition free_slot :: connection where
  "free_slot = some_connection\<lparr>conn_state := CNST_FREE\<rparr>"

lemma free_rep: "load_rep (some_load [free_slot] us w) Map.empty"
  using no_timer_abs by (simp add: load_rep_def slot_ok_def in_use_def free_slot_def)

lemmas demo_defs = some_load_def with_timer_def busy_slot_def free_slot_def some_connection_def some_url_def some_options_def
  some_stats_def epoch_def

end
