(* ===== verification/Load_Request.thy ===== *)
theory Load_Request
  imports Load_Demo
begin

text \<open>
  The buffers of the load generator: the request, the bytes of one read, and the checksum of a body.
\<close>

section \<open>The request\<close>

definition request_bytes :: "options \<Rightarrow> url \<Rightarrow> string" where
  "request_bytes o1 u = concat (request_parts o1 u)"

abbreviation snprintf_all :: "string list \<Rightarrow> (string \<times> nat) option \<Rightarrow> (string \<times> nat) option" where
  "snprintf_all \<equiv> fold (\<lambda>t r. Option.bind r (snprintf_at t))"

lemma snprintf_all_None [simp]: "snprintf_all ts None = None"
  by (induction ts) simp_all

lemma snprintf_at_Some:
  "snprintf_at t (buf, n) = Some (buf', n') \<Longrightarrow> n' = n + length t \<and> length buf' = length buf \<and> n \<le> length buf"
  by (auto simp: snprintf_at_def Let_def min_def split: if_splits)

lemma snprintf_all_Some:
  "snprintf_all ts (Some (buf, n)) = Some (buf', n') \<Longrightarrow> n' = n + length (concat ts) \<and> length buf' = length buf"
proof (induction ts arbitrary: buf n)
  case (Cons t ts)
  show ?case
  proof (cases "snprintf_at t (buf, n)")
    case None
    with Cons.prems show ?thesis by simp
  next
    case (Some p)
    then obtain buf1 n1 where p: "snprintf_at t (buf, n) = Some (buf1, n1)" by (cases p) auto
    with Cons.prems Cons.IH [of buf1 n1] snprintf_at_Some [OF p] show ?thesis by simp
  qed
qed simp

lemma snprintf_at_fits:
  assumes "n + length t < length buf"
  shows "\<exists>buf'. snprintf_at t (buf, n) = Some (buf', n + length t) \<and> length buf' = length buf \<and>
    take (n + length t) buf' = take n buf @ t"
  using assms by (auto simp: snprintf_at_def Let_def min_def)

lemma snprintf_all_fits:
  assumes "n + length (concat ts) < length buf"
  shows "\<exists>buf'. snprintf_all ts (Some (buf, n)) = Some (buf', n + length (concat ts)) \<and> length buf' = length buf \<and>
    take (n + length (concat ts)) buf' = take n buf @ concat ts"
  using assms
proof (induction ts arbitrary: buf n)
  case (Cons t ts)
  then obtain buf1 where b: "snprintf_at t (buf, n) = Some (buf1, n + length t)" "length buf1 = length buf"
    "take (n + length t) buf1 = take n buf @ t"
    using snprintf_at_fits [of n t buf] by auto
  from Cons.IH [of "n + length t" buf1] Cons.prems b show ?case by (simp add: add.assoc)
qed simp

lemma format_request_fits:
  assumes "length (request_bytes o1 u) < REQ_SIZE"
  shows "\<exists>buf. format_request o1 u = Some (buf, length (request_bytes o1 u)) \<and> length buf = REQ_SIZE \<and>
    take (length (request_bytes o1 u)) buf = request_bytes o1 u"
  using snprintf_all_fits [of 0 "request_parts o1 u" "replicate REQ_SIZE NUL"] assms
  by (simp add: format_request_def request_bytes_def)

text \<open>C35: A request of less than 600 bytes is formatted completely, byte for byte: request line, host, agent and the
  empty line. A longer one (a long host name is enough) is undefined behaviour: the length that is kept is the
  length the text would have had, so that the next \<open>snprintf\<close> or the \<open>write\<close> leaves the buffer.\<close>
theorem request_exact_or_overflow:
  assumes "get_conn cnum s = Some c" "get_url (url_num c) s = Some u"
  shows "(length (request_bytes (opt s) u) < REQ_SIZE \<longrightarrow>
      (\<exists>buf. format_request (opt s) u = Some (buf, length (request_bytes (opt s) u)) \<and>
             take (length (request_bytes (opt s) u)) buf = request_bytes (opt s) u)) \<and>
    (REQ_SIZE < length (request_bytes (opt s) u) \<longrightarrow> send_request cnum s = None)"
proof (intro conjI impI)
  assume big: "REQ_SIZE < length (request_bytes (opt s) u)"
  have len: "n = length (request_bytes (opt s) u) \<and> length buf = REQ_SIZE" if "format_request (opt s) u = Some (buf, n)" for buf n
    using snprintf_all_Some [of "request_parts (opt s) u" "replicate REQ_SIZE NUL" 0 buf n] that
    by (simp add: format_request_def request_bytes_def)
  obtain s1 where s1: "upd_conn cnum (\<lambda>c. c\<lparr>did_connect := True\<rparr>) s = Some s1" "opt s1 = opt s" "get_url (url_num c) s1 = Some u"
    using assms by (auto simp: load_access split: if_splits)
  show "send_request cnum s = None"
  proof (cases "format_request (opt s) u")
    case None
    with assms s1 show ?thesis by (simp add: send_request_def)
  next
    case (Some p)
    then obtain buf n where p: "format_request (opt s) u = Some (buf, n)" by (cases p) auto
    with len big have "\<not> n \<le> length buf" by auto
    with p assms(1) s1 show ?thesis by (simp add: send_request_def bind_eq_None_conv)
  qed
qed (use format_request_fits in blast)

theorem request_exact_or_overflow_witness:
  "(\<exists>buf. format_request some_options some_url = Some (buf, 61) \<and>
      take 61 buf = ''GET /f HTTP/1.0'' @ [CR, LF] @ ''Host: h'' @ [CR, LF] @ ''User-Agent: http_load 09Mar2016'' @ [CR, LF] @ [CR, LF]) \<and>
   send_request 0 (some_load [busy_slot] [some_url\<lparr>hostname := replicate 600 (CHR ''a'')\<rparr>] (os_with 1 [])) = None"
proof -
  let ?s = "some_load [busy_slot] [some_url] (os_with 1 [])"
  let ?u = "some_url\<lparr>hostname := replicate 600 (CHR ''a'')\<rparr>"
  let ?t = "some_load [busy_slot] [?u] (os_with 1 [])"
  have r: "request_bytes some_options some_url =
      ''GET /f HTTP/1.0'' @ [CR, LF] @ ''Host: h'' @ [CR, LF] @ ''User-Agent: http_load 09Mar2016'' @ [CR, LF] @ [CR, LF]"
    by (simp add: request_bytes_def request_parts_def request_line_def HTTP_LOAD_VERSION_def some_url_def some_options_def)
  have n: "url_num busy_slot = 0" by (simp add: busy_slot_def some_connection_def)
  have g: "get_conn 0 ?s = Some busy_slot" "get_url (url_num busy_slot) ?s = Some some_url" "get_conn 0 ?t = Some busy_slot"
    "get_url (url_num busy_slot) ?t = Some ?u"
    by (simp_all add: load_access n)
  have "REQ_SIZE < length (request_bytes some_options ?u)" by (simp add: request_bytes_def request_parts_def REQ_SIZE_def)
  then have "send_request 0 ?t = None" using request_exact_or_overflow [OF g(3,4)] by simp
  moreover have l: "length (request_bytes some_options some_url) = 61" by (simp add: r)
  then have "length (request_bytes some_options some_url) < REQ_SIZE" by (simp add: REQ_SIZE_def)
  then have "\<exists>buf. format_request some_options some_url = Some (buf, 61) \<and> take 61 buf = request_bytes some_options some_url"
    using request_exact_or_overflow [OF g(1,2)] l by simp
  ultimately show ?thesis unfolding r by blast
qed

section \<open>The bytes of one read\<close>

text \<open>The read buffer holds 30000 bytes. Without throttling exactly that many are asked for; with
  \<open>-Throttle N\<close> for \<open>N\<close> up to 600000 the request stays within the buffer, through every rounding of the arithmetic on
  \<open>double\<close> and \<open>float\<close>.\<close>
theorem throttle_read_fits:
  assumes "0 \<le> n" "n \<le> 600000" "throttle o1 = to_float (to_double (of_int n / 10))"
  shows "0 \<le> bytes_to_read o1 \<and> bytes_to_read o1 \<le> int READ_SIZE"
proof (cases "do_throttle o1")
  case True
  have x: "0 \<le> (of_int n / 10 :: rat)" "(of_int n / 10 :: rat) \<le> of_nat 60000"
    using assms(1,2) by (simp_all add: divide_le_eq)
  have d: "0 \<le> to_double (of_int n / 10)" "to_double (of_int n / 10) \<le> of_nat 60000"
    using fl_nonneg [OF x(1)] fl_le [OF _ x(2) _ x(1), of 53] by (simp_all add: to_double_def)
  have "0 \<le> throttle o1" "throttle o1 \<le> of_nat 60000"
    using fl_nonneg [OF d(1)] fl_le [OF _ d(2) _ d(1), of 24] by (simp_all add: assms(3) to_float_def)
  then have "0 \<le> \<lfloor>throttle o1 / 2\<rfloor>" "\<lfloor>throttle o1 / 2\<rfloor> \<le> 30000" by (simp_all add: floor_le_iff)
  with True \<open>0 \<le> throttle o1\<close> show ?thesis by (simp add: bytes_to_read_def trunc_def READ_SIZE_def)
qed (simp add: bytes_to_read_def)

theorem throttle_read_fits_witness:
  "bytes_to_read (some_options\<lparr>do_throttle := True, throttle := to_float (to_double (of_int 33600 / 10))\<rparr>) \<le> int READ_SIZE"
  using throttle_read_fits [of 33600 "some_options\<lparr>do_throttle := True, throttle := to_float (to_double (of_int 33600 / 10))\<rparr>"] by simp

section \<open>The checksum\<close>

text \<open>The reference: rotate a 16-bit word to the right and add the byte, as a signed number.\<close>

definition sum_ref :: "char \<Rightarrow> 16 word \<Rightarrow> 16 word" where
  "sum_ref ch w = word_rotr 1 w + word_of_int (schar ch)"

lemma uint_rotr_16:
  fixes w :: "16 word"
  shows "uint (word_rotr 1 w) = uint w div 2 + (if odd (uint w) then 0x8000 else 0)"
proof -
  have "uint w < 2 ^ 16" "0 \<le> uint w" using uint_bounded [of w] by simp_all
  then have "take_bit 15 (uint w div 2) = uint w div 2" by (simp add: take_bit_eq_mod)
  then show ?thesis
    by (simp add: uint_word_rotr_eq concat_bit_eq drop_bit_eq_div take_bit_Suc push_bit_eq_mult odd_iff_mod_2_eq_one uint_mod_distrib)
qed

lemma checksum_step:
  fixes w :: "16 word"
  shows "((if odd (uint w) then uint w div 2 + 0x8000 else uint w div 2) + schar ch) AND 0xffff = uint (sum_ref ch w)"
proof -
  have "(k :: int) AND 0xffff = take_bit 16 k" for k by (simp add: take_bit_eq_mask mask_eq_exp_minus_1)
  moreover have "uint (word_of_int k :: 16 word) = take_bit 16 k" for k by (simp add: unsigned_of_int)
  moreover have "sum_ref ch w = word_of_int (uint (word_rotr 1 w) + schar ch)" by (simp add: sum_ref_def)
  ultimately have "uint (sum_ref ch w) = take_bit 16 (uint w div 2 + (if odd (uint w) then 0x8000 else 0) + schar ch)"
    by (simp only: uint_rotr_16)
  then show ?thesis using \<open>\<And>k. k AND 0xffff = take_bit 16 k\<close> by (simp add: algebra_simps)
qed

text \<open>C33: The checksum of a body is the rotating sum of 16-bit words over its bytes, taken as signed characters, and
  so a number below 65536.\<close>
theorem checksum_is_rotating_sum:
  assumes "0 \<le> cs" "cs < 2 ^ 16"
  shows "checksum_loop cs buf = uint (fold sum_ref buf (word_of_int cs))"
proof -
  have "checksum_loop (uint w) buf = uint (fold sum_ref buf w)" for w
    by (induction buf arbitrary: w) (simp_all only: checksum_loop.simps fold.simps o_apply id_apply checksum_step)
  moreover have "uint (word_of_int cs :: 16 word) = cs" using assms by (simp add: unsigned_of_int take_bit_int_eq_self)
  ultimately show ?thesis by metis
qed

theorem checksum_is_rotating_sum_witness:
  "checksum_loop 1 [CHR 0xff, CHR ''a''] = uint (fold sum_ref [CHR 0xff, CHR ''a''] (word_of_int 1)) \<and>
   checksum_loop 1 [CHR 0xff, CHR ''a''] = 0xC060"
  using checksum_is_rotating_sum [of 1 "[CHR 0xff, CHR ''a'']"] by (simp add: schar_def uchar_def)

end
