(* ===== verification/Load_Setup.thy ===== *)
theory Load_Setup
  imports Load_Run Load_Request
begin

text \<open>
  From the command line to the main loop of the load generator: under stated conditions on the files and the name
  service, the set-up of \<open>main\<close> returns, and what it leaves satisfies the invariant of the loop.
\<close>

section \<open>What the set-up leaves alone\<close>

definition setup_same :: "load \<Rightarrow> load \<Rightarrow> bool" where
  "setup_same s s' \<longleftrightarrow> heap s' = heap s \<and> free_timers s' = free_timers s \<and> brk s' = brk s \<and> mem_left s' = mem_left s \<and>
     opt s' = opt s \<and> load.times s' = load.times s"

lemma setup_same_trans: "setup_same s s1 \<Longrightarrow> setup_same s1 s2 \<Longrightarrow> setup_same s s2"
  by (simp add: setup_same_def)

lemma setup_same_sys [simp]: "setup_same s (s\<lparr>sys := w\<rparr>)" "setup_same s s"
  by (simp_all add: setup_same_def)

text \<open>A checked allocation changes only the kernel, or ends the process.\<close>

lemma check_settles:
  "settles (\<lambda>s'. \<exists>w. s' = s\<lparr>sys := w\<rparr>) (Some (malloc_check s))" "settles (\<lambda>s'. \<exists>w. s' = s\<lparr>sys := w\<rparr>) (Some (strdup_check s))"
  "settles (\<lambda>s'. \<exists>w. s' = s\<lparr>sys := w\<rparr>) (Some (realloc_check s))"
  by (auto simp: settles_def malloc_check_def strdup_check_def realloc_check_def check_def exit_with_def sysc_def split: prod.splits)

lemma alloc_then:
  assumes "\<And>w. settles Q (f (s\<lparr>sys := w\<rparr>))"
  shows "settles Q (and_then (Some (malloc_check s)) f)" "settles Q (and_then (Some (strdup_check s)) f)"
    "settles Q (and_then (Some (realloc_check s)) f)"
  using settles_then [of "\<lambda>s'. \<exists>w. s' = s\<lparr>sys := w\<rparr>" _ Q f] check_settles [of s] assms by blast+

section \<open>Lines of a file\<close>

lemma fgets_all_pieces: "l \<in> set (fgets_all content) \<Longrightarrow> l \<noteq> [] \<and> set l \<subseteq> set content"
proof (induction content rule: fgets_all.induct)
  case (1 content)
  show ?case
  proof (cases "fgets LINE_SIZE content")
    case None
    with "1.prems" show ?thesis by (subst (asm) fgets_all.simps) simp
  next
    case (Some p)
    then obtain k where k: "content \<noteq> []" "p = (take k content, drop k content)" "0 < k"
      using line_end_pos [of content] by (auto simp: fgets_def Let_def LINE_SIZE_def split: if_splits)
    then have all: "fgets_all content = take k content # fgets_all (drop k content)"
      using Some by (subst fgets_all.simps) simp
    from "1.IH" [OF Some] k(2) "1.prems" k(1,3) show ?thesis
      unfolding all by (auto dest: in_set_takeD in_set_dropD)
  qed
qed

lemma fgets_all_Nil: "fgets_all content = [] \<longleftrightarrow> content = []"
  by (subst fgets_all.simps) (auto simp: fgets_def Let_def)

definition MAX_LINE :: nat where "MAX_LINE = 250"

text \<open>A text file: no NUL, and no line that makes a request too long for its buffer.\<close>

definition text_file :: "string \<Rightarrow> bool" where
  "text_file content \<longleftrightarrow> NUL \<notin> set content \<and> (\<forall>l \<in> set (fgets_all content). length l \<le> MAX_LINE)"

definition text_files :: "(string \<Rightarrow> string option) \<Rightarrow> bool" where
  "text_files fs \<longleftrightarrow> (\<forall>f content. fs f = Some content \<longrightarrow> text_file content)"

lemma chomp_text:
  assumes "text_file content" "l \<in> set (fgets_all content)"
  obtains line where "chomp l = Some line" "length line \<le> MAX_LINE"
proof -
  have l: "l \<noteq> []" "NUL \<notin> set l" "length l \<le> MAX_LINE" using fgets_all_pieces [OF assms(2)] assms by (auto simp: text_file_def)
  then have "c_str l = l" by (simp add: is_cstring_def c_str_id)
  with l show ?thesis by (intro that [of "if last l = LF then butlast l else l"]) (auto simp: chomp_def Let_def)
qed

section \<open>The URL file\<close>

definition resolves_ipv4 :: "getaddrinfo \<Rightarrow> bool" where
  "resolves_ipv4 gai \<longleftrightarrow> (\<forall>h p ais. gai h p = Inr ais \<longrightarrow>
     (\<exists>a \<in> set ais. ai_family a = AF_INET) \<and>
     (\<forall>a \<in> set ais. ai_family a = AF_INET \<longrightarrow> ai_addrlen a = 16 \<and> length (ai_addr a) = 16))"

definition url_ok :: "url \<Rightarrow> bool" where
  "url_ok u \<longleftrightarrow> length (hostname u) + length (filename u) \<le> MAX_LINE + 1 \<and> 0 \<le> port u \<and> port u < 65536 \<and> u_sa_len u \<le> 16"

definition url_table :: "load \<Rightarrow> bool" where
  "url_table s \<longleftrightarrow> int (length (urls s)) \<le> max_urls s \<and> 100 \<le> max_urls s \<and> (\<forall>u \<in> set (urls s). url_ok u)"

lemma parse_url_bounds:
  assumes "parse_url line = Some (host, prt, file)"
  shows "length host + length file \<le> length line + 1" "0 \<le> prt" "prt < 65536"
proof -
  define rest where "rest = drop 7 line"
  define h where "h = takeWhile (\<lambda>c. c \<noteq> CHR '':'' \<and> c \<noteq> CHR ''/'') rest"
  define cp where "cp = drop (length h) rest"
  define pc where "pc = (case cp of
      c # cs \<Rightarrow> if c = CHR '':'' then (take_bit 16 (atoi cs), dropWhile (\<lambda>c. c \<noteq> CHR ''/'') cs) else (80, cp) | [] \<Rightarrow> (80, cp))"
  have eq: "parse_url line = (if strncmp ''http://'' line 7 \<noteq> 0 then None
      else Some (h, fst pc, if snd pc = [] then ''/'' else snd pc))"
    unfolding parse_url_def Let_def case_prod_unfold pc_def cp_def h_def rest_def by (rule refl)
  have l: "length h + length cp \<le> length line"
    using length_takeWhile_le [of "\<lambda>c. c \<noteq> CHR '':'' \<and> c \<noteq> CHR ''/''" rest] by (simp add: cp_def h_def rest_def)
  have "take_bit 16 (x :: int) < 65536" for x using take_bit_int_less_exp [of 16 x] by simp
  then have pc: "0 \<le> fst pc \<and> fst pc < 65536 \<and> length (snd pc) \<le> length cp"
    by (cases cp) (simp_all add: pc_def le_SucI length_dropWhile_le)
  have "host = h \<and> prt = fst pc \<and> file = (if snd pc = [] then ''/'' else snd pc)" using assms eq by (simp split: if_splits)
  then show "length host + length file \<le> length line + 1" "0 \<le> prt" "prt < 65536" using pc l by auto
qed

lemma find_ipv4:
  assumes "resolves_ipv4 gai" "gai h p = Inr ais"
  obtains a where "find (\<lambda>a. ai_family a = AF_INET) ais = Some a" "ai_addrlen a = 16" "length (ai_addr a) = 16"
proof -
  have "find (\<lambda>a. ai_family a = AF_INET) ais \<noteq> None" using assms unfolding resolves_ipv4_def find_None_iff by blast
  then obtain a where a: "find (\<lambda>a. ai_family a = AF_INET) ais = Some a" by blast
  then have "a \<in> set ais" "ai_family a = AF_INET" by (auto simp: find_Some_iff)
  with assms a that show ?thesis unfolding resolves_ipv4_def by blast
qed

lemma lookup_settles:
  assumes "resolves_ipv4 gai" "urls s = us @ [r]"
  shows "settles (\<lambda>s'. setup_same s s' \<and> max_urls s' = max_urls s \<and>
      (\<exists>r'. urls s' = us @ [r'] \<and> hostname r' = hostname r \<and> port r' = port r \<and> filename r' = filename r \<and> u_sa_len r' = 16))
    (lookup_address gai (int (length us)) s)"
proof -
  let ?s = "s\<lparr>urls := us @ [r\<lparr>u_sa_len := int SA_SIZE, u_sa_in := replicate SA_SIZE NUL\<rparr>]\<rparr>"
  let ?h = "if do_proxy (opt s) then proxy_hostname (opt s) else hostname r"
  let ?p = "if do_proxy (opt s) then proxy_port (opt s) else port r"
  have u: "upd_url (int (length us)) (\<lambda>r. r\<lparr>u_sa_len := int SA_SIZE, u_sa_in := replicate SA_SIZE NUL\<rparr>) s = Some ?s"
    using assms(2) by (simp add: upd_url_def)
  have eq: "lookup_address gai (int (length us)) s = (case gai ?h (print_d ?p) of
       Inl e \<Rightarrow> Some (exit_with 1 (print (Stderr ''%s: getaddrinfo %s - %s'' [S (argv0 s), S ?h, D e]) ?s))
     | Inr ais \<Rightarrow> (case find (\<lambda>a. ai_family a = AF_INET) ais of
            Some aiv4 \<Rightarrow> use_address ?h (int (length us)) aiv4 ?s
          | None \<Rightarrow> (case find (\<lambda>a. ai_family a = AF_INET6) ais of
                 Some aiv6 \<Rightarrow> use_address ?h (int (length us)) aiv6 ?s
               | None \<Rightarrow> Some (exit_with 1 (print (Stderr ''%s: no valid address found for host %s'' [S (argv0 s), S ?h]) ?s)))))"
    unfolding lookup_address_def using u by (cases "do_proxy (opt s)") (simp_all add: get_url_def Let_def cong: option.case_cong sum.case_cong)
  show ?thesis
  proof (cases "gai ?h (print_d ?p)")
    case (Inl e)
    then show ?thesis unfolding eq by (simp add: settles_def exit_with_def)
  next
    case (Inr ais)
    obtain a where a: "find (\<lambda>a. ai_family a = AF_INET) ais = Some a" "ai_addrlen a = 16" "length (ai_addr a) = 16"
      using find_ipv4 [OF assms(1) Inr] by metis
    then show ?thesis unfolding eq Inr sum.case a(1) option.case
      by (simp add: settles_def use_address_def SA_SIZE_def upd_url_def setup_same_def)
  qed
qed

text \<open>A URL added to the table, and what follows in a line once there is room for it.\<close>

abbreviation url_added :: "load \<Rightarrow> load \<Rightarrow> bool" where
  "url_added s s' \<equiv> setup_same s s' \<and> url_table s' \<and> urls s' \<noteq> []"

abbreviation url_room_left :: "load \<Rightarrow> load \<Rightarrow> bool" where
  "url_room_left s s' \<equiv> setup_same s s' \<and> url_table s' \<and> int (length (urls s')) < max_urls s'"

abbreviation "add_url gai line host prt path s \<equiv>
  lookup_address gai (int (length (urls s))) (s\<lparr>urls := urls s @ [new_url line host prt path]\<rparr>)"

lemma add_url_settles:
  assumes "resolves_ipv4 gai" "length line \<le> MAX_LINE" "parse_url line = Some (host, prt, path)" "url_room_left s s1"
  shows "settles (url_added s) (add_url gai line host prt path s1)"
proof (rule settles_mono [OF lookup_settles [OF assms(1), of _ "urls s1" "new_url line host prt path"]], goal_cases)
  case (2 s')
  then obtain r where r: "urls s' = urls s1 @ [r]" "hostname r = host" "port r = prt" "filename r = path" "u_sa_len r = 16"
    by (auto simp: new_url_def)
  have "url_ok r" using parse_url_bounds [OF assms(3)] assms(2) r by (simp add: url_ok_def)
  with 2 r assms(4) show ?case by (auto simp: url_table_def setup_same_def)
qed simp

lemma url_room_sys: "url_room_left s s1 \<Longrightarrow> url_room_left s (s1\<lparr>sys := w\<rparr>)"
  by (simp add: setup_same_def url_table_def)

lemma url_line_rest_settles:
  assumes "resolves_ipv4 gai" "length line \<le> MAX_LINE" "url_room_left s s1"
  shows "settles (url_added s) (and_then (Some (strdup_check s1)) (\<lambda>s.
      (case parse_url line of
         None \<Rightarrow> Some (exit_with 1 (print (Stderr ''%s: unknown protocol - %s'' [S (argv0 s), S line]) s))
       | Some (host, prt, path) \<Rightarrow>
           and_then (Some (strdup_check s)) (\<lambda>s. and_then (Some (strdup_check s)) (add_url gai line host prt path)))))"
proof (rule alloc_then(2))
  fix w
  let ?s = "s1\<lparr>sys := w\<rparr>"
  have room: "url_room_left s ?s" by (rule url_room_sys [OF assms(3)])
  show "settles (url_added s) (case parse_url line of
      None \<Rightarrow> Some (exit_with 1 (print (Stderr ''%s: unknown protocol - %s'' [S (argv0 ?s), S line]) ?s))
    | Some (host, prt, path) \<Rightarrow>
        and_then (Some (strdup_check ?s)) (\<lambda>s. and_then (Some (strdup_check s)) (add_url gai line host prt path)))"
  proof (cases "parse_url line")
    case None
    then show ?thesis by (simp add: settles_def exit_with_def)
  next
    case (Some p)
    obtain host prt path where p: "parse_url line = Some (host, prt, path)" using Some by (cases p) auto
    have "settles (url_added s) (and_then (Some (strdup_check ?s)) (\<lambda>s. and_then (Some (strdup_check s)) (add_url gai line host prt path)))"
      by (intro alloc_then(2) add_url_settles [OF assms(1,2) p] url_room_sys) (rule assms(3))
    with p show ?thesis by simp
  qed
qed

lemma read_url_line_settles:
  assumes "resolves_ipv4 gai" "chomp l = Some line" "length line \<le> MAX_LINE" "url_table s"
  shows "settles (\<lambda>s'. setup_same s s' \<and> url_table s' \<and> urls s' \<noteq> []) (read_url_line gai l s)"
proof -
  note rest = url_line_rest_settles [OF assms(1,3)]
  show ?thesis
  proof (cases "int (length (urls s)) \<ge> max_urls s")
    case True
    let ?s = "s\<lparr>max_urls := max_urls s * 2\<rparr>"
    have eq: "url_room s = realloc_check ?s" using True by (simp add: url_room_def)
    have ok: "url_room_left s (?s\<lparr>sys := w\<rparr>)" for w using assms(4) by (simp add: setup_same_def url_table_def)
    have max: "int (length (urls s)) < max_urls s * 2" using ok by simp
    show ?thesis unfolding read_url_line_def assms(2) option.case eq
      by (rule alloc_then(3)) (use rest [OF ok] max in \<open>simp_all add: not_le\<close>)
  next
    case False
    then have eq: "url_room s = s" by (simp add: url_room_def)
    have ok: "url_room_left s s" using False assms(4) by (simp add: setup_same_def)
    show ?thesis unfolding read_url_line_def assms(2) option.case eq
      by (rule settles_then [where P = "\<lambda>s'. s' = s"]) (use rest [OF ok] False in \<open>auto simp: not_le\<close>)
  qed
qed

lemma read_url_lines_settles:
  assumes "resolves_ipv4 gai" "\<forall>l \<in> set ls. \<exists>line. chomp l = Some line \<and> length line \<le> MAX_LINE" "url_table s"
  shows "settles (\<lambda>s'. setup_same s s' \<and> url_table s' \<and> (ls = [] \<and> urls s = [] \<or> urls s' \<noteq> [])) (read_url_lines gai ls s)"
  using assms
proof (induction ls arbitrary: s)
  case (Cons l ls)
  then obtain line where l: "chomp l = Some line" "length line \<le> MAX_LINE" by auto
  show ?case unfolding read_url_lines.simps
  proof (rule settles_then [OF read_url_line_settles [OF assms(1) l Cons.prems(3)]])
    fix s1
    assume 1: "setup_same s s1 \<and> url_table s1 \<and> urls s1 \<noteq> []"
    have "settles (\<lambda>s'. setup_same s1 s' \<and> url_table s' \<and> (ls = [] \<and> urls s1 = [] \<or> urls s' \<noteq> [])) (read_url_lines gai ls s1)"
      by (rule Cons.IH) (use assms(1) Cons.prems(2) 1 in simp_all)
    then show "settles (\<lambda>s'. setup_same s s' \<and> url_table s' \<and> (l # ls = [] \<and> urls s = [] \<or> urls s' \<noteq> [])) (read_url_lines gai ls s1)"
      by (rule settles_mono) (use 1 setup_same_trans in blast)
  qed
qed (auto simp: settles_def)

lemma read_url_file_settles:
  assumes "resolves_ipv4 gai" "\<And>content. fs f = Some content \<Longrightarrow> text_file content \<and> content \<noteq> []"
  shows "settles (\<lambda>s'. setup_same s s' \<and> url_table s' \<and> urls s' \<noteq> []) (read_url_file fs gai f s)"
proof (cases "fs f")
  case None
  then show ?thesis by (simp add: read_url_file_def settles_def exit_with_def)
next
  case (Some content)
  note t = assms(2) [OF Some]
  have lines: "\<forall>l \<in> set (fgets_all content). \<exists>line. chomp l = Some line \<and> length line \<le> MAX_LINE"
    using chomp_text [OF conjunct1 [OF t]] by metis
  have ne: "fgets_all content \<noteq> []" using t fgets_all_Nil by blast
  show ?thesis unfolding read_url_file_def Some option.case
  proof (rule alloc_then(1))
    fix w
    let ?s = "(s\<lparr>max_urls := 100, sys := w\<rparr>)\<lparr>urls := []\<rparr>"
    have "url_table ?s" by (simp add: url_table_def)
    from read_url_lines_settles [OF assms(1) lines this]
    show "settles (\<lambda>s'. setup_same s s' \<and> url_table s' \<and> urls s' \<noteq> []) (read_url_lines gai (fgets_all content) ?s)"
      by (rule settles_mono) (use ne in \<open>auto simp: setup_same_def\<close>)
  qed
qed

section \<open>The file of source addresses\<close>

definition sip_table :: "load \<Rightarrow> bool" where
  "sip_table s \<longleftrightarrow> int (length (sips s)) \<le> max_sips s \<and> 100 \<le> max_sips s"

definition sips_only :: "load \<Rightarrow> load \<Rightarrow> bool" where
  "sips_only s s' \<longleftrightarrow> setup_same s s' \<and> urls s' = urls s \<and> sip_table s'"

lemma read_sip_line_settles:
  assumes "chomp l = Some line" "sip_table s"
  shows "settles (sips_only s) (read_sip_line inet_aton l s)"
proof -
  have rest: "settles (sips_only s) (and_then (Some (strdup_check s1)) (\<lambda>s.
      (case inet_aton line of
         None \<Rightarrow> Some (exit_with 1 (print (Stderr ''%s: cannot convert source IP address %s'' [S (argv0 s), S line]) s))
       | Some a \<Rightarrow> Some (s\<lparr>sips := sips s @ [\<lparr>sip_str = line, sip_sa_in = \<lparr>sin_family = AF_INET, sin_port = 0, sin_addr = a\<rparr>\<rparr>]\<rparr>))))"
    if "setup_same s s1" "urls s1 = urls s" "sip_table s1" "int (length (sips s1)) < max_sips s1" for s1
    by (rule alloc_then(2))
      (use that in \<open>auto simp: settles_def sips_only_def sip_table_def setup_same_def exit_with_def split: option.splits\<close>)
  show ?thesis
  proof (cases "int (length (sips s)) \<ge> max_sips s")
    case True
    let ?s = "s\<lparr>max_sips := max_sips s * 2\<rparr>"
    have eq: "sip_room s = realloc_check ?s" using True by (simp add: sip_room_def)
    have ok: "setup_same s (?s\<lparr>sys := w\<rparr>)" "urls (?s\<lparr>sys := w\<rparr>) = urls s" "sip_table (?s\<lparr>sys := w\<rparr>)"
      "int (length (sips (?s\<lparr>sys := w\<rparr>))) < max_sips (?s\<lparr>sys := w\<rparr>)" for w
      using assms(2) by (simp_all add: setup_same_def sip_table_def)
    show ?thesis unfolding read_sip_line_def assms(1) option.case eq
      by (rule alloc_then(3)) (use rest [OF ok] ok(4) in \<open>simp_all add: not_le\<close>)
  next
    case False
    then have eq: "sip_room s = s" by (simp add: sip_room_def)
    show ?thesis unfolding read_sip_line_def assms(1) option.case eq
      by (rule settles_then [where P = "\<lambda>s'. s' = s"]) (use rest [of s] False assms(2) in \<open>auto simp: not_le\<close>)
  qed
qed

lemma sips_only_trans: "sips_only s s1 \<Longrightarrow> sips_only s1 s2 \<Longrightarrow> sips_only s s2"
  using setup_same_trans by (auto simp: sips_only_def)

lemma read_sip_lines_settles:
  assumes "\<forall>l \<in> set ls. chomp l \<noteq> None" "sip_table s"
  shows "settles (sips_only s) (read_sip_lines inet_aton ls s)"
  using assms
proof (induction ls arbitrary: s)
  case (Cons l ls)
  then obtain line where l: "chomp l = Some line" by auto
  show ?case unfolding read_sip_lines.simps
  proof (rule settles_then [OF read_sip_line_settles [OF l Cons.prems(2)]])
    fix s1
    assume 1: "sips_only s s1"
    have "settles (sips_only s1) (read_sip_lines inet_aton ls s1)"
      by (rule Cons.IH) (use Cons.prems(1) 1 in \<open>simp_all add: sips_only_def\<close>)
    then show "settles (sips_only s) (read_sip_lines inet_aton ls s1)" by (rule settles_mono) (rule sips_only_trans [OF 1])
  qed
qed (simp add: settles_def sips_only_def)

lemma read_sip_file_settles:
  assumes "\<And>content. fs f = Some content \<Longrightarrow> text_file content"
  shows "settles (\<lambda>s'. setup_same s s' \<and> urls s' = urls s) (read_sip_file fs inet_aton f s)"
proof (cases "fs f")
  case None
  then show ?thesis by (simp add: read_sip_file_def settles_def exit_with_def)
next
  case (Some content)
  have lines: "\<forall>l \<in> set (fgets_all content). chomp l \<noteq> None" using chomp_text [OF assms [OF Some]] by (metis option.distinct(1))
  show ?thesis unfolding read_sip_file_def Some option.case
  proof (rule alloc_then(1))
    fix w
    let ?s = "(s\<lparr>max_sips := 100, sys := w\<rparr>)\<lparr>sips := []\<rparr>"
    have "sip_table ?s" by (simp add: sip_table_def)
    from read_sip_lines_settles [OF lines this]
    show "settles (\<lambda>s'. setup_same s s' \<and> urls s' = urls s) (read_sip_lines inet_aton (fgets_all content) ?s)"
      by (rule settles_mono) (simp add: sips_only_def setup_same_def)
  qed
qed

section \<open>Requests that fit\<close>

lemma dec_str_length: "n < 10 ^ Suc k \<Longrightarrow> length (dec_str n) \<le> Suc k"
proof (induction k arbitrary: n)
  case 0
  then show ?case by (subst dec_str.simps) simp
next
  case (Suc k)
  then have "n div 10 < 10 ^ Suc k" by (simp add: div_less_iff_less_mult)
  from Suc.IH [OF this] show ?case by (subst dec_str.simps) simp
qed

lemma url_ok_fits:
  assumes "url_ok u"
  shows "request_fits o1 u"
proof -
  have "length (print_d (port u)) \<le> 5"
    using dec_str_length [of "nat (port u)" 4] assms by (simp add: print_d_def url_ok_def nat_less_iff)
  then have "length (request_bytes o1 u) < REQ_SIZE"
    using assms
    by (simp add: request_bytes_def request_parts_def request_line_def HTTP_LOAD_VERSION_def REQ_SIZE_def url_ok_def MAX_LINE_def)
  from format_request_fits [OF this] this show ?thesis by (auto simp: request_fits_def)
qed

lemma url_table_targets: "url_table s \<Longrightarrow> urls s \<noteq> [] \<Longrightarrow> targets_ok s"
  using url_ok_fits by (auto simp: url_table_def targets_ok_def url_ok_def CONN_SA_SIZE_def)

section \<open>Connections and timers\<close>

lemma init_connections_settles:
  "settles (\<lambda>s'. setup_same s s' \<and> urls s' = urls s \<and> (\<forall>c \<in> set (connections s'). \<not> in_use c)) (init_connections junk s)"
  unfolding init_connections_def Let_def
  by (rule alloc_then(1)) (auto simp: settles_def setup_same_def in_use_def)

lemma add_timer_running:
  assumes "running (Suc n) s m" "timer_ok s (new_timer p 0 k per (now s))"
  shows "\<exists>s' m'. add_timer p k per s = Some s' \<and> exit_code s' = exit_code s \<and> opt s' = opt s \<and> running n s' m'"
proof -
  have "load_rep s m" using assms(1) by (simp add: running_def)
  from create_good [OF this assms(2)] obtain r s' m' where c: "tmr_create (Some (now s)) p 0 k per s = Some (r, s')"
    "frame_ok s s'" "load_rep s' m'" by blast
  note fr = frame_load [OF c(2)]
  have "spent 1 s s'" using tmr_create_aside(2) [OF c(1)] fr by (simp add: spent_def)
  with running_spent [of n 1, OF _ c(3)] assms(1) have "running n s' m'" by simp
  with c(1) fr show ?thesis by (auto simp: add_timer_def)
qed

lemma tmr_init_abs:
  assumes "heap s = Map.empty" "free_timers s = None"
  shows "timer_abs (tmr_init s) Map.empty"
proof -
  have "timers_inv (tmr_init s) (\<lambda>_. []) []"
    using assms by (simp add: timers_inv_def links_def ordered_def bucket_ok_def tmr_init_def)
  moreover have "scheduled (tmr_init s) (\<lambda>_. []) = Map.empty" by (auto simp: scheduled_def)
  ultimately show ?thesis by (auto simp: timer_abs_def intro!: exI [of _ "\<lambda>_. []"])
qed

lemma init_timers_running:
  assumes "heap s = Map.empty" "free_timers s = None" "\<not> exited s" "\<forall>c \<in> set (connections s). \<not> in_use c" "targets_ok s"
    "start (opt s) = START_PARALLEL" "\<not> do_throttle (opt s)" "\<forall>k. normal (load.times s k)" "n + 2 \<le> mem_left s"
  shows "\<exists>s' m. init_timers s = Some s' \<and> \<not> exited s' \<and> running n s' m"
proof -
  let ?s = "(gettimeofday (tmr_init s))\<lparr>start_at := now (gettimeofday (tmr_init s))\<rparr>"
  have same: "opt ?s = opt s" "exit_code ?s = exit_code s" "connections ?s = connections s" "urls ?s = urls s"
    "mem_left ?s = mem_left s" "now ?s = load.times s (ntimes s)"
    by (simp_all add: gettimeofday_def tmr_init_def)
  have "timer_abs ?s Map.empty"
    by (rule timer_abs_same [OF _ tmr_init_abs [OF assms(1,2)]]) (simp add: timers_same_def gettimeofday_def)
  then have "load_rep ?s Map.empty" using assms(4) same(3) by (simp add: load_rep_def slot_ok_def)
  then have r: "running (Suc (Suc n)) ?s Map.empty"
    using assms(5-7,9) same by (simp add: running_def targets_ok_def)
  obtain s1 m1 where s1: "(if do_verbose (opt ?s) then add_timer Progress_report (PROGRESS_SECS * 1000) True ?s else Some ?s) = Some s1"
    "exit_code s1 = exit_code ?s" "opt s1 = opt ?s" "running (Suc n) s1 m1"
  proof (cases "do_verbose (opt ?s)")
    case True
    have "timer_ok ?s (new_timer Progress_report 0 (PROGRESS_SECS * 1000) True (now ?s))"
      using tv_add_ms_normal [of "now ?s" 60000] assms(8) same(6) by (simp add: timer_ok_def new_timer_def PROGRESS_SECS_def)
    from add_timer_running [OF r this] that True show ?thesis by auto
  next
    case False
    then show ?thesis using that [of ?s Map.empty] r by (auto simp: running_def)
  qed
  let ?e = "if end_at (opt s1) = END_SECONDS then add_timer End_timer (end_seconds (opt s1) * 1000) False s1 else Some s1"
  obtain s2 m2 where s2: "?e = Some s2" "exit_code s2 = exit_code s1" "running n s2 m2"
  proof (cases "end_at (opt s1) = END_SECONDS")
    case True
    have "timer_ok s1 (new_timer End_timer 0 (end_seconds (opt s1) * 1000) False (now s1))" by (simp add: timer_ok_def new_timer_def)
    from add_timer_running [OF s1(4) this] that True show ?thesis by auto
  next
    case False
    then show ?thesis using that [of s1 m1] s1(4) by (auto simp: running_def)
  qed
  have "init_timers s = Some s2"
    unfolding init_timers_def Let_def using s1(1,3) s2(1) assms(6) same(1) by simp
  with s2 s1(2) same(2) assms(3) show ?thesis by auto
qed

section \<open>The whole set-up\<close>

text \<open>The process starts with an empty heap and no timers.\<close>

definition at_start :: "load \<Rightarrow> bool" where
  "at_start s \<longleftrightarrow> heap s = Map.empty \<and> free_timers s = None \<and> \<not> exited s \<and> (\<forall>k. normal (load.times s k))"

lemma main_setup_running:
  assumes "at_start s" "resolves_ipv4 gai" "text_files fs"
    "parse_args (connection_limit limits) (tl argv) = Inr (o1, f)" "fs f \<noteq> Some []"
    "start o1 = START_PARALLEL" "\<not> do_throttle o1" "n + 2 \<le> mem_left s"
  shows "runs_on n (main_setup limits fs gai inet_aton junk argv s)"
proof -
  let ?s = "(s\<lparr>argv0 := hd argv, max_connections := connection_limit limits\<rparr>)\<lparr>opt := o1\<rparr>"
  let ?Q = "\<lambda>s. \<exists>m. running n s m"
  have whole: "runs_on n (main_setup limits fs gai inet_aton junk argv s) \<longleftrightarrow> settles ?Q (and_then (read_url_file fs gai f ?s) (\<lambda>s.
      and_then (case sip_file (opt s) of None \<Rightarrow> Some s | Some f \<Rightarrow> read_sip_file fs inet_aton f s) (\<lambda>s.
      and_then (init_connections junk s) init_timers)))"
    unfolding main_setup_def Let_def runs_on_def using assms(4) by simp
  have content: "fs f = Some content \<Longrightarrow> text_file content \<and> content \<noteq> []" for content using assms(3,5) by (auto simp: text_files_def)
  show ?thesis unfolding whole
  proof (rule settles_then [OF read_url_file_settles [OF assms(2) content]])
    fix s1
    assume 1: "setup_same ?s s1 \<and> url_table s1 \<and> urls s1 \<noteq> []"
    show "settles ?Q (and_then (case sip_file (opt s1) of None \<Rightarrow> Some s1 | Some f \<Rightarrow> read_sip_file fs inet_aton f s1) (\<lambda>s.
        and_then (init_connections junk s) init_timers))"
    proof (rule settles_then [where P = "\<lambda>s2. setup_same s1 s2 \<and> urls s2 = urls s1"])
      show "settles (\<lambda>s2. setup_same s1 s2 \<and> urls s2 = urls s1)
          (case sip_file (opt s1) of None \<Rightarrow> Some s1 | Some f \<Rightarrow> read_sip_file fs inet_aton f s1)"
        using read_sip_file_settles [of fs] assms(3) by (auto simp: text_files_def split: option.splits)
      fix s2
      assume 2: "setup_same s1 s2 \<and> urls s2 = urls s1"
      show "settles ?Q (and_then (init_connections junk s2) init_timers)"
      proof (rule settles_then [OF init_connections_settles])
        fix s3
        assume ex: "\<not> exited s3" and 3: "setup_same s2 s3 \<and> urls s3 = urls s2 \<and> (\<forall>c \<in> set (connections s3). \<not> in_use c)"
        have same: "heap s3 = heap s" "free_timers s3 = free_timers s" "mem_left s3 = mem_left s" "opt s3 = o1"
          "load.times s3 = load.times s" "urls s3 = urls s1" "opt s1 = o1" using 1 2 3 by (simp_all add: setup_same_def)
        have "targets_ok s3" using url_table_targets [of s1] 1 same by (simp add: targets_ok_def)
        from init_timers_running [OF _ _ ex _ this, of n] assms 3 same show "settles ?Q (init_timers s3)"
          by (auto simp: at_start_def settles_def)
      qed
    qed
  qed
qed

end
