(* ===== verification/Load_Spec.thy ===== *)
theory Load_Spec
  imports Load_Setup
begin

text \<open>
  The properties of the load generator: closing, reading and starting connections under the invariant of \<open>Load_Inv\<close>,
  the addresses, the URL syntax and the end of a run.
\<close>

section \<open>Connections\<close>

text \<open>C23: Closing a connection in use never fails and accounts for it exactly: the slot is free, both of its timers are
  cancelled and no other timer is touched, the counter of connections goes down with the number of slots in use, one more
  fetch is completed, its bytes are added, and its descriptor is closed.\<close>
theorem close_connection_accounts:
  assumes "load_rep s m" "i < length (connections s)" "in_use (connections s ! i)"
  shows "\<exists>s'. close_connection (int i) s = Some s' \<and> load_rep s' (without (connections s ! i) m) \<and>
    connections s' = (connections s)[i := (connections s ! i)\<lparr>conn_state := CNST_FREE\<rparr>] \<and>
    num_connections s' = num_connections s - 1 \<and> int (used s') = int (used s) - 1 \<and>
    fetches_completed (stat s') = fetches_completed (stat s) + 1 \<and>
    total_bytes (stat s') = total_bytes (stat s) + c_bytes (connections s ! i) \<and>
    closed (sys s') = conn_fd (connections s ! i) # closed (sys s)"
  using close_connection_rep [OF assms] by blast

theorem close_connection_accounts_witness:
  "\<exists>s'. close_connection 0 (with_timer (some_load [busy_slot] [some_url] (os_with 1 []))) = Some s' \<and> num_connections s' = 0 \<and>
     load_rep s' Map.empty \<and> closed (sys s') = [5]"
proof -
  let ?s = "with_timer (some_load [busy_slot] [some_url] (os_with 1 []))"
  have u: "in_use busy_slot" "without busy_slot [0 \<mapsto> some_timer] = Map.empty" "conn_fd busy_slot = 5"
    by (auto simp: in_use_def without_def busy_slot_def some_connection_def)
  have "load_rep ?s [0 \<mapsto> some_timer]" using busy_slot_rep [of "[]" "[]"] by simp
  from close_connection_accounts [OF this, of 0] u obtain s' where "close_connection 0 ?s = Some s'"
    "num_connections s' = 0" "load_rep s' Map.empty" "closed (sys s') = 5 # closed (os_with 1 [])" by auto
  then show ?thesis by (intro exI [of _ s']) (simp add: os_with_def)
qed



text \<open>C11: Starting a connection, under every answer of the kernel, never fails when a slot is free, memory for a timer is left,
  and every URL has an IPv4 address and a request that fits. The invariant holds again afterwards. The counter of
  connections follows the slots in use, but for one case: a connection that is established at once and whose request
  cannot be written is closed before it was counted, and the counter is one too low.\<close>
theorem start_connection_safe:
  assumes "load_rep s m" "\<not> exited s" "\<exists>c \<in> set (connections s). conn_state c = CNST_FREE" "has_room s" "targets_ok s"
  shows "\<exists>s'. start_connection s = Some s' \<and> load_inv s' \<and> exit_code s' = exit_code s \<and>
    (num_connections s' - int (used s') = num_connections s - int (used s) \<or>
     num_connections s' = num_connections s - 1 \<and> used s' = used s)"
  using start_connection_good [OF assms] by blast

lemma some_targets: "targets_ok (some_load cs [some_url] w)"
proof -
  have "length (request_bytes some_options some_url) < REQ_SIZE"
    by (simp add: request_bytes_def request_parts_def request_line_def HTTP_LOAD_VERSION_def some_url_def some_options_def REQ_SIZE_def)
  from format_request_fits [OF this] have "request_fits some_options some_url"
    using \<open>length (request_bytes some_options some_url) < REQ_SIZE\<close> by (auto simp: request_fits_def)
  then show ?thesis by (simp add: targets_ok_def) (simp add: some_url_def CONN_SA_SIZE_def)
qed

theorem start_connection_safe_witness:
  "\<exists>s'. start_connection (some_load [free_slot] [some_url] (os_with 1 [])) = Some s' \<and> load_inv s'"
proof -
  let ?s = "some_load [free_slot] [some_url] (os_with 1 [])"
  have "\<exists>c \<in> set (connections ?s). conn_state c = CNST_FREE" by (simp add: free_slot_def)
  from start_connection_safe [OF free_rep _ this _ some_targets] show ?thesis by auto
qed

lemma close_stats_timeouts: "total_timeouts (close_stats c t) = total_timeouts t"
  by (simp add: close_stats_def status_stats_def response_stats_def connect_stats_def Let_def)

lemma close_without_timers:
  assumes "i < length (connections s)" "idle_timer (connections s ! i) = None" "wakeup_timer (connections s ! i) = None"
    "0 \<le> url_num (connections s ! i)" "nat (url_num (connections s ! i)) < length (urls s)"
  shows "\<exists>s'. close_connection (int i) s = Some s' \<and> num_connections s' = num_connections s - 1 \<and>
    fetches_completed (stat s') = fetches_completed (stat s) + 1 \<and> total_timeouts (stat s') = total_timeouts (stat s)"
proof -
  note u = close_untimed [OF assms]
  let ?c = "connections s ! i"
  let ?s = "(closefd (conn_fd ?c) s)\<lparr>connections := (connections s)[i := ?c\<lparr>conn_state := CNST_FREE\<rparr>],
      num_connections := num_connections s - 1, stat := close_stats ?c (stat s)\<rparr>"
  from u(2) obtain s' where s': "close_connection (int i) s = Some s'" "verified ?s s'" by blast
  have "total_timeouts (stat s') = total_timeouts (stat ?s)"
    using s'(1) unfolding u(1)
    by (auto simp: verify_checksum_def verify_bytes_def load_access print_def split: if_splits option.splits)
  with s' show ?thesis by (auto simp: verified_def close_stats_counts close_stats_timeouts)
qed

text \<open>C38: When no socket can be made for a new connection, its slot is free again, but its idle timer stays scheduled. When
  that timer fires, a connection that does not exist is closed: the counter of connections drops by one, and a completed
  fetch and a timeout are counted.\<close>
theorem stale_idle_timer:
  assumes "load_rep s m" "i < length (connections s)" "conn_state (connections s ! i) = CNST_FREE" "has_room s"
    "0 \<le> u" "nat u < length (urls s)" "sr_ret (ans (sys s) (tick (sys s))) < 0"
  shows "\<exists>a s1 s2. start_socket u (int i) s = Some s1 \<and> conn_state (connections s1 ! i) = CNST_FREE \<and>
    num_connections s1 = num_connections s \<and>
    timer_abs s1 (m(a \<mapsto> new_timer Idle_connection (int i) (idle_secs (opt s) * 1000) False (now s))) \<and>
    timer_call Idle_connection (int i) s1 = Some s2 \<and> num_connections s2 = num_connections s - 1 \<and>
    fetches_completed (stat s2) = fetches_completed (stat s) + 1 \<and> total_timeouts (stat s2) = total_timeouts (stat s) + 1"
proof -
  let ?t = "new_timer Idle_connection (int i) (idle_secs (opt s) * 1000) False (now s)"
  have "timer_abs s m" using assms(1) by (simp add: load_rep_def)
  from create_abs [OF this, of "now s" Idle_connection "int i" "idle_secs (opt s) * 1000" False] assms(4)
  obtain a s1 where a: "tmr_create (Some (now s)) Idle_connection (int i) (idle_secs (opt s) * 1000) False s = Some (Some a, s1)"
    "frame_ok s s1" "timer_abs s1 (m(a \<mapsto> ?t))" by auto
  note fr = frame_load [OF a(2)]
  obtain w where w: "sys_socket (sys s) = (-1, w)" using sys_call_fail [OF assms(7)] by blast
  let ?c = "(fill_slot u (Some a) (now s) (connections s ! i))\<lparr>conn_fd := -1\<rparr>"
  let ?s = "print (Perror (url_str (urls s ! nat u))) (s1\<lparr>sys := w, connections := (connections s)[i := ?c]\<rparr>)"
  have "start_socket u (int i) s = Some ?s"
    using a(1) fr w assms(2,5,6)
    by (simp add: start_socket_def open_socket_def sysc_def upd_conn_def get_url_def)
  moreover have "timer_abs ?s (m(a \<mapsto> ?t))"
    by (rule timer_abs_same [of s1]) (use a(3) in \<open>simp_all add: timers_same_def print_def\<close>)
  moreover have "conn_state ?c = CNST_FREE" "idle_timer ?c = Some a" "wakeup_timer ?c = None" "url_num ?c = u"
    using assms(3) by (simp_all add: fill_slot_def)
  moreover obtain s2 where "idle_connection (int i) ?s = Some s2" "num_connections s2 = num_connections s - 1"
    "fetches_completed (stat s2) = fetches_completed (stat s) + 1" "total_timeouts (stat s2) = total_timeouts (stat s) + 1"
  proof -
    let ?s' = "print (Stderr ''%s: timed out'' [S (url_str (urls s ! nat u))])
       (?s\<lparr>connections := (connections s)[i := ?c\<lparr>idle_timer := None\<rparr>]\<rparr>)"
    have "idle_connection (int i) ?s = map_option (\<lambda>s. s\<lparr>stat := (stat s)\<lparr>total_timeouts := total_timeouts (stat s) + 1\<rparr>\<rparr>)
        (close_connection (int i) ?s')"
      using assms(2,5,6) fr \<open>url_num ?c = u\<close>
      by (simp add: idle_connection_def load_access print_def map_conv_bind_option comp_def)
    moreover have "i < length (connections ?s')" "connections ?s' ! i = ?c\<lparr>idle_timer := None\<rparr>" "urls ?s' = urls s"
      "num_connections ?s' = num_connections s" "stat ?s' = stat s"
      using assms(2) fr by (simp_all add: print_def)
    ultimately show ?thesis
      using close_without_timers [of i ?s'] assms(5,6) \<open>url_num ?c = u\<close> \<open>wakeup_timer ?c = None\<close> that by auto
  qed
  ultimately show ?thesis using assms(2) fr
    by (intro exI [of _ a] exI [of _ ?s] exI [of _ s2]) (simp add: timer_call_def print_def)
qed

theorem stale_idle_timer_witness:
  "\<exists>s1 s2. start_socket 0 0 (some_load [free_slot] [some_url] (os_with (-1) [])) = Some s1 \<and>
     timer_call Idle_connection 0 s1 = Some s2 \<and> num_connections s2 = -1"
proof -
  let ?s = "some_load [free_slot] [some_url] (os_with (-1) [])"
  have "conn_state (connections ?s ! 0) = CNST_FREE" by (simp add: free_slot_def)
  moreover have "\<not> in_use free_slot" by (simp add: in_use_def free_slot_def)
  ultimately show ?thesis using stale_idle_timer [OF free_rep, of 0 "[some_url]" "os_with (-1) []" 0] by (auto simp: os_with_def)
qed

section \<open>The whole program\<close>


definition ipv4_address :: addrinfo where
  "ipv4_address = \<lparr>ai_family = AF_INET, ai_socktype = 1, ai_protocol = 6, ai_addrlen = 16, ai_addr = replicate 16 (CHR ''a'')\<rparr>"

lemma one_line_file: "text_file (''http://h/f'' @ [LF])"
proof -
  let ?c = "''http://h/f'' @ [LF]"
  have "fgets_all ?c = [?c]"
    by (subst fgets_all.simps, simp add: fgets_def line_end_def LINE_SIZE_def Let_def)+
  then show ?thesis by (simp add: text_file_def MAX_LINE_def)
qed


section \<open>Addresses and URLs\<close>

text \<open>The name service's first IPv4 address is the one a URL gets. When there is none, the first IPv6 address is stored with its
  28 bytes, and connecting to it copies them into the 16 bytes of the connection: undefined behaviour.\<close>
theorem lookup_prefers_ipv4:
  assumes "get_url u s = Some r" "\<not> do_proxy (opt s)" "gai (hostname r) (print_d (port r)) = Inr ais"
    "find (\<lambda>a. ai_family a = AF_INET) ais = v4" "find (\<lambda>a. ai_family a = AF_INET6) ais = Some a6"
    "ai_addrlen a6 = SA_SIZE" "length (ai_addr a6) = SA_SIZE" "\<And>a. v4 = Some a \<Longrightarrow> ai_addrlen a = 16 \<and> length (ai_addr a) = 16"
  shows "\<exists>s' r'. lookup_address gai u s = Some s' \<and> get_url u s' = Some r' \<and>
    (case v4 of
       Some a \<Rightarrow> u_sa_len r' = 16 \<and> take 16 (u_sa_in r') = ai_addr a \<and> sock_family r' = AF_INET
     | None \<Rightarrow> u_sa_in r' = ai_addr a6 \<and> sock_family r' = AF_INET6 \<and> connect_socket cnum r' fd s' = None)"
proof -
  have f6: "ai_family a6 = AF_INET6" using assms(5) by (auto simp: find_Some_iff)
  have u: "0 \<le> u" "nat u < length (urls s)" "r = urls s ! nat u" using assms(1) by (auto simp: get_url_def split: if_splits)
  show ?thesis
  proof (cases v4)
    case None
    with assms u f6 show ?thesis
      by (simp add: lookup_address_def use_address_def load_access connect_socket_def CONN_SA_SIZE_def SA_SIZE_def)
  next
    case (Some a)
    then have "ai_family a = AF_INET" using assms(4) by (auto simp: find_Some_iff)
    with Some assms(2,3,4) assms(8) [OF Some] u show ?thesis
      by (simp add: lookup_address_def use_address_def load_access SA_SIZE_def)
  qed
qed

definition some_address :: addrinfo where
  "some_address = \<lparr>ai_family = AF_INET6, ai_socktype = 1, ai_protocol = 6, ai_addrlen = 28, ai_addr = replicate 28 (CHR ''a'')\<rparr>"

theorem lookup_prefers_ipv4_witness:
  "\<exists>s' r'. lookup_address (\<lambda>_ _. Inr [some_address]) 0 (some_load [free_slot] [some_url] (os_with 1 [])) = Some s' \<and>
     get_url 0 s' = Some r' \<and> connect_socket 0 r' 5 s' = None"
proof -
  let ?s = "some_load [free_slot] [some_url] (os_with 1 [])"
  have "get_url 0 ?s = Some some_url" "\<not> do_proxy (opt ?s)" by (simp_all add: get_url_def) (simp add: some_options_def)
  from lookup_prefers_ipv4 [OF this, of "\<lambda>_ _. Inr [some_address]" "[some_address]" None some_address 0 5]
  show ?thesis by (auto simp: some_address_def SA_SIZE_def AF_INET_def AF_INET6_def)
qed

lemma dec_val_stop: "\<forall>d \<in> set ds. isdigit d \<Longrightarrow> \<not> isdigit c \<Longrightarrow> dec_val acc (ds @ c # r) = dec_val acc ds"
  by (induction ds arbitrary: acc) simp_all

lemma atoi_stop:
  assumes "0 \<le> p" "p < 2 ^ 31" "\<not> isdigit c"
  shows "atoi (print_d p @ c # r) = p"
proof -
  obtain d ds where d: "dec_str (nat p) = d # ds" by (cases "dec_str (nat p)") simp_all
  then have dig: "\<forall>x \<in> set (d # ds). isdigit x" using dec_str_digits [of "nat p"] by simp
  then have "strtol10 ((d # ds) @ c # r) = dec_val 0 ((d # ds) @ c # r)" using isdigit_not_special [of d] by simp
  also have "\<dots> = dec_val 0 (d # ds)" by (rule dec_val_stop [OF dig assms(3)])
  also have "\<dots> = p" unfolding d [symmetric] dec_val_dec_str using assms(1) by simp
  finally have "strtol10 (print_d p @ c # r) = p" using assms(1) d by (simp add: print_d_def)
  with assms show ?thesis by (simp add: atoi_def signed_take_bit_id)
qed

lemma print_d_no_slash: "0 \<le> p \<Longrightarrow> c \<in> set (print_d p) \<Longrightarrow> c \<noteq> CHR ''/''"
  using dec_str_digits [of "nat p"] by (auto simp: print_d_def isdigit_def uchar_def)

text \<open>A URL in the usual form, \<open>http://host:port/path\<close>, is taken apart into exactly its host, port and path.\<close>
theorem parse_url_parts:
  assumes "\<forall>c \<in> set host. c \<noteq> CHR '':'' \<and> c \<noteq> CHR ''/''" "0 \<le> p" "p < 2 ^ 16"
  shows "parse_url (''http://'' @ host @ '':'' @ print_d p @ ''/'' @ path) = Some (host, p, ''/'' @ path)"
proof -
  let ?tail = "'':'' @ print_d p @ ''/'' @ path"
  have "strncmp ''http://'' (''http://'' @ host @ ?tail) 7 = 0" by (simp add: strncmp_def)
  moreover have "takeWhile (\<lambda>c. c \<noteq> CHR '':'' \<and> c \<noteq> CHR ''/'') (host @ ?tail) = host"
    using assms(1) by (simp add: takeWhile_append2)
  moreover have "dropWhile (\<lambda>c. c \<noteq> CHR ''/'') (print_d p @ ''/'' @ path) = ''/'' @ path"
    using print_d_no_slash [OF assms(2)] by (simp add: dropWhile_append2)
  moreover have "take_bit 16 (atoi (print_d p @ CHR ''/'' # path)) = p"
    using atoi_stop [of p "CHR ''/''" path] assms(2,3) by (simp add: isdigit_def uchar_def take_bit_int_eq_self)
  ultimately show ?thesis by (simp add: parse_url_def)
qed

theorem parse_url_parts_witness:
  "parse_url (''http://'' @ ''localhost'' @ '':'' @ print_d 8080 @ ''/'' @ ''index.html'') = Some (''localhost'', 8080, ''/index.html'')"
  using parse_url_parts [of "''localhost''" 8080 "''index.html''"] by simp

section \<open>The end of a run\<close>

text \<open>Once as many fetches are completed as were asked for, the next round of the main loop writes the report, releases
  every timer and ends the process with status 0, whatever \<open>select\<close> would have answered.\<close>
theorem run_ends_at_limit:
  assumes "timers_inv s B F" "\<not> exited s" "end_at (opt s) = END_FETCHES" "end_fetches (opt s) \<le> fetches_completed (stat s)"
    "dom (heap s) = active B \<union> set F"
  shows "\<exists>s'. main_loop (ready # rs) s = Some s' \<and> exit_code s' = Some 0 \<and> heap s' = Map.empty"
proof -
  let ?s = "report_codes (report_errors (report_times (report_fetches (elapsed_secs (delta_timeval (start_at s) (now s))) s)))"
  have same: "timers_same s ?s" by (rule report_keeps)
  have "timers_inv ?s B F" by (rule timers_inv_same [OF assms(1)]) (use same in \<open>simp_all add: timers_same_def\<close>)
  from destroy_frees [OF this] obtain s1 where s1: "tmr_destroy ?s = Some s1" "dom (heap s1) = dom (heap ?s) - active B - set F" by blast
  moreover have "heap ?s = heap s" using same by (simp add: timers_same_def)
  ultimately have "dom (heap s1) = {}" using assms(5) by auto
  then have "heap s1 = Map.empty" by simp
  moreover have "main_loop (ready # rs) s = Some (exit_with 0 s1)"
    using assms(3,4) s1(1) by (simp add: main_round_def finish_def and_then_def exit_with_def Let_def)
  ultimately show ?thesis by (simp add: exit_with_def)
qed

theorem run_ends_at_limit_witness:
  "\<exists>s'. main_loop [[], []] ((some_load [free_slot] [some_url] (os_with 1 []))\<lparr>stat := some_stats\<lparr>fetches_completed := 1\<rparr>\<rparr>) = Some s' \<and>
     exit_code s' = Some 0"
proof -
  let ?s = "(some_load [free_slot] [some_url] (os_with 1 []))\<lparr>stat := some_stats\<lparr>fetches_completed := 1\<rparr>\<rparr>"
  have "timers_inv ?s (\<lambda>_. []) []"
    by (simp add: timers_inv_def links_def ordered_def bucket_ok_def some_load_def)
  moreover have "end_at (opt ?s) = END_FETCHES" "end_fetches (opt ?s) \<le> fetches_completed (stat ?s)" "\<not> exited ?s"
    "dom (heap ?s) = active (\<lambda>_. []) \<union> set []"
    by (simp_all add: some_options_def) (simp add: some_load_def)
  ultimately show ?thesis using run_ends_at_limit [of ?s "\<lambda>_. []" "[]" "[]" "[[]]"] by blast
qed

end
