(* ===== verification/C_Buffer.thy ===== *)
theory C_Buffer
  imports C_Prelude
begin

text \<open>
  Character arrays as the C++ programs use them: \<open>strcpy\<close>, \<open>sscanf\<close> with a scan set, and a loop that removes
  characters from a string in place. A result is missing (\<open>None\<close>) where the code would leave an array.
\<close>

section \<open>Copying\<close>

definition strcpy_to :: "string \<Rightarrow> char list \<Rightarrow> char list option" where
  "strcpy_to src dst =
     (if length src < length dst then Some (src @ NUL # drop (Suc (length src)) dst) else None)"

text \<open>\<open>sscanf (pos, "%[^c]", dst)\<close>: nothing is stored when the first character does not match.\<close>

definition scan_until :: "char \<Rightarrow> string \<Rightarrow> char list \<Rightarrow> char list option" where
  "scan_until stop pos dst =
     (let t = takeWhile (\<lambda>c. c \<noteq> stop) pos in if t = [] then Some dst else strcpy_to t dst)"

section \<open>Removing characters in place\<close>

text \<open>\<open>for (i = 0; i < strlen (buf) + 1; ++i) if (keep (buf[i])) buf[index++] = buf[i];\<close>, with the length computed
  anew in every round. Without a NUL in the array \<open>strlen\<close> leaves it.\<close>

lemma strlen_less: "NUL \<in> set buf \<Longrightarrow> length (c_str buf) < length buf"
  by (induction buf) auto

function squeeze_loop :: "(char \<Rightarrow> bool) \<Rightarrow> nat \<Rightarrow> nat \<Rightarrow> char list \<Rightarrow> char list option" where
  "squeeze_loop keep i index buf =
     (if NUL \<notin> set buf then None
      else if i < length (c_str buf) + 1
      then if keep (buf ! i) then squeeze_loop keep (Suc i) (Suc index) (buf[index := buf ! i])
           else squeeze_loop keep (Suc i) index buf
      else Some buf)"
  by pat_completeness auto

termination
  by (relation "measure (\<lambda>(keep, i, index, buf). Suc (length buf) - i)") (auto dest!: strlen_less)

declare squeeze_loop.simps [simp del]

definition squeeze :: "(char \<Rightarrow> bool) \<Rightarrow> char list \<Rightarrow> char list option" where
  "squeeze keep buf = squeeze_loop keep 0 0 buf"

lemma c_str_stop: "NUL \<notin> set s \<Longrightarrow> c_str (s @ NUL # t) = s"
  by (simp add: is_cstring_def)

lemma squeeze_loop_step:
  assumes "NUL \<notin> set (d @ j)" "NUL \<notin> set s"
  shows "squeeze_loop keep (length (d @ j)) (length d) (d @ j @ s @ NUL # t) =
    (let buf = d @ j @ s @ NUL # t; c = hd (s @ [NUL])
     in if keep c then squeeze_loop keep (Suc (length (d @ j))) (Suc (length d)) (buf[length d := c])
        else squeeze_loop keep (Suc (length (d @ j))) (length d) buf)"
proof -
  have "c_str (d @ j @ s @ NUL # t) = d @ j @ s" using assms c_str_stop [of "d @ j @ s" t] by simp
  moreover have "(d @ j @ s @ NUL # t) ! length (d @ j) = hd (s @ [NUL])"
    by (cases s) (simp_all add: nth_append)
  ultimately show ?thesis by (subst squeeze_loop.simps) (simp add: Let_def)
qed

text \<open>The loop leaves the characters to be kept, whatever stood in the array before and after them.\<close>

lemma squeeze_loop_filter:
  assumes "keep NUL" "NUL \<notin> set (d @ j)" "NUL \<notin> set s"
  shows "\<exists>t'. squeeze_loop keep (length (d @ j)) (length d) (d @ j @ s @ NUL # t) = Some (d @ filter keep s @ NUL # t') \<and>
    length (d @ filter keep s @ NUL # t') = length (d @ j @ s @ NUL # t)"
  using assms(2,3)
proof (induction s arbitrary: d j)
  case Nil
  have step: "squeeze_loop keep (length (d @ j)) (length d) (d @ j @ [] @ NUL # t) =
      squeeze_loop keep (Suc (length (d @ j))) (Suc (length d)) ((d @ j @ NUL # t)[length d := NUL])"
    using squeeze_loop_step [OF Nil.prems, of keep t] assms(1) by (simp add: Let_def)
  obtain t' where t': "(d @ j @ NUL # t)[length d := NUL] = d @ NUL # t'" "length t' = length j + length t"
    by (cases j) (simp_all add: list_update_append)
  have "c_str (d @ NUL # t') = d" using Nil.prems by (intro c_str_stop) simp
  then have "squeeze_loop keep (Suc (length (d @ j))) (Suc (length d)) (d @ NUL # t') = Some (d @ NUL # t')"
    by (subst squeeze_loop.simps) simp
  with step t' show ?case by simp
next
  case (Cons c s)
  note step = squeeze_loop_step [OF Cons.prems, of keep t]
  show ?case
  proof (cases "keep c")
    case False
    from Cons.IH [of d "j @ [c]"] Cons.prems step False show ?thesis by (simp add: Let_def)
  next
    case True
    obtain j' where j': "(d @ j @ (c # s) @ NUL # t)[length d := c] = (d @ [c]) @ j' @ s @ NUL # t" "length j' = length j" "set j' \<subseteq> set (c # j)"
    proof (cases j)
      case Nil
      with that [of "[]"] show ?thesis by (simp add: list_update_append)
    next
      case (Cons x xs)
      with that [of "xs @ [c]"] show ?thesis by (auto simp: list_update_append)
    qed
    have "NUL \<notin> set ((d @ [c]) @ j')" "NUL \<notin> set s" using Cons.prems j'(3) by auto
    from Cons.IH [OF this] True step j'(1,2) show ?thesis by (simp add: Let_def)
  qed
qed

lemma squeeze_filter:
  assumes "keep NUL" "NUL \<notin> set s"
  shows "\<exists>t'. squeeze keep (s @ NUL # t) = Some (filter keep s @ NUL # t') \<and>
    length (filter keep s @ NUL # t') = length (s @ NUL # t)"
  using squeeze_loop_filter [where keep = keep and d = "[]" and j = "[]" and s = s and t = t] assms by (simp add: squeeze_def)

text \<open>An array that holds a string.\<close>

lemma c_str_split: "NUL \<in> set buf \<Longrightarrow> \<exists>t. buf = c_str buf @ NUL # t"
  by (induction buf) auto

lemma NUL_not_in_c_str [simp]: "NUL \<notin> set (c_str buf)"
  using is_cstring_c_str [of buf] by (simp add: is_cstring_def)

lemma squeeze_c_str:
  assumes "keep NUL" "NUL \<in> set buf"
  shows "\<exists>buf'. squeeze keep buf = Some buf' \<and> c_str buf' = filter keep (c_str buf) \<and> length buf' = length buf \<and> NUL \<in> set buf'"
proof -
  obtain t where t: "buf = c_str buf @ NUL # t" using c_str_split [OF assms(2)] by blast
  from squeeze_filter [where keep = keep, OF assms(1), of "c_str buf" t] obtain t' where
    "squeeze keep buf = Some (filter keep (c_str buf) @ NUL # t')" "length (filter keep (c_str buf) @ NUL # t') = length buf"
    using t by auto
  moreover have "c_str (filter keep (c_str buf) @ NUL # t') = filter keep (c_str buf)" by (rule c_str_stop) simp
  ultimately show ?thesis by simp
qed

end
