(* ===== verification/Sql_Connect.thy ===== *)
theory Sql_Connect
  imports C_Prelude "HOL-Library.Monad_Syntax"
begin

text \<open>
  \<open>sql_connect.cpp\<close>: the class \<open>sql_connecter\<close>. The MySQL client library is a parameter: a record of the functions
  the class calls, over the state \<open>'m\<close> of the library and the server. What the clients of the class rely on is
  the hypothesis \<open>serves_table\<close>: the documented behaviour of the statements they send on the table \<open>tianqi\<close>.

  A result is missing (\<open>None\<close>) where the code follows a NULL pointer: a handle that was not allocated, a result
  set that does not exist, a NULL column.
\<close>

section \<open>The client library\<close>

text \<open>A result set: the names of its columns and its rows; a column may be NULL.\<close>

record result_set =
  rs_fields :: "string list"
  rs_rows :: "string option list list"

record 'm mysql_api =
  api_init :: "'m \<Rightarrow> bool \<times> 'm"
  api_real_connect :: "string \<Rightarrow> string \<Rightarrow> string \<Rightarrow> string \<Rightarrow> nat \<Rightarrow> 'm \<Rightarrow> bool \<times> 'm"
  api_query :: "string \<Rightarrow> 'm \<Rightarrow> int \<times> 'm"
  api_store_result :: "'m \<Rightarrow> result_set option \<times> 'm"
  api_close :: "'m \<Rightarrow> 'm"

section \<open>The class\<close>

text \<open>\<open>mysql_base\<close> tells whether the handle is not NULL.\<close>

record sql_connecter =
  mysql_base :: bool
  res :: "result_set option"
  host :: string
  user :: string
  passwd :: string
  db :: string

definition new_sql_connecter ::
  "'m mysql_api \<Rightarrow> string \<Rightarrow> string \<Rightarrow> string \<Rightarrow> string \<Rightarrow> 'm \<Rightarrow> sql_connecter \<times> 'm" where
  "new_sql_connecter api h u p d m =
     (case api_init api m of (ok, m) \<Rightarrow>
        (\<lparr>mysql_base = ok, res = None, host = h, user = u, passwd = p, db = d\<rparr>, m))"

definition begin_connect :: "'m mysql_api \<Rightarrow> sql_connecter \<Rightarrow> 'm \<Rightarrow> (bool \<times> 'm) option" where
  "begin_connect api conn m =
     (if \<not> mysql_base conn then None
      else Some (api_real_connect api (host conn) (user conn) (passwd conn) (db conn) 3306 m))"

definition close_connect :: "'m mysql_api \<Rightarrow> sql_connecter \<Rightarrow> 'm \<Rightarrow> bool \<times> 'm" where
  "close_connect api conn m = (True, if mysql_base conn then api_close api m else m)"

text \<open>A statement: \<open>mysql_query\<close> on the C string of its text.\<close>

definition query :: "'m mysql_api \<Rightarrow> sql_connecter \<Rightarrow> string \<Rightarrow> 'm \<Rightarrow> (int \<times> 'm) option" where
  "query api conn sql m = (if mysql_base conn then Some (api_query api (c_str sql) m) else None)"

definition select_text :: "string \<Rightarrow> string" where
  "select_text cityname = ''SELECT info from tianqi where cityname='' @ [CHR 0x27] @ cityname @ [CHR 0x27]"

text \<open>The column name and the first row's data, if there is a row.\<close>

definition first_row :: "result_set \<Rightarrow> (string \<times> string option) option" where
  "first_row r = do {
     fd \<leftarrow> (case rs_fields r of [] \<Rightarrow> None | f # _ \<Rightarrow> Some f);
     (case rs_rows r of
        [] \<Rightarrow> Some (fd, None)
      | row # _ \<Rightarrow> (case row of Some v # _ \<Rightarrow> Some (fd, Some (c_str v)) | _ \<Rightarrow> None))
   }"

definition select_sql ::
  "'m mysql_api \<Rightarrow> string \<Rightarrow> sql_connecter \<Rightarrow> 'm \<Rightarrow> ((string \<times> string option) \<times> sql_connecter \<times> 'm) option" where
  "select_sql api cityname conn m = do {
     (_, m) \<leftarrow> query api conn (select_text cityname) m;
     (case api_store_result api m of
        (None, _) \<Rightarrow> None
      | (Some r, m) \<Rightarrow> do { x \<leftarrow> first_row r; Some (x, conn\<lparr>res := Some r\<rparr>, m) })
   }"

definition insert_text :: "string \<Rightarrow> string" where
  "insert_text data = ''insert tianqi (cityname,info) values '' @ ''('' @ data @ '');''"

definition insert_sql :: "'m mysql_api \<Rightarrow> string \<Rightarrow> sql_connecter \<Rightarrow> 'm \<Rightarrow> (bool \<times> 'm) option" where
  "insert_sql api data conn m = map_option (\<lambda>(r, m). (r = 0, m)) (query api conn (insert_text data) m)"

definition create_text :: string where
  "create_text = ''create table tianqi (id int primary key auto_increment,cityname varchar(30) NOT NULL,info varchar(2000) NOT NULL)charset utf8''"

definition creat_table :: "'m mysql_api \<Rightarrow> sql_connecter \<Rightarrow> 'm \<Rightarrow> (bool \<times> 'm) option" where
  "creat_table api conn m = map_option (\<lambda>(r, m). (r = 0, m)) (query api conn create_text m)"

definition drop_text :: string where
  "drop_text = ''drop table tianqi''"

definition delete_table :: "'m mysql_api \<Rightarrow> sql_connecter \<Rightarrow> 'm \<Rightarrow> (bool \<times> 'm) option" where
  "delete_table api conn m = map_option (\<lambda>(r, m). (r = 0, m)) (query api conn drop_text m)"

text \<open>The destructor closes the connection; the memory of the last result set is not part of the state.\<close>

definition destroy_sql_connecter :: "'m mysql_api \<Rightarrow> sql_connecter \<Rightarrow> 'm \<Rightarrow> 'm" where
  "destroy_sql_connecter api conn m = snd (close_connect api conn m)"

section \<open>What the clients rely on\<close>

text \<open>A name without quotes, backslashes and NUL characters stands for itself in a statement.\<close>

definition plain :: "string \<Rightarrow> bool" where
  "plain s \<longleftrightarrow> CHR 0x27 \<notin> set s \<and> CHR 0x5C \<notin> set s \<and> NUL \<notin> set s"

text \<open>While the table \<open>tianqi\<close> holds \<open>rows\<close>, the selection of a plain name delivers one column with the information of exactly
  the rows whose name equals it (by the collation \<open>same\<close>), in some order, and changes nothing.\<close>

definition serves_table ::
  "'m mysql_api \<Rightarrow> (string \<Rightarrow> string \<Rightarrow> bool) \<Rightarrow> (string \<times> string) list \<Rightarrow> ('m \<Rightarrow> bool) \<Rightarrow> bool" where
  "serves_table api same rows up \<longleftrightarrow>
     (\<forall>m c. up m \<longrightarrow> plain c \<longrightarrow>
        (\<exists>m1 m2 infos. api_query api (select_text c) m = (0, m1) \<and>
           api_store_result api m1 = (Some \<lparr>rs_fields = [''info''], rs_rows = map (\<lambda>i. [Some i]) infos\<rparr>, m2) \<and>
           set infos = {i. \<exists>n. (n, i) \<in> set rows \<and> same n c} \<and> up m2))"

definition infos_of :: "(string \<Rightarrow> string \<Rightarrow> bool) \<Rightarrow> (string \<times> string) list \<Rightarrow> string \<Rightarrow> string set" where
  "infos_of same rows c = {i. \<exists>n. (n, i) \<in> set rows \<and> same n c}"

lemma plain_c_str: "plain c \<Longrightarrow> c_str (select_text c) = select_text c"
  by (rule c_str_id) (simp add: plain_def select_text_def is_cstring_def)

text \<open>A selection finds a row exactly when there is one, and then delivers the information of such a row.\<close>

lemma select_sql_finds:
  assumes "serves_table api same rows up" "up m" "plain c" "mysql_base conn" "\<forall>i \<in> infos_of same rows c. is_cstring i"
  shows "\<exists>r conn' m'. select_sql api c conn m = Some ((''info'', r), conn', m') \<and> mysql_base conn' \<and> up m' \<and>
    (case r of None \<Rightarrow> infos_of same rows c = {} | Some i \<Rightarrow> i \<in> infos_of same rows c)"
proof -
  from assms(1-3) obtain m1 m2 infos where l: "api_query api (select_text c) m = (0, m1)"
    "api_store_result api m1 = (Some \<lparr>rs_fields = [''info''], rs_rows = map (\<lambda>i. [Some i]) infos\<rparr>, m2)"
    "set infos = infos_of same rows c" "up m2"
    unfolding serves_table_def infos_of_def by blast
  have "select_sql api c conn m = Some ((''info'', case infos of [] \<Rightarrow> None | i # _ \<Rightarrow> Some (c_str i)),
      conn\<lparr>res := Some \<lparr>rs_fields = [''info''], rs_rows = map (\<lambda>i. [Some i]) infos\<rparr>\<rparr>, m2)"
    using l(1,2) assms(3,4) by (cases infos) (simp_all add: select_sql_def query_def plain_c_str first_row_def)
  moreover have "case (case infos of [] \<Rightarrow> None | i # _ \<Rightarrow> Some (c_str i)) of
      None \<Rightarrow> infos_of same rows c = {} | Some i \<Rightarrow> i \<in> infos_of same rows c"
    using assms(5) unfolding l(3) [symmetric] by (cases infos) (simp_all add: c_str_id)
  ultimately show ?thesis using assms(4) l(4) by simp
qed

end
