(* ===== verification/Weather.thy ===== *)
theory Weather
  imports C_Buffer Sys_Calls Sql_Connect
begin

text \<open>
  \<open>weather.cpp\<close>: the program that fetches the pages of a weather service and fills the table \<open>tianqi\<close>. What it shares with its
  older version \<open>weather_1.cpp\<close> (the theory \<open>Weather_1\<close>) is defined with the differences as parameters. The resolver
  (\<open>gethostbyname\<close>) is a parameter, the kernel is the model of \<open>Sys_Calls\<close>. Console output is not modelled. A result is missing
  where the code leaves an array or follows a NULL pointer; the handler of \<open>SIGSEGV\<close> then ends the process at best.
\<close>

unbundle bit_operations_syntax

section \<open>Fetching a page\<close>

text \<open>The buffer is doubled when less than 100 bytes are left; the result of \<open>realloc\<close> is used unchecked.\<close>

definition grow :: "int \<Rightarrow> nat \<Rightarrow> os \<Rightarrow> (int \<times> os) option" where
  "grow SZ bytesread w =
     (if SZ - int bytesread < 100
      then if 2 ^ 31 \<le> SZ * 2 then None
           else (case sys_call w of (r, w) \<Rightarrow> if r < 0 then None else Some (SZ * 2, w))
      else Some (SZ, w))"

lemma grow_inq: "grow SZ n w = Some (SZ', w') \<Longrightarrow> inq w' = inq w"
  by (auto simp: grow_def sys_call_def Let_def split: if_splits prod.splits)

lemma recv_shorter: "sys_recv fd n w = (ret, d, w') \<Longrightarrow> 0 < ret \<Longrightarrow> length (inq w' fd) < length (inq w fd)"
  by (erule sys_read_cases) auto

text \<open>The receive loop: the bytes so far, at the end also the size of the buffer.\<close>

function recv_page :: "int \<Rightarrow> int \<Rightarrow> string \<Rightarrow> os \<Rightarrow> (int \<times> string \<times> os) option" where
  "recv_page sock SZ page w =
     (if SZ < int (length page) then None
      else case sys_recv sock (nat (SZ - int (length page))) w of (ret, d, w) \<Rightarrow>
        (case grow SZ (length (page @ d)) w of
           None \<Rightarrow> None
         | Some (SZ, w) \<Rightarrow> if ret > 0 then recv_page sock SZ (page @ d) w else Some (SZ, page @ d, w)))"
  by pat_completeness auto

termination
  by (relation "measure (\<lambda>(sock, SZ, page, w). length (inq w sock))") (auto dest!: grow_inq recv_shorter [OF sym])

declare recv_page.simps [simp del]

definition request_text :: "string \<Rightarrow> string \<Rightarrow> string" where
  "request_text resource h =
     ''GET '' @ resource @ '' HTTP/1.1'' @ [CR, LF] @ ''Host:'' @ h @ [CR, LF] @ ''Connection:close'' @ [CR, LF] @ [CR, LF]"

text \<open>The result of the call, the page (\<open>None\<close> while \<open>pageBuf\<close> is NULL) and the kernel.\<close>

definition http_get ::
  "string \<Rightarrow> int \<Rightarrow> (string \<Rightarrow> int option) \<Rightarrow> string \<Rightarrow> string option \<Rightarrow> os \<Rightarrow> ((bool \<times> string option) \<times> os) option" where
  "http_get h SZ gethostbyname resource pageBuf w =
     (case gethostbyname h of
        None \<Rightarrow> Some ((False, pageBuf), w)
      | Some a \<Rightarrow>
          (case sys_socket w of (sock, w) \<Rightarrow>
             if sock < 0 then Some ((False, pageBuf), w)
             else (case sys_connect w of (ret, w) \<Rightarrow>
               if ret < 0 then Some ((False, pageBuf), sys_close sock w)
               else (case sys_send sock (request_text resource h) w of (r, w) \<Rightarrow>
                 if r < 0 then Some ((False, pageBuf), sys_close sock w)
                 else (case sys_malloc w of (ok, w) \<Rightarrow>
                   if \<not> ok then None
                   else (case recv_page sock SZ [] w of
                       None \<Rightarrow> None
                     | Some (SZ, page, w) \<Rightarrow>
                         if int (length page) < SZ then Some ((True, Some page), sys_close sock w) else None))))))"

definition GetHttpResponse ::
  "(string \<Rightarrow> int option) \<Rightarrow> string \<Rightarrow> string option \<Rightarrow> os \<Rightarrow> ((bool \<times> string option) \<times> os) option" where
  "GetHttpResponse = http_get ''tianqi.114la.com'' 4096"

section \<open>Names of cities\<close>

definition hex_digit :: "nat \<Rightarrow> char" where
  "hex_digit n = (if n < 10 then digit_char n else char_of (87 + n))"

fun hex_str :: "nat \<Rightarrow> string" where
  "hex_str n = (if n < 16 then [hex_digit n] else hex_str (n div 16) @ [hex_digit (n mod 16)])"

declare hex_str.simps [simp del]

text \<open>\<open>sprintf (buf[i], "%x", p[i])\<close>: a byte above 127 is negative and prints as 8 digits.\<close>

definition hex_byte :: "char \<Rightarrow> string" where
  "hex_byte c = hex_str (nat (take_bit 32 (schar c)))"

definition kept_digits :: "string \<Rightarrow> string" where
  "kept_digits b = (if 8 \<le> length b then filter (\<lambda>c. c \<noteq> CHR ''f'' \<and> c \<noteq> NUL) (take 9 b) else [])"

definition upper :: "char \<Rightarrow> char" where
  "upper c = (if schar c > 57 then char_of ((of_char c :: nat) AND 0xDF) else c)"

text \<open>The digits overwrite the start of \<open>out\<close>; no NUL is written behind them. Then the string in \<open>out\<close> is put into
  upper case.\<close>

definition put_digits :: "string \<Rightarrow> char list \<Rightarrow> char list option" where
  "put_digits ds out =
     (let out1 = ds @ drop (length ds) out
      in if length out < length ds \<or> NUL \<notin> set out1 then None
         else Some (map upper (c_str out1) @ drop (length (c_str out1)) out1))"

definition UncodeTostr :: "string \<Rightarrow> char list \<Rightarrow> char list option" where
  "UncodeTostr inp out =
     (if 20 < length inp then None else put_digits (concat (map (\<lambda>c. kept_digits (hex_byte c)) inp)) out)"

section \<open>The list of cities\<close>

text \<open>\<open>std::map\<close>: sorted by key; an insertion does not replace an entry.\<close>

fun map_insert :: "string \<Rightarrow> string \<Rightarrow> (string \<times> string) list \<Rightarrow> (string \<times> string) list" where
  "map_insert k v [] = [(k, v)]"
| "map_insert k v (e # m) =
     (if k = fst e then e # m else if strcmp k (fst e) < 0 then (k, v) # e # m else e # map_insert k v m)"

text \<open>The body of the loop; a tag that is not found leaves a NULL pointer that is moved and read.\<close>

fun resource_loop ::
  "(string \<Rightarrow> char list \<Rightarrow> char list option) \<Rightarrow> nat \<Rightarrow> string \<Rightarrow> char list \<Rightarrow> (string \<times> string) list \<Rightarrow>
   (string \<times> string) list option" where
  "resource_loop uncode 0 pos cityname m = Some m"
| "resource_loop uncode (Suc n) pos cityname m = do {
     pos \<leftarrow> strstr pos ''href=\"'';
     let pos = drop 6 pos;
     url \<leftarrow> scan_until (CHR 0x22) pos (replicate 200 NUL);
     pos \<leftarrow> strstr pos ''self\">'';
     let pos = drop 6 pos;
     city_name \<leftarrow> scan_until (CHR ''<'') pos (replicate 50 NUL);
     cityname \<leftarrow> uncode (c_str city_name) cityname;
     resource_loop uncode n pos cityname (map_insert (c_str cityname) (c_str url) m)
   }"

definition CITY_COUNT :: nat where "CITY_COUNT = 2564"

definition city_list ::
  "(string \<Rightarrow> char list \<Rightarrow> char list option) \<Rightarrow> string option \<Rightarrow> (string \<times> string) list \<Rightarrow> (string \<times> string) list option" where
  "city_list uncode resp city_name_url =
     (case resp of
        None \<Rightarrow> None
      | Some r \<Rightarrow>
          (case strstr (c_str r) ''inlandCity'' of
             None \<Rightarrow> Some city_name_url
           | Some pos \<Rightarrow> resource_loop uncode CITY_COUNT pos (replicate 50 NUL) city_name_url))"

definition find_resource :: "string option \<Rightarrow> (string \<times> string) list \<Rightarrow> (string \<times> string) list option" where
  "find_resource = city_list UncodeTostr"

section \<open>A redirection\<close>

text \<open>\<open>prase\<close> copies the target of a redirection into \<open>str\<close>; only an empty string gets there, and a write behind the end of a
  string is undefined, as is a read behind its NUL. \<open>main\<close> does not call it.\<close>

fun copy_location :: "string \<Rightarrow> nat \<Rightarrow> string \<Rightarrow> string option" where
  "copy_location [] i str = None"
| "copy_location (c # pos) i str =
     (if c = CR then Some str else if i < length str then copy_location pos (Suc i) (str[i := c]) else None)"

definition prase :: "string \<Rightarrow> string option \<Rightarrow> (bool \<times> string) option" where
  "prase str resp =
     (case resp of
        None \<Rightarrow> Some (True, str)
      | Some r \<Rightarrow>
          if length str \<noteq> 0 then Some (True, str)
          else (case strstr (c_str r) ''301'' of
              None \<Rightarrow> Some (True, str)
            | Some _ \<Rightarrow> do {
                pos \<leftarrow> strstr (c_str r) ''Location:'';
                str \<leftarrow> (if length pos < 33 then None else copy_location (drop 33 pos) 0 str);
                Some (False, str)
              }))"

section \<open>A weather page\<close>

record data =
  date :: "string list"
  name :: string
  weather :: "string list"
  low_degree :: "string list"
  high_degree :: "string list"

text \<open>The lines that \<open>SaveToSql\<close> prints; an index behind the end of the vector is undefined.\<close>

definition SaveToSql :: "data \<Rightarrow> string list option" where
  "SaveToSql d =
     (if length (date d) < 14 then None else Some (map (\<lambda>i. date d ! i @ '' '' @ name d @ [LF]) [0..<14]))"

definition cut_30 :: "char list \<Rightarrow> char list option" where
  "cut_30 buf = (if 30 < length buf then Some (buf[30 := NUL]) else None)"

definition deleSpace :: "char list \<Rightarrow> char list option" where
  "deleSpace buf = Option.bind (squeeze (\<lambda>c. uchar c \<notin> {9, 32, 20, 10, 13}) buf) cut_30"

definition deleSpaceforweather :: "char list \<Rightarrow> char list option" where
  "deleSpaceforweather buf = Option.bind (squeeze (\<lambda>c. uchar c \<notin> {48, 49, 50}) buf) cut_30"

definition Parseforcityname :: "char list \<Rightarrow> char list option" where
  "Parseforcityname buf =
     (let n = length (takeWhile (\<lambda>c. c \<noteq> CHR ''7'' \<and> c \<noteq> NUL) buf)
      in if length buf \<le> n then None else if buf ! n = CHR ''7'' then Some (buf[n := NUL]) else Some buf)"

text \<open>A step that may find its tag missing (\<open>Some None\<close>): the function returns early.\<close>

definition and_found :: "'a option option \<Rightarrow> ('a \<Rightarrow> 'b option option) \<Rightarrow> 'b option option" where
  "and_found x f = (case x of None \<Rightarrow> None | Some None \<Rightarrow> Some None | Some (Some y) \<Rightarrow> f y)"

definition seek :: "string \<Rightarrow> string \<Rightarrow> string option option" where
  "seek tag pos = Some (strstr pos tag)"

definition field :: "string \<Rightarrow> (char list \<Rightarrow> char list option) \<Rightarrow> string \<Rightarrow> (string \<times> string) option option" where
  "field tag clean pos = and_found (seek tag pos) (\<lambda>pos.
     do {
       let pos = drop (length tag) pos;
       buf \<leftarrow> scan_until (CHR ''<'') pos (replicate 100 NUL);
       buf \<leftarrow> clean buf;
       Some (Some (c_str buf, pos))
     })"

fun days ::
  "(char list \<Rightarrow> char list option) \<Rightarrow> (char list \<Rightarrow> char list option) \<Rightarrow> nat \<Rightarrow> string \<Rightarrow> data \<Rightarrow> data option option" where
  "days clean clean_weath 0 pos d = Some (Some d)"
| "days clean clean_weath (Suc n) pos d =
     and_found (field ''date\">'' clean pos) (\<lambda>(dt, pos).
     and_found (field ''weather1\">'' clean_weath pos) (\<lambda>(we, pos).
     and_found (field ''blue\">'' clean pos) (\<lambda>(lo, pos).
     and_found (field ''orange\">'' clean pos) (\<lambda>(hi, pos).
     days clean clean_weath n pos (d\<lparr>date := date d @ [dt], weather := weather d @ [we], low_degree := low_degree d @ [lo],
                   high_degree := high_degree d @ [hi]\<rparr>)))))"

definition city_page ::
  "(char list \<Rightarrow> char list option) \<Rightarrow> (char list \<Rightarrow> char list option) \<Rightarrow> (char list \<Rightarrow> char list option) \<Rightarrow> string \<Rightarrow>
   data option option" where
  "city_page clean_name clean clean_weath resp =
     and_found (seek ''currCity'' resp) (\<lambda>pos.
     and_found (seek ''_self\"'' pos) (\<lambda>pos.
     and_found (seek ''<span>'' pos) (\<lambda>pos.
       do {
         let pos = drop 6 pos;
         city_name \<leftarrow> scan_until (CHR ''['') pos (replicate 100 NUL);
         city_name \<leftarrow> clean_name city_name;
         days clean clean_weath 7 pos \<lparr>date = [], name = c_str city_name, weather = [], low_degree = [], high_degree = []\<rparr>
       })))"

definition add_city :: "(string \<Rightarrow> data option option) \<Rightarrow> string option \<Rightarrow> data list \<Rightarrow> data list option" where
  "add_city page resp weather_data =
     (case resp of
        None \<Rightarrow> None
      | Some r \<Rightarrow> map_option (\<lambda>d. case d of None \<Rightarrow> weather_data | Some d \<Rightarrow> weather_data @ [d]) (page (c_str r)))"

definition clean_weather :: "char list \<Rightarrow> char list option" where
  "clean_weather weath = Option.bind (deleSpace weath) deleSpaceforweather"

definition Get_weather_info :: "string option \<Rightarrow> data list \<Rightarrow> data list option" where
  "Get_weather_info = add_city (city_page Parseforcityname deleSpace clean_weather)"

section \<open>The program\<close>

text \<open>The pages of the cities. At the start \<open>resp\<close> is still the page with the list: when the first city cannot be fetched,
  that page is searched for its data. Later \<open>resp\<close> is NULL.\<close>

fun fetch_all ::
  "(string \<Rightarrow> int option) \<Rightarrow> string option \<Rightarrow> (string \<times> string) list \<Rightarrow> data list \<Rightarrow> os \<Rightarrow> (data list \<times> os) option" where
  "fetch_all gethostbyname resp [] weather_data w = Some (weather_data, w)"
| "fetch_all gethostbyname resp (e # es) weather_data w = do {
     ((_, resp), w) \<leftarrow> GetHttpResponse gethostbyname (snd e) resp w;
     weather_data \<leftarrow> Get_weather_info resp weather_data;
     fetch_all gethostbyname None es weather_data w
   }"

definition quote :: string where "quote = [CHR 0x27]"

text \<open>The text of a row; a vector that is too short is read behind its end.\<close>

definition day_text :: "data \<Rightarrow> nat \<Rightarrow> string" where
  "day_text d i = date d ! i @ '' '' @ name d @ '' '' @ weather d ! i @ '' '' @ low_degree d ! i @ ''~'' @ high_degree d ! i @ ''#''"

definition city_row :: "string \<Rightarrow> data \<Rightarrow> string option" where
  "city_row city d =
     (if length (date d) < 7 \<or> length (weather d) < 7 \<or> length (low_degree d) < 7 \<or> length (high_degree d) < 7 then None
      else Some (quote @ city @ quote @ '','' @ quote @ name d @ ''#'' @ concat (map (day_text d) [0..<7]) @ quote))"

fun insert_rows :: "'m mysql_api \<Rightarrow> sql_connecter \<Rightarrow> string list \<Rightarrow> nat \<Rightarrow> data list \<Rightarrow> 'm \<Rightarrow> 'm option" where
  "insert_rows api conn [] j weather_data m = Some m"
| "insert_rows api conn (c # cs) j weather_data m =
     (if length weather_data \<le> j then None
      else do {
        row \<leftarrow> city_row c (weather_data ! j);
        (_, m) \<leftarrow> insert_sql api row conn m;
        insert_rows api conn cs (Suc j) weather_data m
      })"

text \<open>\<open>main\<close>; the vector \<open>city_name\<close> is declared and never filled.\<close>

definition weather_main :: "(string \<Rightarrow> int option) \<Rightarrow> 'm mysql_api \<Rightarrow> os \<Rightarrow> 'm \<Rightarrow> (int \<times> data list \<times> os \<times> 'm) option" where
  "weather_main gethostbyname api w m = do {
     ((_, resp), w) \<leftarrow> GetHttpResponse gethostbyname ''/?/Index/quanguo'' None w;
     city_name_url \<leftarrow> find_resource resp [];
     let city_name = [];
     (weather_data, w) \<leftarrow> fetch_all gethostbyname resp (take 151 city_name_url) [] w;
     let (conn, m) = new_sql_connecter api ''127.0.0.1'' ''root'' ''WKyun123456'' ''test'' m;
     (_, m) \<leftarrow> begin_connect api conn m;
     (_, m) \<leftarrow> delete_table api conn m;
     (_, m) \<leftarrow> creat_table api conn m;
     m \<leftarrow> insert_rows api conn city_name 0 weather_data m;
     Some (0, weather_data, w, destroy_sql_connecter api conn m)
   }"

definition wea_cmp :: "data \<Rightarrow> data \<Rightarrow> bool option" where
  "wea_cmp n1 n2 =
     (case (high_degree n1, high_degree n2) of
        (h1 # _, h2 # _) \<Rightarrow> Some (atoi (c_str h1) > atoi (c_str h2))
      | _ \<Rightarrow> None)"

end
