(* ===== verification/Mem_Cache.thy ===== *)
theory Mem_Cache
  imports C_Prelude
begin

text \<open>
  \<open>memcache.h\<close>: the class \<open>memcache\<close>. The client library libmemcached is a parameter: a record of the functions the class
  calls, over the state \<open>'c\<close> of the library and the cache server. What the clients rely on is the hypothesis \<open>caches\<close>.
\<close>

section \<open>The client library\<close>

text \<open>\<open>api_create\<close> stands for the creation of a handle with one server. \<open>api_get\<close> answers whether the return code is a
  success, the string it returns (\<open>None\<close> for NULL), and the length and flags it stores.\<close>

record 'c memcached_api =
  api_create :: "string \<Rightarrow> nat \<Rightarrow> 'c \<Rightarrow> 'c"
  api_set :: "string \<Rightarrow> string \<Rightarrow> int \<Rightarrow> int \<Rightarrow> 'c \<Rightarrow> bool \<times> 'c"
  api_get :: "string \<Rightarrow> 'c \<Rightarrow> (bool \<times> string option \<times> nat \<times> int) \<times> 'c"
  api_delete :: "string \<Rightarrow> int \<Rightarrow> 'c \<Rightarrow> bool \<times> 'c"
  api_free :: "'c \<Rightarrow> 'c"

section \<open>The class\<close>

text \<open>The members that are not initialised have arbitrary values.\<close>

record memcache =
  rc :: bool
  value_length :: nat
  key_length :: nat
  expiry :: int
  mflags :: int

definition new_memcache :: "'c memcached_api \<Rightarrow> memcache \<Rightarrow> 'c \<Rightarrow> memcache \<times> 'c" where
  "new_memcache api junk c = (junk\<lparr>expiry := 3600 * 24\<rparr>, api_create api ''localhost'' 11211 c)"

definition MemcacheSet :: "'c memcached_api \<Rightarrow> string \<Rightarrow> string \<Rightarrow> memcache \<Rightarrow> 'c \<Rightarrow> bool \<times> memcache \<times> 'c" where
  "MemcacheSet api key val mem c =
     (let mem = mem\<lparr>value_length := length val, key_length := length key\<rparr>
      in case api_set api key val (expiry mem) (mflags mem) c of (ok, c) \<Rightarrow> (ok, mem\<lparr>rc := ok\<rparr>, c))"

text \<open>\<open>MemcacheGet\<close> assigns the returned C string to the result; a success without a string is an invalid assignment.\<close>

definition MemcacheGet :: "'c memcached_api \<Rightarrow> string \<Rightarrow> memcache \<Rightarrow> 'c \<Rightarrow> (string option \<times> memcache \<times> 'c) option" where
  "MemcacheGet api key mem c =
     (case api_get api key c of ((ok, ret, len, fl), c) \<Rightarrow>
        let mem = mem\<lparr>rc := ok, value_length := len, mflags := fl\<rparr>
        in if ok then (case ret of None \<Rightarrow> None | Some v \<Rightarrow> Some (Some (c_str v), mem, c))
           else Some (None, mem, c))"

definition MemcacheDel :: "'c memcached_api \<Rightarrow> string \<Rightarrow> memcache \<Rightarrow> 'c \<Rightarrow> bool \<times> memcache \<times> 'c" where
  "MemcacheDel api key mem c =
     (case api_delete api key (expiry mem) c of (ok, c) \<Rightarrow> (ok, mem\<lparr>rc := ok\<rparr>, c))"

definition destroy_memcache :: "'c memcached_api \<Rightarrow> memcache \<Rightarrow> 'c \<Rightarrow> 'c" where
  "destroy_memcache api mem c = api_free api c"

section \<open>What the clients rely on\<close>

text \<open>A cache may forget entries at any time and holds nothing that was not stored: \<open>held c\<close> are the entries in state
  \<open>c\<close>. A successful look-up of a non-empty value delivers the value. A call that stores may fail and leave the old entry.\<close>

definition caches :: "'c memcached_api \<Rightarrow> ('c \<Rightarrow> string \<rightharpoonup> string) \<Rightarrow> bool" where
  "caches api held \<longleftrightarrow>
     (\<forall>h p c. held (api_create api h p c) \<subseteq>\<^sub>m held c) \<and>
     (\<forall>k c ok ret len fl c'. api_get api k c = ((ok, ret, len, fl), c') \<longrightarrow> held c' \<subseteq>\<^sub>m held c \<and>
        (ok \<longrightarrow> (\<exists>v. held c k = Some v \<and> (v \<noteq> [] \<longrightarrow> ret = Some v)))) \<and>
     (\<forall>k v e fl c ok c'. api_set api k v e fl c = (ok, c') \<longrightarrow>
        held c' \<subseteq>\<^sub>m (held c)(k \<mapsto> v) \<or> \<not> ok \<and> held c' \<subseteq>\<^sub>m held c) \<and>
     (\<forall>c. held (api_free api c) \<subseteq>\<^sub>m held c)"

text \<open>What a successful look-up finds was there before, and is there after the last call that stored it.\<close>

lemma map_le_Some: "m \<subseteq>\<^sub>m m' \<Longrightarrow> m k = Some v \<Longrightarrow> m' k = Some v"
  by (auto simp: map_le_def dom_def)

lemma caches_get:
  assumes "caches api held" "api_get api k c = ((True, ret, len, fl), c')" "held c \<subseteq>\<^sub>m h" "\<And>v. h k = Some v \<Longrightarrow> v \<noteq> []"
  shows "ret \<noteq> None \<and> h k = ret"
proof -
  from assms(1,2) obtain v where v: "held c k = Some v" "v \<noteq> [] \<longrightarrow> ret = Some v" unfolding caches_def by blast
  from map_le_Some [OF assms(3) v(1)] assms(4) v(2) show ?thesis by simp
qed

lemma caches_set:
  assumes "caches api held" "api_set api k v e fl c = (ok, c')"
  shows "held c' \<subseteq>\<^sub>m (held c)(k \<mapsto> v) \<or> held c' \<subseteq>\<^sub>m held c"
  using assms unfolding caches_def by blast

text \<open>Every entry of the cache satisfies a relation between keys and values.\<close>

definition coherent :: "(string \<Rightarrow> string \<Rightarrow> bool) \<Rightarrow> (string \<rightharpoonup> string) \<Rightarrow> bool" where
  "coherent R h \<longleftrightarrow> (\<forall>k v. h k = Some v \<longrightarrow> R k v)"

lemma coherent_less: "coherent R h \<Longrightarrow> h' \<subseteq>\<^sub>m h \<Longrightarrow> coherent R h'"
  by (fastforce simp: coherent_def map_le_def dom_def)

lemma coherent_add: "coherent R h \<Longrightarrow> R k v \<Longrightarrow> coherent R (h(k \<mapsto> v))"
  by (simp add: coherent_def)

lemma MemcacheGet_coherent:
  assumes "caches api held" "coherent R (held c)" "\<And>k v. R k v \<Longrightarrow> v \<noteq> [] \<and> is_cstring v"
  shows "\<exists>r mem' c'. MemcacheGet api k mem c = Some (r, mem', c') \<and> coherent R (held c') \<and> (\<forall>v. r = Some v \<longrightarrow> R k v)"
proof -
  obtain ok ret len fl c' where g: "api_get api k c = ((ok, ret, len, fl), c')" by (metis prod.collapse)
  with assms(1) have l: "held c' \<subseteq>\<^sub>m held c" "ok \<Longrightarrow> \<exists>v. held c k = Some v \<and> (v \<noteq> [] \<longrightarrow> ret = Some v)"
    by (auto simp: caches_def)
  show ?thesis
  proof (cases ok)
    case True
    with l(2) obtain v where v: "held c k = Some v" "v \<noteq> [] \<longrightarrow> ret = Some v" by blast
    with assms(2) have R: "R k v" by (simp add: coherent_def)
    with assms(3) v(2) have "ret = Some v" "c_str v = v" by (auto simp: c_str_id)
    with True g R coherent_less [OF assms(2) l(1)] show ?thesis by (simp add: MemcacheGet_def)
  next
    case False
    with g coherent_less [OF assms(2) l(1)] show ?thesis by (simp add: MemcacheGet_def)
  qed
qed

lemma MemcacheSet_coherent:
  assumes "caches api held" "coherent R (held c)" "R k v" "MemcacheSet api k v mem c = (ok, mem', c')"
  shows "coherent R (held c')"
proof -
  have "api_set api k v (expiry mem) (mflags mem) c = (ok, c')"
    using assms(4) by (auto simp: MemcacheSet_def Let_def split: prod.splits)
  from caches_set [OF assms(1) this] show ?thesis using coherent_less coherent_add assms(2,3) by blast
qed

end
