(* ===== verification/Find_Cgi.thy ===== *)
theory Find_Cgi
  imports C_Buffer Sys_Calls Sql_Connect Mem_Cache
begin

text \<open>
  \<open>find_cgi.cpp\<close>: the CGI program that answers a request for the weather of a city. It takes the name from the query string
  or the posted data, looks it up in the cache and then in the database, first as it is and then with a \<open>+\<close> appended, prints
  what it found and stores a database result in the cache.

  The environment variables are a parameter; the posted data is read from descriptor 0 of the kernel model. A result is
  missing where the program leaves an array or follows a NULL pointer.
\<close>

section \<open>Helpers\<close>

text \<open>The data after the first \<open>=\<close> is copied to \<open>str\<close>; without one the source of the copy is NULL.\<close>

definition find :: "string \<Rightarrow> char list \<Rightarrow> char list option" where
  "find data_string str =
     (case strchr data_string (CHR ''='') of None \<Rightarrow> None | Some start \<Rightarrow> strcpy_to (tl start) str)"

definition show_char :: "char \<Rightarrow> string" where
  "show_char ch = (if ch = CHR ''#'' then ''</br>'' @ [LF] else [ch])"

definition show_data :: "string \<Rightarrow> string" where
  "show_data sql_data = concat (map show_char sql_data)"

definition ParseStr :: "char list \<Rightarrow> char list option" where
  "ParseStr str = squeeze (\<lambda>c. c \<noteq> CHR ''%'') str"

section \<open>The request\<close>

definition STR_SIZE :: nat where "STR_SIZE = 33"

text \<open>The loop that reads the posted data byte by byte; its results are ignored, so that a byte that could not be read
  stays NUL.\<close>

fun read_post :: "nat \<Rightarrow> nat \<Rightarrow> char list \<Rightarrow> os \<Rightarrow> (char list \<times> os) option" where
  "read_post 0 i post_data w = (if i < length post_data then Some (post_data[i := NUL], w) else None)"
| "read_post (Suc n) i post_data w =
     (if i < length post_data
      then (case sys_read 0 1 w of (r, d, w) \<Rightarrow>
              read_post n (Suc i) (if d = [] then post_data else post_data[i := hd d]) w)
      else None)"

text \<open>The name of the city in \<open>str\<close>; \<open>Inl\<close> is the exit status of the program.\<close>

definition request_city :: "(string \<Rightarrow> string option) \<Rightarrow> os \<Rightarrow> ((int + char list) \<times> os) option" where
  "request_city getenv w = do {
     m \<leftarrow> getenv ''REQUEST_METHOD'';
     meth \<leftarrow> strcpy_to m (replicate 1024 NUL);
     if strcasecmp ''GET'' (c_str meth) = 0
     then do {
       q \<leftarrow> getenv ''QUERY_STRING'';
       query_string \<leftarrow> strcpy_to q (replicate 1024 NUL);
       str \<leftarrow> find (c_str query_string) (replicate STR_SIZE NUL);
       Some (Inr str, w)
     }
     else if strcasecmp ''POST'' (c_str meth) = 0
     then do {
       l \<leftarrow> getenv ''CONTENT_LENGTH'';
       (post_data, w) \<leftarrow> read_post (nat (atoi l)) 0 (replicate 4096 NUL) w;
       str \<leftarrow> find (c_str post_data) (replicate STR_SIZE NUL);
       Some (Inr str, w)
     }
     else Some (Inl 1, w)
   }"

section \<open>The look-up\<close>

record ('m, 'c) stores =
  conn :: sql_connecter
  mysql_st :: 'm
  mem :: memcache
  mem_st :: 'c

definition cache_get :: "'c memcached_api \<Rightarrow> string \<Rightarrow> ('m, 'c) stores \<Rightarrow> (string option \<times> ('m, 'c) stores) option" where
  "cache_get mapi key s =
     map_option (\<lambda>(r, mem', c). (r, s\<lparr>mem := mem', mem_st := c\<rparr>)) (MemcacheGet mapi key (mem s) (mem_st s))"

definition db_get :: "'m mysql_api \<Rightarrow> string \<Rightarrow> ('m, 'c) stores \<Rightarrow> (string option \<times> ('m, 'c) stores) option" where
  "db_get api key s =
     map_option (\<lambda>((_, r), conn', m). (r, s\<lparr>conn := conn', mysql_st := m\<rparr>)) (select_sql api key (conn s) (mysql_st s))"

definition cache_set :: "'c memcached_api \<Rightarrow> string \<Rightarrow> string \<Rightarrow> ('m, 'c) stores \<Rightarrow> ('m, 'c) stores" where
  "cache_set mapi key val s =
     (case MemcacheSet mapi key val (mem s) (mem_st s) of (_, mem', c) \<Rightarrow> s\<lparr>mem := mem', mem_st := c\<rparr>)"

text \<open>The four look-ups, over the operations of the stores; the result is the output.\<close>

definition look_up_with ::
  "(string \<Rightarrow> 's \<Rightarrow> (string option \<times> 's) option) \<Rightarrow> (string \<Rightarrow> 's \<Rightarrow> (string option \<times> 's) option) \<Rightarrow> (string \<Rightarrow> string \<Rightarrow> 's \<Rightarrow> 's) \<Rightarrow>
   string \<Rightarrow> 's \<Rightarrow> (string \<times> 's) option" where
  "look_up_with mem_get select mem_set city_name s = do {
     (r, s) \<leftarrow> mem_get city_name s;
     (case r of Some sql_data \<Rightarrow> Some (show_data sql_data, s)
      | None \<Rightarrow> do {
          let tmp = city_name @ ''+'';
          (r, s) \<leftarrow> mem_get tmp s;
          (case r of Some sql_data \<Rightarrow> Some (show_data sql_data, s)
           | None \<Rightarrow> do {
               (r, s) \<leftarrow> select city_name s;
               (case r of Some sql_data \<Rightarrow> Some (show_data sql_data, mem_set city_name sql_data s)
                | None \<Rightarrow> do {
                    (r, s) \<leftarrow> select tmp s;
                    (case r of Some sql_data \<Rightarrow> Some (show_data sql_data, mem_set tmp sql_data s)
                     | None \<Rightarrow> Some (''<p>not find</p>'', s))
                  })
             })
        })
   }"

definition look_up ::
  "'m mysql_api \<Rightarrow> 'c memcached_api \<Rightarrow> string \<Rightarrow> ('m, 'c) stores \<Rightarrow> (string \<times> ('m, 'c) stores) option" where
  "look_up api mapi = look_up_with (cache_get mapi) (db_get api) (cache_set mapi)"

section \<open>The program\<close>

text \<open>The title of the page is written in Chinese, in UTF-8; it is a parameter.\<close>

definition page_head :: "string \<Rightarrow> string" where
  "page_head title =
     ''<html>'' @ [LF] @ ''<meta http-equiv=\"Content-Type\" content=\"text/html;charset=utf-8\"/>'' @ [LF] @
     ''<head> City_Weather </head>'' @ [LF] @ ''<title> '' @ title @ ''</title> '' @ [LF] @ ''</br>'' @ [LF] @ ''<body>'' @ [LF]"

definition page_tail :: string where
  "page_tail = ''</body>'' @ [LF, LF] @ ''</html>'' @ [LF, LF]"

text \<open>Exit status, output, and the states of the kernel, the database and the cache at the end.\<close>

definition cgi_main ::
  "'m mysql_api \<Rightarrow> 'c memcached_api \<Rightarrow> memcache \<Rightarrow> (string \<Rightarrow> string option) \<Rightarrow> string \<Rightarrow> os \<Rightarrow> 'm \<Rightarrow> 'c \<Rightarrow>
   (int \<times> string \<times> os \<times> 'm \<times> 'c) option" where
  "cgi_main api mapi junk getenv title w m c = do {
     (r, w) \<leftarrow> request_city getenv w;
     (case r of
        Inl status \<Rightarrow> Some (status, page_head title, w, m, c)
      | Inr str \<Rightarrow> do {
          let (conn1, m) = new_sql_connecter api ''127.0.0.1'' ''root'' ''WKyun123456'' ''test'' m;
          (_, m) \<leftarrow> begin_connect api conn1 m;
          str \<leftarrow> ParseStr str;
          let (mem1, c) = new_memcache mapi junk c;
          (out, s) \<leftarrow> look_up api mapi (c_str str) \<lparr>conn = conn1, mysql_st = m, mem = mem1, mem_st = c\<rparr>;
          Some (0, page_head title @ out @ page_tail, w, destroy_sql_connecter api (conn s) (mysql_st s),
                destroy_memcache mapi (mem s) (mem_st s))
        })
   }"

end
