(* ===== verification/Find_Cgi_Spec.thy ===== *)
theory Find_Cgi_Spec
  imports Find_Cgi
begin

text \<open>
  The properties of the CGI program: the cache and the database together, and the size of the name.
\<close>

section \<open>The interface of the stores\<close>

text \<open>What the look-up relies on: in a good state both stores answer and stay good; what they find is an entry; the database
  misses only what is not there; an entry may be stored in the cache.\<close>

locale city_stores =
  fixes mem_get select :: "string \<Rightarrow> 's \<Rightarrow> (string option \<times> 's) option"
    and mem_set :: "string \<Rightarrow> string \<Rightarrow> 's \<Rightarrow> 's"
    and ok :: "'s \<Rightarrow> bool" and entry :: "string \<Rightarrow> string \<Rightarrow> bool" and valid :: "string \<Rightarrow> bool"
  assumes mem_get_law: "ok s \<Longrightarrow> \<exists>r s'. mem_get k s = Some (r, s') \<and> ok s' \<and> (\<forall>v. r = Some v \<longrightarrow> entry k v)"
    and select_law: "ok s \<Longrightarrow> valid k \<Longrightarrow> \<exists>r s'. select k s = Some (r, s') \<and> ok s' \<and>
      (case r of None \<Rightarrow> \<forall>v. \<not> entry k v | Some v \<Rightarrow> entry k v)"
    and mem_set_law: "ok s \<Longrightarrow> entry k v \<Longrightarrow> ok (mem_set k v s)"
    and valid_plus: "valid k \<Longrightarrow> valid (k @ ''+'')"
begin

definition answers :: "string \<Rightarrow> string \<Rightarrow> bool" where
  "answers city out \<longleftrightarrow> (\<exists>i. (entry city i \<or> entry (city @ ''+'') i) \<and> out = show_data i) \<or>
     (\<forall>i. \<not> entry city i \<and> \<not> entry (city @ ''+'') i) \<and> out = ''<p>not find</p>''"

lemma look_up_answers:
  assumes "ok s" "valid city"
  shows "\<exists>out s'. look_up_with mem_get select mem_set city s = Some (out, s') \<and> ok s' \<and> answers city out"
proof -
  let ?tmp = "city @ ''+''"
  from mem_get_law [OF assms(1), of city] obtain r1 s1 where
    1: "mem_get city s = Some (r1, s1)" "ok s1" "\<forall>v. r1 = Some v \<longrightarrow> entry city v" by blast
  from mem_get_law [OF 1(2), of ?tmp] obtain r2 s2 where
    2: "mem_get ?tmp s1 = Some (r2, s2)" "ok s2" "\<forall>v. r2 = Some v \<longrightarrow> entry ?tmp v" by blast
  from select_law [OF 2(2) assms(2)] obtain r3 s3 where
    3: "select city s2 = Some (r3, s3)" "ok s3" "case r3 of None \<Rightarrow> \<forall>v. \<not> entry city v | Some v \<Rightarrow> entry city v" by blast
  from select_law [OF 3(2) valid_plus [OF assms(2)]] obtain r4 s4 where
    4: "select ?tmp s3 = Some (r4, s4)" "ok s4" "case r4 of None \<Rightarrow> \<forall>v. \<not> entry ?tmp v | Some v \<Rightarrow> entry ?tmp v" by blast
  have set: "r3 = Some v \<Longrightarrow> ok (mem_set city v s3)" "r4 = Some v \<Longrightarrow> ok (mem_set ?tmp v s4)" for v
    using mem_set_law [OF 3(2)] mem_set_law [OF 4(2)] 3(3) 4(3) by simp_all
  show ?thesis
    using 1 2 3 4 set by (cases r1; cases r2; cases r3; cases r4) (auto simp: look_up_with_def answers_def)
qed

end

section \<open>The look-ups\<close>

text \<open>What a table delivers: every entry has a text.\<close>

definition texts_ok :: "(string \<times> string) list \<Rightarrow> bool" where
  "texts_ok rows \<longleftrightarrow> (\<forall>(n, i) \<in> set rows. i \<noteq> [] \<and> is_cstring i)"

abbreviation in_table :: "(string \<Rightarrow> string \<Rightarrow> bool) \<Rightarrow> (string \<times> string) list \<Rightarrow> string \<Rightarrow> string \<Rightarrow> bool" where
  "in_table same rows k v \<equiv> v \<in> infos_of same rows k"

lemma in_table_text: "texts_ok rows \<Longrightarrow> in_table same rows k v \<Longrightarrow> v \<noteq> [] \<and> is_cstring v"
  by (auto simp: texts_ok_def infos_of_def)

text \<open>The database is up, and the cache holds only what the table says.\<close>

definition stores_ok ::
  "('m \<Rightarrow> bool) \<Rightarrow> ('c \<Rightarrow> string \<rightharpoonup> string) \<Rightarrow> (string \<Rightarrow> string \<Rightarrow> bool) \<Rightarrow> (string \<times> string) list \<Rightarrow> ('m, 'c) stores \<Rightarrow> bool" where
  "stores_ok up held same rows s \<longleftrightarrow>
     up (mysql_st s) \<and> mysql_base (conn s) \<and> coherent (in_table same rows) (held (mem_st s))"

lemma cache_get_ok:
  assumes "caches mapi held" "texts_ok rows" "stores_ok up held same rows s"
  shows "\<exists>r s'. cache_get mapi k s = Some (r, s') \<and> stores_ok up held same rows s' \<and> (\<forall>v. r = Some v \<longrightarrow> in_table same rows k v)"
proof -
  have "coherent (in_table same rows) (held (mem_st s))" using assms(3) by (simp add: stores_ok_def)
  moreover have "\<And>k v. in_table same rows k v \<Longrightarrow> v \<noteq> [] \<and> is_cstring v" by (rule in_table_text [OF assms(2)])
  ultimately have "\<exists>r mem' c'. MemcacheGet mapi k (mem s) (mem_st s) = Some (r, mem', c') \<and>
      coherent (in_table same rows) (held c') \<and> (\<forall>v. r = Some v \<longrightarrow> in_table same rows k v)"
    by (rule MemcacheGet_coherent [where R = "in_table same rows", OF assms(1)])
  then obtain r mem' c' where
    "MemcacheGet mapi k (mem s) (mem_st s) = Some (r, mem', c')" "coherent (in_table same rows) (held c')"
    "\<forall>v. r = Some v \<longrightarrow> in_table same rows k v" by blast
  with assms(3) show ?thesis by (simp add: cache_get_def stores_ok_def)
qed

lemma db_get_ok:
  assumes "serves_table api same rows up" "texts_ok rows" "stores_ok up held same rows s" "plain k"
  shows "\<exists>r s'. db_get api k s = Some (r, s') \<and> stores_ok up held same rows s' \<and>
    (case r of None \<Rightarrow> infos_of same rows k = {} | Some v \<Rightarrow> in_table same rows k v)"
proof -
  have s: "up (mysql_st s)" "mysql_base (conn s)" using assms(3) by (simp_all add: stores_ok_def)
  have "\<forall>i \<in> infos_of same rows k. is_cstring i" using in_table_text [OF assms(2)] by blast
  from select_sql_finds [OF assms(1) s(1) assms(4) s(2) this] obtain r conn' m' where
    "select_sql api k (conn s) (mysql_st s) = Some ((''info'', r), conn', m')" "mysql_base conn'" "up m'"
    "case r of None \<Rightarrow> infos_of same rows k = {} | Some i \<Rightarrow> in_table same rows k i" by blast
  with assms(3) show ?thesis by (simp add: db_get_def stores_ok_def)
qed

lemma cache_set_ok:
  assumes "caches mapi held" "stores_ok up held same rows s" "in_table same rows k v"
  shows "stores_ok up held same rows (cache_set mapi k v s)"
proof -
  obtain ok mem' c' where m: "MemcacheSet mapi k v (mem s) (mem_st s) = (ok, mem', c')" by (metis prod_cases3)
  have "coherent (in_table same rows) (held c')"
    by (rule MemcacheSet_coherent [where R = "in_table same rows", OF assms(1) _ assms(3) m]) (use assms(2) in \<open>simp add: stores_ok_def\<close>)
  with m assms(2) show ?thesis by (simp add: cache_set_def stores_ok_def)
qed

text \<open>The output of a look-up, as the table has it.\<close>

definition right_answer :: "(string \<Rightarrow> string \<Rightarrow> bool) \<Rightarrow> (string \<times> string) list \<Rightarrow> string \<Rightarrow> string \<Rightarrow> bool" where
  "right_answer same rows city out \<longleftrightarrow>
     (\<exists>i. (in_table same rows city i \<or> in_table same rows (city @ ''+'') i) \<and> out = show_data i) \<or>
     infos_of same rows city = {} \<and> infos_of same rows (city @ ''+'') = {} \<and> out = ''<p>not find</p>''"

interpretation cs: city_stores "cache_get mapi" "db_get api" "cache_set mapi"
  "\<lambda>s. serves_table api same rows up \<and> caches mapi held \<and> texts_ok rows \<and> stores_ok up held same rows s" "in_table same rows" plain
  for mapi api same rows up held
proof (unfold_locales, goal_cases)
  case (1 s k)
  with cache_get_ok [of mapi held rows up same s k] show ?case by blast
next
  case (2 s k)
  with db_get_ok [of api same rows up held s k] obtain r s' where
    "db_get api k s = Some (r, s')" "stores_ok up held same rows s'"
    "case r of None \<Rightarrow> infos_of same rows k = {} | Some v \<Rightarrow> in_table same rows k v" by blast
  with 2(1) show ?case by (cases r) auto
next
  case (3 s k v)
  then show ?case by (blast intro: cache_set_ok)
qed (simp add: plain_def)

lemma look_up_ok:
  assumes "serves_table api same rows up" "caches mapi held" "texts_ok rows" "stores_ok up held same rows s" "plain city"
  shows "\<exists>out s'. look_up api mapi city s = Some (out, s') \<and> stores_ok up held same rows s' \<and> right_answer same rows city out"
  using cs.look_up_answers [of api same rows up mapi held s city] assms
  unfolding look_up_def cs.answers_def right_answer_def by blast

section \<open>The name\<close>

lemma find_value:
  assumes "CHR ''='' \<notin> set name"
  shows "find (name @ CHR ''='' # v) str = strcpy_to v str"
  using assms by (induction name) (auto simp: find_def)

lemma strcpy_to_c_str: "is_cstring src \<Longrightarrow> strcpy_to src dst = Some b \<Longrightarrow> c_str b = src \<and> NUL \<in> set b"
  by (auto simp: strcpy_to_def split: if_splits)

text \<open>A GET request with one parameter.\<close>

definition gets :: "(string \<Rightarrow> string option) \<Rightarrow> string \<Rightarrow> string \<Rightarrow> bool" where
  "gets getenv name v \<longleftrightarrow>
     getenv ''REQUEST_METHOD'' = Some ''GET'' \<and> getenv ''QUERY_STRING'' = Some (name @ CHR ''='' # v) \<and>
     CHR ''='' \<notin> set name \<and> is_cstring name \<and> is_cstring v \<and> length (name @ CHR ''='' # v) < 1024"

lemma request_city_get:
  assumes "gets getenv name v"
  shows "request_city getenv w = map_option (\<lambda>str. (Inr str, w)) (strcpy_to v (replicate STR_SIZE NUL))"
proof -
  let ?q = "name @ CHR ''='' # v"
  have g: "getenv ''REQUEST_METHOD'' = Some ''GET''" "getenv ''QUERY_STRING'' = Some ?q" "is_cstring ?q" "length ?q < 1024"
    "CHR ''='' \<notin> set name" using assms by (simp_all add: gets_def)
  obtain b where b: "strcpy_to ?q (replicate 1024 NUL) = Some b" using g(4) by (simp add: strcpy_to_def)
  have c: "c_str b = ?q" using strcpy_to_c_str [OF g(3) b] by simp
  have m: "\<exists>meth. strcpy_to ''GET'' (replicate 1024 NUL) = Some meth \<and> c_str meth = ''GET''"
    by (simp add: strcpy_to_def)
  have e: "strcasecmp ''GET'' ''GET'' = 0" by (simp add: strcasecmp_def)
  from m obtain meth where "strcpy_to ''GET'' (replicate 1024 NUL) = Some meth" "c_str meth = ''GET''" by blast
  with g(1,2) b c e find_value [OF g(5)] show ?thesis
    by (cases "strcpy_to v (replicate STR_SIZE NUL)") (simp_all add: request_city_def)
qed

section \<open>Properties\<close>

lemma cgi_answer_ok:
  assumes "serves_table api same rows up" "caches mapi held" "texts_ok rows"
    "gets getenv name v" "length v < STR_SIZE" "plain (filter (\<lambda>c. c \<noteq> CHR ''%'') v)"
    "api_init api m = (True, m1)" "api_real_connect api ''127.0.0.1'' ''root'' ''WKyun123456'' ''test'' 3306 m1 = (ok, m2)" "up m2"
    "coherent (in_table same rows) (held c)"
  shows "\<exists>out m' c'. cgi_main api mapi junk getenv title w m c = Some (0, page_head title @ out @ page_tail, w, m', c') \<and>
    right_answer same rows (filter (\<lambda>c. c \<noteq> CHR ''%'') v) out \<and> coherent (in_table same rows) (held c')"
proof -
  let ?city = "filter (\<lambda>c. c \<noteq> CHR ''%'') v"
  have v: "is_cstring v" using assms(4) by (simp add: gets_def)
  obtain str where str: "strcpy_to v (replicate STR_SIZE NUL) = Some str" using assms(5) by (simp add: strcpy_to_def)
  have c: "c_str str = v" "NUL \<in> set str" using strcpy_to_c_str [OF v str] by simp_all
  obtain str' where str': "ParseStr str = Some str'" "c_str str' = ?city"
    using squeeze_c_str [of "\<lambda>c. c \<noteq> CHR ''%''" str] c by (auto simp: ParseStr_def)
  let ?conn = "\<lparr>mysql_base = True, res = None, host = ''127.0.0.1'', user = ''root'', passwd = ''WKyun123456'', db = ''test''\<rparr>"
  let ?c1 = "api_create mapi ''localhost'' 11211 c"
  let ?s = "\<lparr>conn = ?conn, mysql_st = m2, mem = junk\<lparr>expiry := 3600 * 24\<rparr>, mem_st = ?c1\<rparr>"
  have "held ?c1 \<subseteq>\<^sub>m held c" using assms(2) by (simp add: caches_def)
  then have "stores_ok up held same rows ?s"
    using assms(9,10) coherent_less by (auto simp: stores_ok_def)
  from look_up_ok [OF assms(1-3) this assms(6)] obtain out s' where
    l: "look_up api mapi ?city ?s = Some (out, s')" "stores_ok up held same rows s'" "right_answer same rows ?city out" by blast
  have "held (destroy_memcache mapi (mem s') (mem_st s')) \<subseteq>\<^sub>m held (mem_st s')"
    using assms(2) by (simp add: caches_def destroy_memcache_def)
  then have "coherent (in_table same rows) (held (destroy_memcache mapi (mem s') (mem_st s')))"
    using l(2) coherent_less by (auto simp: stores_ok_def)
  moreover have "cgi_main api mapi junk getenv title w m c =
      Some (0, page_head title @ out @ page_tail, w, destroy_sql_connecter api (conn s') (mysql_st s'),
        destroy_memcache mapi (mem s') (mem_st s'))"
    using request_city_get [OF assms(4), of w] str str' assms(7,8) l(1)
    by (simp add: cgi_main_def new_sql_connecter_def begin_connect_def new_memcache_def)
  ultimately show ?thesis using l(3) by auto
qed

text \<open>C6: A GET request whose value has at most 32 bytes is answered correctly, whatever the cache has forgotten: with an entry of
  the table for the name (without its percent signs) or for the name with a plus sign, each \<open>#\<close> turned into a line break, or with
  \<open>not find\<close> exactly when the table has neither. The cache holds only entries of the table afterwards, as it did before.\<close>
theorem cgi_answers_from_table:
  assumes "serves_table api same rows up" "caches mapi held" "texts_ok rows"
    "gets getenv name v" "length v < STR_SIZE" "plain (filter (\<lambda>c. c \<noteq> CHR ''%'') v)"
    "api_init api m = (True, m1)" "api_real_connect api ''127.0.0.1'' ''root'' ''WKyun123456'' ''test'' 3306 m1 = (ok, m2)" "up m2"
    "coherent (in_table same rows) (held c)"
  shows "\<exists>out m' c'. cgi_main api mapi junk getenv title w m c = Some (0, page_head title @ out @ page_tail, w, m', c') \<and>
    right_answer same rows (filter (\<lambda>c. c \<noteq> CHR ''%'') v) out \<and> coherent (in_table same rows) (held c')"
  using assms by (rule cgi_answer_ok)

text \<open>A value of more than 32 bytes (a name of four Chinese characters, percent-encoded, has 36) is copied behind the end of
  the 33 bytes of \<open>str\<close>, before anything is looked up.\<close>
theorem cgi_long_name_overflows:
  assumes "gets getenv name v" "STR_SIZE \<le> length v"
  shows "cgi_main api mapi junk getenv title w m c = None"
  using request_city_get [OF assms(1), of w] assms(2) by (simp add: cgi_main_def strcpy_to_def)

section \<open>Concrete stores\<close>

text \<open>A server that holds a fixed table and remembers the result of the last statement, and a cache that forgets nothing.\<close>

definition some_rows :: "(string \<times> string) list" where
  "some_rows = [(''E8A5'', ''sunny#warm''), (''B9+'', ''rain'')]"

definition some_mysql :: "string list mysql_api" where
  "some_mysql = \<lparr>api_init = (\<lambda>m. (True, m)), api_real_connect = (\<lambda>h u p d n m. (True, m)),
     api_query = (\<lambda>q m. (0, map snd (filter (\<lambda>(n, i). select_text n = q) some_rows))),
     api_store_result = (\<lambda>m. (Some \<lparr>rs_fields = [''info''], rs_rows = map (\<lambda>i. [Some i]) m\<rparr>, m)), api_close = id\<rparr>"

definition some_memcached :: "(string \<Rightarrow> string option) memcached_api" where
  "some_memcached = \<lparr>api_create = (\<lambda>h p c. c), api_set = (\<lambda>k v e f c. (True, c(k \<mapsto> v))),
     api_get = (\<lambda>k c. ((c k \<noteq> None, c k, 0, 0), c)), api_delete = (\<lambda>k e c. (c k \<noteq> None, c(k := None))), api_free = id\<rparr>"

definition some_env :: "string \<Rightarrow> string \<Rightarrow> string option" where
  "some_env v = [''REQUEST_METHOD'' \<mapsto> ''GET'', ''QUERY_STRING'' \<mapsto> ''cityname'' @ CHR ''='' # v]"

lemma select_text_inj: "select_text n = select_text c \<longleftrightarrow> n = c"
  by (simp add: select_text_def)

lemma some_mysql_serves: "serves_table some_mysql (=) some_rows (\<lambda>m. True)"
proof -
  have "set (map snd (filter (\<lambda>(n, i). n = c) some_rows)) = {i. (c, i) \<in> set some_rows}" for c by force
  then have "\<exists>infos. map ((\<lambda>i. [Some i]) \<circ> snd) (filter (\<lambda>(n, i). n = c) some_rows) = map (\<lambda>i. [Some i]) infos \<and>
      set infos = {i. (c, i) \<in> set some_rows}" for c
    by (metis map_map)
  then show ?thesis by (simp add: serves_table_def some_mysql_def select_text_inj)
qed

lemma some_memcached_caches: "caches some_memcached id"
  by (auto simp: caches_def some_memcached_def)

lemma some_env_gets: "is_cstring v \<Longrightarrow> length v < 1000 \<Longrightarrow> gets (some_env v) ''cityname'' v"
  by (simp add: gets_def some_env_def)

lemma some_answer: "right_answer (=) some_rows ''E8A5'' out \<Longrightarrow> out = ''sunny</br>'' @ [LF] @ ''warm''"
proof -
  assume r: "right_answer (=) some_rows ''E8A5'' out"
  have "infos_of (=) some_rows ''E8A5'' = {''sunny#warm''}" "infos_of (=) some_rows (''E8A5'' @ ''+'') = {}"
    by (auto simp: infos_of_def some_rows_def)
  with r have "out = show_data ''sunny#warm''" by (auto simp: right_answer_def)
  then show ?thesis by (simp add: show_data_def show_char_def)
qed

theorem cgi_answers_from_table_witness:
  "\<exists>m' c'. cgi_main some_mysql some_memcached undefined (some_env ''%E8%A5'') ''w'' (os_with 1 []) [] Map.empty =
     Some (0, page_head ''w'' @ ''sunny</br>'' @ [LF] @ ''warm'' @ page_tail, os_with 1 [], m', c')"
proof -
  have t: "texts_ok some_rows" by (simp add: texts_ok_def some_rows_def)
  have f: "filter (\<lambda>c. c \<noteq> CHR ''%'') ''%E8%A5'' = ''E8A5''" by simp
  have p: "plain (filter (\<lambda>c. c \<noteq> CHR ''%'') ''%E8%A5'')" by (simp add: plain_def)
  have i: "api_init some_mysql [] = (True, [])"
    "api_real_connect some_mysql ''127.0.0.1'' ''root'' ''WKyun123456'' ''test'' 3306 [] = (True, [])"
    by (simp_all add: some_mysql_def)
  have c: "coherent (in_table (=) some_rows) (id Map.empty)" by (simp add: coherent_def)
  have g: "gets (some_env ''%E8%A5'') ''cityname'' ''%E8%A5''" by (rule some_env_gets) simp_all
  have l: "length ''%E8%A5'' < STR_SIZE" by (simp add: STR_SIZE_def)
  from cgi_answers_from_table [where up = "\<lambda>m. True" and held = id and same = "(=)" and c = Map.empty,
      OF some_mysql_serves some_memcached_caches t g l p i TrueI c, of undefined "''w''" "os_with 1 []"]
  obtain out m' c' where o: "cgi_main some_mysql some_memcached undefined (some_env ''%E8%A5'') ''w'' (os_with 1 []) [] Map.empty =
      Some (0, page_head ''w'' @ out @ page_tail, os_with 1 [], m', c')" "right_answer (=) some_rows ''E8A5'' out"
    unfolding f by blast
  have "out = ''sunny</br>'' @ [LF] @ ''warm''" by (rule some_answer [OF o(2)])
  with o(1) show ?thesis by simp
qed

theorem cgi_long_name_overflows_witness:
  "cgi_main some_mysql some_memcached undefined (some_env ''%E4%B9%8C%E9%B2%81%E6%9C%A8%E9%BD%90'') ''w'' (os_with 1 []) [] Map.empty = None"
  by (rule cgi_long_name_overflows [OF some_env_gets]) (simp_all add: STR_SIZE_def)

end
