(* ===== verification/Weather_Spec.thy ===== *)
theory Weather_Spec
  imports Weather Find_Cgi_Spec
begin

text \<open>
  The properties of the crawler: the page it receives, the keys it makes of the names of cities and how they relate to the
  keys that the CGI program looks up, and what it writes into the database.
\<close>

section \<open>Receiving a page\<close>

text \<open>The kernel goes on, without failures, and has not touched the descriptors.\<close>

definition goes_on :: "os \<Rightarrow> os \<Rightarrow> bool" where
  "goes_on w w' \<longleftrightarrow> quiet w' \<and> closed w' = closed w \<and> outq w' = outq w"

lemma goes_on_trans: "goes_on w w1 \<Longrightarrow> goes_on w1 w2 \<Longrightarrow> goes_on w w2"
  by (simp add: goes_on_def)

lemma grow_quiet:
  assumes "quiet w" "int n \<le> SZ" "1024 \<le> SZ" "SZ * 2 < 2 ^ 31"
  shows "\<exists>SZ' w'. grow SZ n w = Some (SZ', w') \<and> goes_on w w' \<and> inq w' = inq w \<and> int n + 100 \<le> SZ' \<and> 1024 \<le> SZ' \<and>
    (SZ' = SZ \<or> SZ' \<le> 2 * int n + 200)"
  using assms quiet_call [OF assms(1)] by (auto simp: grow_def goes_on_def)

lemma recv_quiet:
  assumes "sys_recv sock n w = (ret, d, w')" "quiet w" "0 < n"
  shows "goes_on w w'" "ret = int (length d)" "inq w sock = d @ inq w' sock" "length d \<le> n" "d = [] \<longleftrightarrow> inq w sock = []"
proof -
  note fr = sys_read_frame [OF assms(1)]
  show "goes_on w w'" using quiet_later [OF assms(2), of w'] fr by (simp add: goes_on_def)
  show "inq w sock = d @ inq w' sock" "length d \<le> n" by (rule fr)+
  show "ret = int (length d)" "d = [] \<longleftrightarrow> inq w sock = []"
    by (cases rule: sys_read_cases [OF assms(1)]; use assms(2,3) in \<open>auto simp: quiet_def\<close>)+
qed

text \<open>Room is always left for at least one more byte, and every byte is taken over.\<close>

lemma recv_page_all:
  assumes "quiet w" "1024 \<le> SZ" "int (length page) + 100 \<le> SZ" "SZ \<le> 4096 \<or> SZ \<le> 2 * int (length page) + 200"
    "int (length page + length (inq w sock)) < 2 ^ 28"
  shows "\<exists>SZ' w'. recv_page sock SZ page w = Some (SZ', page @ inq w sock, w') \<and> int (length (page @ inq w sock)) < SZ' \<and> goes_on w w'"
  using assms
proof (induction sock SZ page w rule: recv_page.induct)
  case (1 sock SZ page w)
  obtain ret d w1 where r: "sys_recv sock (nat (SZ - int (length page))) w = (ret, d, w1)" by (metis prod_cases3)
  have pos: "0 < nat (SZ - int (length page))" "\<not> SZ < int (length page)" using "1.prems"(3) by simp_all
  note rq = recv_quiet [OF r "1.prems"(1) pos(1)]
  have len: "int (length (page @ d)) \<le> SZ" using rq(4) pos by simp
  have sz: "SZ * 2 < 2 ^ 31" using "1.prems"(4,5) by auto
  have q1: "quiet w1" using rq(1) by (simp add: goes_on_def)
  from grow_quiet [OF q1 len "1.prems"(2) sz] obtain SZ' w2 where g: "grow SZ (length (page @ d)) w1 = Some (SZ', w2)"
    "goes_on w1 w2" "inq w2 = inq w1" "int (length (page @ d)) + 100 \<le> SZ'" "1024 \<le> SZ'"
    "SZ' = SZ \<or> SZ' \<le> 2 * int (length (page @ d)) + 200" by blast
  have eq: "recv_page sock SZ page w = (if ret > 0 then recv_page sock SZ' (page @ d) w2 else Some (SZ', page @ d, w2))"
    using r g(1) pos(2) by (subst recv_page.simps) simp
  show ?case
  proof (cases "ret > 0")
    case True
    have q2: "quiet w2" using g(2) by (simp add: goes_on_def)
    have bound: "SZ' \<le> 4096 \<or> SZ' \<le> 2 * int (length (page @ d)) + 200" using g(6) "1.prems"(4) by auto
    have total: "int (length (page @ d) + length (inq w2 sock)) < 2 ^ 28" using "1.prems"(5) rq(3) g(3) by simp
    from "1.IH" [OF pos(2) r [symmetric] refl g(1) refl True q2 g(5,4) bound total] obtain SZ'' w3 where
      ih: "recv_page sock SZ' (page @ d) w2 = Some (SZ'', (page @ d) @ inq w2 sock, w3)"
      "int (length ((page @ d) @ inq w2 sock)) < SZ''" "goes_on w2 w3" by blast
    have all: "(page @ d) @ inq w2 sock = page @ inq w sock" using rq(3) g(3) by simp
    have "goes_on w w3" by (rule goes_on_trans [OF rq(1) goes_on_trans [OF g(2) ih(3)]])
    with ih(1,2) eq True show ?thesis unfolding all by auto
  next
    case False
    then have "d = []" "inq w sock = []" using rq(2,5) by auto
    with False eq g(2,4) goes_on_trans [OF rq(1)] show ?thesis by auto
  qed
qed

lemma http_get_page:
  assumes "quiet w" "gethostbyname h = Some a" "sock = sr_ret (ans w (tick w))" "int (length (inq w sock)) < 2 ^ 28"
    "1024 \<le> SZ" "SZ \<le> 4096"
  shows "\<exists>w' k. http_get h SZ gethostbyname resource p w = Some ((True, Some (inq w sock)), w') \<and>
    outq w' sock = outq w sock @ take k (request_text resource h) \<and> closed w' = sock # closed w"
proof -
  let ?req = "request_text resource h"
  note c1 = quiet_call [OF assms(1)]
  let ?w1 = "w\<lparr>tick := Suc (tick w)\<rparr>"
  note c2 = quiet_call [OF c1(3)]
  let ?w2 = "?w1\<lparr>tick := Suc (tick ?w1)\<rparr>"
  obtain r w3 where s: "sys_send sock ?req ?w2 = (r, w3)" by (cases "sys_send sock ?req ?w2")
  note sf = sys_write_frame [OF s]
  have "0 \<le> sr_ret (ans ?w2 (tick ?w2))" using c2(3) by (simp add: quiet_def)
  then have r: "0 \<le> r" using s by (auto simp: sys_write_def sys_call_ok Let_def)
  have q3: "quiet w3" using quiet_later [OF c2(3), of w3] sf(1,2) by simp
  note c4 = quiet_call [OF q3]
  let ?w4 = "w3\<lparr>tick := Suc (tick w3), live := live w3 + 1\<rparr>"
  have m: "sys_malloc w3 = (True, ?w4)" using c4(1,2) by (simp add: sys_malloc_def)
  have q4: "quiet ?w4" using quiet_later [OF q3, of ?w4] by simp
  have "inq ?w4 sock = inq w sock" using sf(3) by simp
  with recv_page_all [OF q4, of SZ "[]" sock] assms(4-6) obtain SZ' w5 where
    p: "recv_page sock SZ [] ?w4 = Some (SZ', inq w sock, w5)" "int (length (inq w sock)) < SZ'" "goes_on ?w4 w5" by auto
  have "http_get h SZ gethostbyname resource p w = Some ((True, Some (inq w sock)), sys_close sock w5)"
    using c1(1,2) c2(1,2) s r m p(1,2) assms(2,3) by (simp add: http_get_def)
  moreover have "outq w5 sock = outq w sock @ take (nat r) ?req" "closed w5 = closed w"
    using p(3) sf(5,9) r by (auto simp: goes_on_def)
  ultimately show ?thesis by (auto simp: sys_close_def)
qed

lemma get_page:
  assumes "quiet w" "gethostbyname ''tianqi.114la.com'' = Some a" "sock = sr_ret (ans w (tick w))" "int (length (inq w sock)) < 2 ^ 28"
  shows "\<exists>w' k. GetHttpResponse gethostbyname resource p w = Some ((True, Some (inq w sock)), w') \<and>
    outq w' sock = outq w sock @ take k (request_text resource ''tianqi.114la.com'') \<and> closed w' = sock # closed w"
  unfolding GetHttpResponse_def by (rule http_get_page [where gethostbyname = gethostbyname]) (use assms in simp_all)

text \<open>C15: When the kernel does not fail, \<open>GetHttpResponse\<close> delivers the complete response, every byte up to the end of the
  connection, in a buffer that always had room for it and for the final NUL; it sends its request before and closes the socket
  after, for every way the kernel cuts the stream into pieces.\<close>
theorem page_complete:
  assumes "quiet w" "gethostbyname ''tianqi.114la.com'' = Some a" "sock = sr_ret (ans w (tick w))" "int (length (inq w sock)) < 2 ^ 28"
  shows "\<exists>w' k. GetHttpResponse gethostbyname resource p w = Some ((True, Some (inq w sock)), w') \<and>
    outq w' sock = outq w sock @ take k (request_text resource ''tianqi.114la.com'') \<and> closed w' = sock # closed w"
  using assms by (rule get_page)

theorem page_complete_witness:
  "\<exists>w'. GetHttpResponse (\<lambda>h. Some 1) ''/'' None (os_with 5 ''HTTP/1.1 200 OK'') = Some ((True, Some ''HTTP/1.1 200 OK''), w') \<and>
     closed w' = [5]"
proof -
  let ?w = "os_with 5 ''HTTP/1.1 200 OK''"
  have "quiet ?w" "5 = sr_ret (ans ?w (tick ?w))" "inq ?w 5 = ''HTTP/1.1 200 OK''" "closed ?w = []"
    by (simp_all add: quiet_def os_with_def)
  with page_complete [of ?w "\<lambda>h. Some 1" 1 5 "''/''" None] show ?thesis by auto
qed

section \<open>The key of a city\<close>

text \<open>The upper-case hexadecimal digits of a byte, and the form in which a browser sends a name: every byte as \<open>%\<close> and two digits.\<close>

definition HEX :: "nat \<Rightarrow> char" where
  "HEX n = (if n < 10 then digit_char n else char_of (55 + n))"

definition digits :: "char \<Rightarrow> string" where
  "digits c = [HEX (of_char c div 16), HEX (of_char c mod 16)]"

definition percent_encode :: "string \<Rightarrow> string" where
  "percent_encode nm = concat (map (\<lambda>c. CHR ''%'' # digits c) nm)"

lemma below_16: "(n :: nat) < 16 \<Longrightarrow> n \<in> {0, 1, 2, 3, 4, 5, 6, 7, 8, 9, 10, 11, 12, 13, 14, 15}"
  by (simp only: insert_iff empty_iff) presburger

lemma hex_digit_facts:
  assumes "n < 16"
  shows "upper (hex_digit n) = HEX n" "HEX n \<noteq> CHR ''%''" "hex_digit n \<noteq> NUL" "hex_digit n = CHR ''f'' \<longleftrightarrow> HEX n = CHR ''F''"
    "HEX n \<noteq> NUL"
  using below_16 [OF assms]
  by (auto simp: hex_digit_def HEX_def upper_def digit_char_def schar_def char_of_eq_iff take_bit_eq_mod)

lemma hex_str_step: "0 < q \<Longrightarrow> r < 16 \<Longrightarrow> hex_str (16 * q + r) = hex_str q @ [hex_digit r]"
  by (subst hex_str.simps) simp

lemma hex_byte_high:
  assumes "128 \<le> uchar c"
  shows "hex_byte c = ''ffffff'' @ [hex_digit (of_char c div 16), hex_digit (of_char c mod 16)]"
proof -
  let ?n = "of_char c :: nat"
  have b: "?n < 256" "128 \<le> ?n" using nat_of_char_less_256 [of c] assms by (simp_all add: uchar_def)
  have "schar c = (int ?n - 128 + 256) mod 256 - 128"
    by (simp add: schar_def signed_take_bit_eq_take_bit_shift take_bit_eq_mod add.commute)
  also have "\<dots> = int ?n - 256" using b by (simp only: mod_add_self2 mod_pos_pos_trivial)
  finally have "take_bit 32 (schar c) = (int ?n - 256 + 4294967296) mod 4294967296"
    unfolding take_bit_eq_mod mod_add_self2 by simp
  also have "\<dots> = 4294967040 + int ?n" using b by simp
  finally have "take_bit 32 (schar c) = 4294967040 + int ?n" .
  then have n: "nat (take_bit 32 (schar c)) = 16 * (16 * 16777215 + ?n div 16) + ?n mod 16" by simp
  have "hex_str (16 * (16 * 16777215 + ?n div 16) + ?n mod 16) = hex_str (16 * 16777215 + ?n div 16) @ [hex_digit (?n mod 16)]"
    by (rule hex_str_step) simp_all
  also have "hex_str (16 * 16777215 + ?n div 16) = hex_str 16777215 @ [hex_digit (?n div 16)]"
    by (rule hex_str_step) (use b in \<open>simp_all add: less_mult_imp_div_less\<close>)
  also have "hex_str 16777215 = ''ffffff''" by (simp add: hex_str.simps hex_digit_def char_of_eq_iff)
  finally show ?thesis by (simp add: hex_byte_def n)
qed

lemma kept_high:
  assumes "128 \<le> uchar c"
  shows "map upper (kept_digits (hex_byte c)) = filter (\<lambda>d. d \<noteq> CHR ''F'') (digits c)"
    "NUL \<notin> set (kept_digits (hex_byte c))"
proof -
  let ?n = "of_char c :: nat"
  have b: "?n div 16 < 16" "?n mod 16 < 16" using nat_of_char_less_256 [of c] by (simp_all add: less_mult_imp_div_less)
  have k: "kept_digits (hex_byte c) = filter (\<lambda>c. c \<noteq> CHR ''f'' \<and> c \<noteq> NUL) [hex_digit (?n div 16), hex_digit (?n mod 16)]"
    by (simp add: kept_digits_def hex_byte_high [OF assms])
  show "map upper (kept_digits (hex_byte c)) = filter (\<lambda>d. d \<noteq> CHR ''F'') (digits c)"
    using hex_digit_facts [OF b(1)] hex_digit_facts [OF b(2)] by (simp add: k digits_def)
  show "NUL \<notin> set (kept_digits (hex_byte c))" unfolding k by auto
qed

abbreviation kept :: "string \<Rightarrow> string" where
  "kept nm \<equiv> concat (map (\<lambda>c. kept_digits (hex_byte c)) nm)"

lemma kept_name:
  assumes "\<forall>c \<in> set nm. 128 \<le> uchar c"
  shows "map upper (kept nm) = filter (\<lambda>d. d \<noteq> CHR ''F'') (concat (map digits nm))" "NUL \<notin> set (kept nm)"
    "length (kept nm) \<le> 2 * length nm"
proof -
  show m: "map upper (kept nm) = filter (\<lambda>d. d \<noteq> CHR ''F'') (concat (map digits nm))"
    using assms by (induction nm) (simp_all add: kept_high)
  show "NUL \<notin> set (kept nm)" using assms by (induction nm) (simp_all add: kept_high)
  have "length (concat (map digits nm)) = 2 * length nm" by (induction nm) (simp_all add: digits_def)
  moreover have "length (kept nm) = length (filter (\<lambda>d. d \<noteq> CHR ''F'') (concat (map digits nm)))"
    using m by (metis length_map)
  ultimately show "length (kept nm) \<le> 2 * length nm" by (metis length_filter_le)
qed

lemma percent_free: "filter (\<lambda>d. d \<noteq> CHR ''%'') (percent_encode nm) = concat (map digits nm)"
proof -
  have "filter (\<lambda>d. d \<noteq> CHR ''%'') (digits c) = digits c" for c
    using hex_digit_facts(2) [of "of_char c div 16"] hex_digit_facts(2) [of "of_char c mod 16"] nat_of_char_less_256 [of c]
    by (simp add: digits_def less_mult_imp_div_less)
  then show ?thesis by (induction nm) (simp_all add: percent_encode_def)
qed

lemma NUL_not_in_digits: "NUL \<notin> set (concat (map digits nm))"
proof -
  have "NUL \<notin> set (digits c)" for c
    using hex_digit_facts(5) [of "of_char c div 16"] hex_digit_facts(5) [of "of_char c mod 16"] nat_of_char_less_256 [of c]
    by (auto simp: digits_def less_mult_imp_div_less)
  then show ?thesis by auto
qed

lemma NUL_not_in_percent: "NUL \<notin> set (percent_encode nm)"
  using NUL_not_in_digits by (auto simp: percent_encode_def)



text \<open>The buffer for the key is not cleared between two cities and no NUL is written behind a key: a key that is shorter
  than the one before it keeps the tail of that key.\<close>
theorem stored_key_keeps_tail:
  assumes "\<forall>c \<in> set nm. 128 \<le> uchar c" "length nm \<le> 20" "NUL \<notin> set k" "\<forall>c \<in> set k. upper c = c"
    "length (filter (\<lambda>d. d \<noteq> CHR ''F'') (concat (map digits nm))) \<le> length k"
  shows "\<exists>out. UncodeTostr nm (k @ NUL # rest) = Some out \<and>
    c_str out = filter (\<lambda>d. d \<noteq> CHR ''F'') (concat (map digits nm)) @ drop (length (filter (\<lambda>d. d \<noteq> CHR ''F'') (concat (map digits nm)))) k"
proof -
  note kn = kept_name [OF assms(1)]
  let ?n = "length (kept nm)"
  have l: "?n = length (filter (\<lambda>d. d \<noteq> CHR ''F'') (concat (map digits nm)))" using kn(1) by (metis length_map)
  have d: "drop ?n (k @ NUL # rest) = drop ?n k @ NUL # rest" using assms(5) l by simp
  have nn: "NUL \<notin> set (kept nm @ drop ?n k)" using kn(2) assms(3) by (auto dest: in_set_dropD)
  have c: "c_str (kept nm @ drop ?n k @ NUL # rest) = kept nm @ drop ?n k" using c_str_stop [OF nn, of rest] by simp
  have "map upper (drop ?n k) = drop ?n k" using assms(4) by (auto intro: map_idI dest: in_set_dropD)
  then have m: "map upper (kept nm @ drop ?n k) = filter (\<lambda>d. d \<noteq> CHR ''F'') (concat (map digits nm)) @ drop ?n k" using kn(1) by simp
  have "UncodeTostr nm (k @ NUL # rest) = Some (map upper (kept nm @ drop ?n k) @ NUL # rest)"
    using assms(2,5) l c by (simp add: UncodeTostr_def put_digits_def Let_def d)
  moreover have "NUL \<notin> set (map upper (kept nm @ drop ?n k))"
    unfolding m using NUL_not_in_digits assms(3) by (auto dest: in_set_dropD)
  then have "c_str (map upper (kept nm @ drop ?n k) @ NUL # rest) = map upper (kept nm @ drop ?n k)" by (rule c_str_stop)
  then have "c_str (map upper (kept nm @ drop ?n k) @ NUL # rest) = filter (\<lambda>d. d \<noteq> CHR ''F'') (concat (map digits nm)) @ drop ?n k"
    by (rule trans [OF _ m])
  ultimately show ?thesis unfolding l [symmetric] by (intro exI conjI)
qed

theorem stored_key_keeps_tail_witness:
  "\<exists>out. UncodeTostr [CHR 0xE5, CHR 0xAE] (''E8A5B9E7'' @ NUL # replicate 41 NUL) = Some out \<and> c_str out = ''E5AEB9E7''"
proof -
  have d: "concat (map digits [CHR 0xE5, CHR 0xAE]) = ''E5AE''" by (simp add: digits_def HEX_def digit_char_def char_of_eq_iff)
  have h: "\<forall>c \<in> set [CHR 0xE5, CHR 0xAE]. 128 \<le> uchar c" by (simp add: uchar_def)
  have u: "\<forall>c \<in> set ''E8A5B9E7''. upper c = c" by (simp add: upper_def schar_def char_of_eq_iff)
  from stored_key_keeps_tail [OF h _ _ u, of "replicate 41 NUL"] show ?thesis unfolding d by simp
qed

section \<open>The data of a page\<close>

lemma c_str_update: "n < length b \<Longrightarrow> c_str (b[n := NUL]) = take n (c_str b)"
proof (induction b arbitrary: n)
  case (Cons c b)
  then show ?case by (cases n) auto
qed simp

abbreviation blank :: "char \<Rightarrow> bool" where
  "blank c \<equiv> uchar c \<in> {9, 32, 20, 10, 13}"

text \<open>What a field is after the blanks were removed.\<close>

definition clean_field :: "string \<Rightarrow> bool" where
  "clean_field v \<longleftrightarrow> length v \<le> 30 \<and> (\<forall>c \<in> set v. \<not> blank c)"

lemma squeeze_cut:
  assumes "Option.bind (squeeze keep buf) cut_30 = Some b" "keep NUL"
  shows "c_str b = take 30 (filter keep (c_str buf))"
proof -
  obtain b1 where b1: "squeeze keep buf = Some b1" "cut_30 b1 = Some b" using assms(1) by (auto simp: Option.bind_eq_Some_conv)
  have "NUL \<in> set buf" using b1(1) by (auto simp: squeeze_def squeeze_loop.simps [of keep 0 0 buf] split: if_splits)
  then have "c_str b1 = filter keep (c_str buf)" using squeeze_c_str [where keep = keep and buf = buf] assms(2) b1(1) by auto
  with b1(2) show ?thesis by (auto simp: cut_30_def c_str_update split: if_splits)
qed

lemma deleSpace_clean: "deleSpace buf = Some b \<Longrightarrow> clean_field (c_str b)"
  using squeeze_cut [where keep = "\<lambda>c. \<not> blank c" and buf = buf and b = b]
  by (auto simp: deleSpace_def clean_field_def dest: in_set_takeD)

lemma clean_weather_clean:
  assumes "clean_weather buf = Some b"
  shows "clean_field (c_str b)"
proof -
  obtain b1 where b1: "deleSpace buf = Some b1" "deleSpaceforweather b1 = Some b"
    using assms by (auto simp: clean_weather_def Option.bind_eq_Some_conv)
  from b1(2) have "c_str b = take 30 (filter (\<lambda>c. uchar c \<notin> {48, 49, 50}) (c_str b1))"
    unfolding deleSpaceforweather_def by (rule squeeze_cut) simp
  with deleSpace_clean [OF b1(1)] show ?thesis by (auto simp: clean_field_def dest: in_set_takeD)
qed

lemma field_clean:
  assumes "field tag clean pos = Some (Some (v, pos'))" "\<And>buf b. clean buf = Some b \<Longrightarrow> clean_field (c_str b)"
  shows "clean_field v"
  using assms by (auto simp: field_def and_found_def seek_def Let_def Option.bind_eq_Some_conv split: option.splits)

text \<open>A city's data with \<open>n\<close> days.\<close>

definition complete :: "nat \<Rightarrow> data \<Rightarrow> bool" where
  "complete n d \<longleftrightarrow>
     (\<forall>f \<in> {date, weather, low_degree, high_degree}. length (f d) = n \<and> (\<forall>v \<in> set (f d). clean_field v))"

abbreviation "page_data \<equiv> city_page Parseforcityname deleSpace clean_weather"
abbreviation "page_days \<equiv> days deleSpace clean_weather"

lemma days_complete: "page_days n pos d = Some (Some d') \<Longrightarrow> complete k d \<Longrightarrow> complete (k + n) d'"
proof (induction n arbitrary: k pos d)
  case (Suc n)
  from Suc.prems(1) obtain dt we lo hi p1 p2 p3 p4 where
    f: "field ''date\">'' deleSpace pos = Some (Some (dt, p1))"
    "field ''weather1\">'' clean_weather p1 = Some (Some (we, p2))"
    "field ''blue\">'' deleSpace p2 = Some (Some (lo, p3))" "field ''orange\">'' deleSpace p3 = Some (Some (hi, p4))"
    and r: "page_days n p4 (d\<lparr>date := date d @ [dt], weather := weather d @ [we], low_degree := low_degree d @ [lo],
      high_degree := high_degree d @ [hi]\<rparr>) = Some (Some d')"
    by (auto simp: and_found_def split: option.splits)
  have "clean_field dt" by (rule field_clean [OF f(1)], rule deleSpace_clean)
  moreover have "clean_field we" by (rule field_clean [OF f(2)], rule clean_weather_clean)
  moreover have "clean_field lo" by (rule field_clean [OF f(3)], rule deleSpace_clean)
  moreover have "clean_field hi" by (rule field_clean [OF f(4)], rule deleSpace_clean)
  ultimately have "complete (Suc k) (d\<lparr>date := date d @ [dt], weather := weather d @ [we], low_degree := low_degree d @ [lo],
      high_degree := high_degree d @ [hi]\<rparr>)" using Suc.prems(2) by (simp add: complete_def)
  from Suc.IH [OF r this] show ?case by simp
qed simp

lemma city_page_complete: "page_data r = Some (Some d) \<Longrightarrow> complete 7 d"
proof -
  assume "page_data r = Some (Some d)"
  then obtain pos nm where "page_days 7 pos \<lparr>date = [], name = nm, weather = [], low_degree = [], high_degree = []\<rparr> = Some (Some d)"
    by (auto simp: city_page_def and_found_def Let_def Option.bind_eq_Some_conv split: option.splits)
  moreover have "complete 0 \<lparr>date = [], name = nm, weather = [], low_degree = [], high_degree = []\<rparr>" by (simp add: complete_def)
  ultimately have "complete (0 + 7) d" by (rule days_complete)
  then show ?thesis by simp
qed

lemma Get_weather_info_complete:
  "Get_weather_info resp wd = Some wd' \<Longrightarrow> \<forall>d \<in> set wd. complete 7 d \<Longrightarrow> \<forall>d \<in> set wd'. complete 7 d"
proof -
  assume g: "Get_weather_info resp wd = Some wd'" and wd: "\<forall>d \<in> set wd. complete 7 d"
  from g obtain r x where x: "page_data (c_str r) = Some x" "wd' = (case x of None \<Rightarrow> wd | Some d \<Rightarrow> wd @ [d])"
    by (auto simp: Get_weather_info_def add_city_def split: option.splits)
  show "\<forall>d \<in> set wd'. complete 7 d"
  proof (cases x)
    case (Some d)
    with x(1) have "complete 7 d" by (intro city_page_complete) simp
    with Some x(2) wd show ?thesis by simp
  qed (use x(2) wd in simp)
qed

text \<open>C36: Whatever the pages contain, the data that the crawler collects is complete: every city has exactly seven days, each with
  a date, a weather and two temperatures of at most 30 bytes without blanks, and so the text of its row can be built.\<close>
theorem crawled_data_complete:
  assumes "fetch_all gethostbyname resp es [] w = Some (wd, w')" "d \<in> set wd"
  shows "complete 7 d \<and> (\<exists>row. city_row city d = Some row)"
proof -
  have "\<forall>d \<in> set wd. complete 7 d" if "fetch_all gethostbyname resp es wd0 w = Some (wd, w')" "\<forall>d \<in> set wd0. complete 7 d" for wd0
    using that
  proof (induction es arbitrary: resp wd0 w)
    case (Cons e es)
    from Cons.prems(1) obtain resp' w1 wd1 where "Get_weather_info resp' wd0 = Some wd1" "fetch_all gethostbyname None es wd1 w1 = Some (wd, w')"
      by (auto simp: Option.bind_eq_Some_conv)
    with Cons.IH Cons.prems(2) Get_weather_info_complete show ?case by blast
  qed simp
  with assms have "complete 7 d" by simp
  then show ?thesis by (simp add: complete_def city_row_def)
qed

text \<open>A page with seven days.\<close>

definition some_day :: string where
  "some_day = ''date\">1<weather1\">2<blue\">3<orange\">4[<''"

definition some_page :: string where
  "some_page = ''currCity_self\"<span>4[<'' @ concat (replicate 7 some_day)"

lemma field_found:
  assumes "strstr pos tag = Some (tag @ v @ CHR ''<'' # p)" "length v < 100" "CHR ''<'' \<notin> set v" "NUL \<notin> set v"
    "\<And>buf. NUL \<in> set buf \<Longrightarrow> length buf = 100 \<Longrightarrow> \<exists>b. clean buf = Some b"
  shows "\<exists>x. field tag clean pos = Some (Some (x, v @ CHR ''<'' # p))"
proof -
  have t: "takeWhile (\<lambda>c. c \<noteq> CHR ''<'') (v @ CHR ''<'' # p) = v"
    using assms(3) by (subst takeWhile_append2) auto
  obtain buf where buf: "scan_until (CHR ''<'') (v @ CHR ''<'' # p) (replicate 100 NUL) = Some buf" "NUL \<in> set buf" "length buf = 100"
    using assms(2) by (cases "v = []") (auto simp: scan_until_def t strcpy_to_def)
  from assms(5) [OF buf(2,3)] obtain b where "clean buf = Some b" by blast
  with assms(1) buf(1) show ?thesis by (simp add: field_def and_found_def seek_def)
qed

lemma squeeze_cut_total:
  assumes "NUL \<in> set buf" "30 < length buf" "keep NUL"
  shows "\<exists>b. Option.bind (squeeze keep buf) cut_30 = Some b \<and> length b = length buf \<and> NUL \<in> set b"
proof -
  obtain b1 where "squeeze keep buf = Some b1" "length b1 = length buf" using squeeze_c_str [where keep = keep and buf = buf] assms by blast
  with assms(2) show ?thesis by (auto simp: cut_30_def set_update_memI)
qed

lemma deleSpace_total: "NUL \<in> set buf \<Longrightarrow> length buf = 100 \<Longrightarrow> \<exists>b. deleSpace buf = Some b \<and> length b = 100 \<and> NUL \<in> set b"
  unfolding deleSpace_def using squeeze_cut_total [where keep = "\<lambda>c. \<not> blank c" and buf = buf] by simp

lemma clean_weather_total:
  assumes "NUL \<in> set buf" "length buf = 100"
  shows "\<exists>b. clean_weather buf = Some b"
proof -
  from deleSpace_total [OF assms] obtain b where b: "deleSpace buf = Some b" "length b = 100" "NUL \<in> set b" by blast
  with squeeze_cut_total [where keep = "\<lambda>c. uchar c \<notin> {48, 49, 50}" and buf = b] show ?thesis
    by (auto simp: clean_weather_def deleSpaceforweather_def)
qed

lemma some_days: "\<exists>d'. page_days n (''4[<'' @ concat (replicate n some_day)) d = Some (Some d')"
proof (induction n arbitrary: d)
  case (Suc n)
  let ?r = "concat (replicate n some_day)"
  have total: "\<And>buf. NUL \<in> set buf \<Longrightarrow> length buf = 100 \<Longrightarrow> \<exists>b. deleSpace buf = Some b" using deleSpace_total by blast
  have "\<exists>x. field ''date\">'' deleSpace (''4[<'' @ some_day @ ?r) = Some (Some (x, ''1'' @ CHR ''<'' # ''weather1\">2<blue\">3<orange\">4[<'' @ ?r))"
    by (rule field_found) (simp_all add: some_day_def total)
  then obtain dt where 1: "field ''date\">'' deleSpace (''4[<'' @ some_day @ ?r) = Some (Some (dt, ''1<weather1\">2<blue\">3<orange\">4[<'' @ ?r))"
    by auto
  have "\<exists>x. field ''weather1\">'' clean_weather (''1<weather1\">2<blue\">3<orange\">4[<'' @ ?r) =
      Some (Some (x, ''2'' @ CHR ''<'' # ''blue\">3<orange\">4[<'' @ ?r))"
    by (rule field_found) (simp_all add: clean_weather_total)
  then obtain we where 2: "field ''weather1\">'' clean_weather (''1<weather1\">2<blue\">3<orange\">4[<'' @ ?r) =
      Some (Some (we, ''2<blue\">3<orange\">4[<'' @ ?r))" by auto
  have "\<exists>x. field ''blue\">'' deleSpace (''2<blue\">3<orange\">4[<'' @ ?r) = Some (Some (x, ''3'' @ CHR ''<'' # ''orange\">4[<'' @ ?r))"
    by (rule field_found) (simp_all add: total)
  then obtain lo where 3: "field ''blue\">'' deleSpace (''2<blue\">3<orange\">4[<'' @ ?r) = Some (Some (lo, ''3<orange\">4[<'' @ ?r))" by auto
  have "\<exists>x. field ''orange\">'' deleSpace (''3<orange\">4[<'' @ ?r) = Some (Some (x, ''4['' @ CHR ''<'' # ?r))"
    by (rule field_found) (simp_all add: total)
  then obtain hi where 4: "field ''orange\">'' deleSpace (''3<orange\">4[<'' @ ?r) = Some (Some (hi, ''4[<'' @ ?r))" by auto
  have "page_days (Suc n) (''4[<'' @ concat (replicate (Suc n) some_day)) d =
      page_days n (''4[<'' @ ?r) (d\<lparr>date := date d @ [dt], weather := weather d @ [we], low_degree := low_degree d @ [lo],
        high_degree := high_degree d @ [hi]\<rparr>)"
    using 1 2 3 4 by (simp add: and_found_def)
  with Suc.IH show ?case by simp
qed simp

lemma some_page_data: "\<exists>d. page_data some_page = Some (Some d)"
proof -
  let ?r = "''4[<'' @ concat (replicate 7 some_day)"
  have s: "strstr some_page ''currCity'' = Some some_page" "strstr some_page ''_self\"'' = Some (''_self\"<span>'' @ ?r)"
    "strstr (''_self\"<span>'' @ ?r) ''<span>'' = Some (''<span>'' @ ?r)"
    by (simp_all add: some_page_def)
  have n: "scan_until (CHR ''['') ?r (replicate 100 NUL) = Some (CHR ''4'' # NUL # replicate 98 NUL)"
    by (simp add: scan_until_def strcpy_to_def)
  have p: "\<exists>b. Parseforcityname (CHR ''4'' # NUL # replicate 98 NUL) = Some b" by (simp add: Parseforcityname_def)
  from p obtain b where b: "Parseforcityname (CHR ''4'' # NUL # replicate 98 NUL) = Some b" by blast
  have "page_data some_page = page_days 7 ?r \<lparr>date = [], name = c_str b, weather = [], low_degree = [], high_degree = []\<rparr>"
    unfolding city_page_def and_found_def seek_def option.case s
    using n b by (simp del: days.simps append_Cons replicate_Suc add: Let_def)
  with some_days show ?thesis by simp
qed

theorem crawled_data_complete_witness:
  "\<exists>d row. page_data some_page = Some (Some d) \<and> city_row ''E5AE'' d = Some row"
proof -
  obtain d where d: "page_data some_page = Some (Some d)" using some_page_data by blast
  let ?w = "os_with 5 some_page"
  have q: "quiet ?w" "5 = sr_ret (ans ?w (tick ?w))" "inq ?w 5 = some_page" by (simp_all add: quiet_def os_with_def)
  have l: "int (length some_page) < 2 ^ 28" by (simp add: some_page_def some_day_def length_concat sum_list_replicate)
  from get_page [where gethostbyname = "\<lambda>h. Some 1" and a = 1, OF q(1) refl q(2), of "''/''" None] q(3) l obtain w' where
    g: "GetHttpResponse (\<lambda>h. Some 1) ''/'' None ?w = Some ((True, Some some_page), w')" by auto
  have "is_cstring some_page" by (simp add: some_page_def some_day_def is_cstring_def)
  then have "Get_weather_info (Some some_page) [] = Some [d]" using d by (simp add: Get_weather_info_def add_city_def c_str_id)
  with g have f: "fetch_all (\<lambda>h. Some 1) None [(''E5AE'', ''/'')] [] ?w = Some ([d], w')" by simp
  from crawled_data_complete [OF f, of d "''E5AE''"] d show ?thesis by auto
qed

section \<open>The database\<close>

text \<open>The crawler drops the table, creates it again and inserts nothing, whatever the pages contain: the vector of names that
  its insertion loop runs over is never filled.\<close>
theorem crawler_leaves_table_empty:
  assumes "weather_main gethostbyname api w m = Some (status, wd, w', m')" "api_init api m = (True, m1)"
  shows "m' = api_close api (snd (api_query api create_text (snd (api_query api drop_text
    (snd (api_real_connect api ''127.0.0.1'' ''root'' ''WKyun123456'' ''test'' 3306 m1))))))"
proof -
  have "c_str drop_text = drop_text" "c_str create_text = create_text" by (simp_all add: drop_text_def create_text_def)
  with assms show ?thesis
    by (auto simp: weather_main_def new_sql_connecter_def begin_connect_def delete_table_def creat_table_def query_def
        destroy_sql_connecter_def close_connect_def Option.bind_eq_Some_conv case_prod_beta)
qed

text \<open>A library that only records the statements.\<close>

definition log_mysql :: "string list mysql_api" where
  "log_mysql = \<lparr>api_init = (\<lambda>m. (True, m)), api_real_connect = (\<lambda>h u p d n m. (True, m)), api_query = (\<lambda>q m. (0, m @ [q])),
     api_store_result = (\<lambda>m. (None, m)), api_close = id\<rparr>"

theorem crawler_leaves_table_empty_witness:
  "\<exists>status wd w'. weather_main (\<lambda>h. Some 1) log_mysql (os_with 5 ''<html>'') [] = Some (status, wd, w', [drop_text, create_text])"
proof -
  let ?w = "os_with 5 ''<html>''"
  have q: "quiet ?w" "5 = sr_ret (ans ?w (tick ?w))" "inq ?w 5 = ''<html>''" by (simp_all add: quiet_def os_with_def)
  from get_page [where gethostbyname = "\<lambda>h. Some 1" and a = 1, OF q(1) refl q(2), of "''/?/Index/quanguo''" None] q(3) obtain w' where
    g: "GetHttpResponse (\<lambda>h. Some 1) ''/?/Index/quanguo'' None ?w = Some ((True, Some ''<html>''), w')" by auto
  have f: "find_resource (Some ''<html>'') [] = Some []" by (simp add: find_resource_def city_list_def)
  obtain status wd w2 m' where r: "weather_main (\<lambda>h. Some 1) log_mysql ?w [] = Some (status, wd, w2, m')"
    using g f by (simp add: weather_main_def new_sql_connecter_def begin_connect_def delete_table_def creat_table_def query_def log_mysql_def)
  have i: "api_init log_mysql [] = (True, [])" by (simp add: log_mysql_def)
  from crawler_leaves_table_empty [OF r i] have "m' = [drop_text, create_text]" by (simp add: log_mysql_def)
  with r show ?thesis by blast
qed

lemma strstr_length: "strstr s t = Some p \<Longrightarrow> length p \<le> length s \<and> length t \<le> length p"
proof (induction s)
  case (Cons c s)
  show ?case
  proof (cases "take (length t) (c # s) = t")
    case True
    then have "length t \<le> length (c # s)" by (metis length_take min.cobounded1)
    with True Cons.prems show ?thesis by simp
  next
    case False
    with Cons show ?thesis by auto
  qed
qed (simp split: if_splits)

lemma resource_loop_length: "resource_loop uncode n pos cn m = Some m' \<Longrightarrow> 12 * n \<le> length pos"
proof (induction n arbitrary: pos cn m)
  case (Suc n)
  then obtain p1 p2 cn2 m2 where p: "strstr pos ''href=\"'' = Some p1" "strstr (drop 6 p1) ''self\">'' = Some p2"
    "resource_loop uncode n (drop 6 p2) cn2 m2 = Some m'"
    by (auto simp: Option.bind_eq_Some_conv Let_def)
  from strstr_length [OF p(1)] strstr_length [OF p(2)] Suc.IH [OF p(3)] show ?case by (simp, arith)
qed simp

text \<open>The loop over the cities ends only after 2564 of them: a page that contains the tag of the list but has less than 12 bytes
  for each of them makes the search run into a NULL pointer.\<close>
theorem short_city_list_fails:
  assumes "strstr (c_str r) ''inlandCity'' = Some pos" "length pos < 12 * CITY_COUNT"
  shows "find_resource (Some r) m = None"
proof (cases "resource_loop UncodeTostr CITY_COUNT pos (replicate 50 NUL) m")
  case None
  with assms(1) show ?thesis by (simp add: find_resource_def city_list_def)
next
  case (Some m')
  from resource_loop_length [OF Some] assms(2) show ?thesis by simp
qed

theorem short_city_list_fails_witness:
  "find_resource (Some ''<div id=inlandCity></div>'') [] = None"
  by (rule short_city_list_fails [of _ "''inlandCity></div>''"]) (simp_all add: CITY_COUNT_def)

text \<open>An unreachable service is not handled: the result of \<open>GetHttpResponse\<close> is ignored, and the NULL pointer that stands for the
  page is searched.\<close>
theorem unreachable_service_fails:
  assumes "gethostbyname ''tianqi.114la.com'' = None"
  shows "weather_main gethostbyname api w m = None"
  using assms by (simp add: weather_main_def GetHttpResponse_def http_get_def find_resource_def city_list_def)

theorem unreachable_service_fails_witness:
  "weather_main (\<lambda>h. None) log_mysql (os_with 5 ''<html>'') [] = None"
  by (rule unreachable_service_fails) simp

section \<open>Functions that are not called\<close>

lemma copy_location_Nil: "copy_location pos i [] = Some str' \<Longrightarrow> str' = [] \<and> (\<exists>p. pos = CR # p)"
  by (cases pos) (simp_all split: if_splits)

text \<open>\<open>prase\<close> never delivers the target of a redirection: it returns only with its string unchanged, and reports a redirection only
  when the target is empty; for every other target it writes behind the end of an empty string.\<close>
theorem prase_never_copies:
  assumes "prase str resp = Some (r, str')"
  shows "str' = str \<and> (\<not> r \<longrightarrow> (\<exists>s pos p. resp = Some s \<and> strstr (c_str s) ''Location:'' = Some pos \<and> drop 33 pos = CR # p))"
  using assms by (auto simp: prase_def Option.bind_eq_Some_conv split: option.splits if_splits dest!: copy_location_Nil)

text \<open>\<open>SaveToSql\<close> runs over 14 days where every collected city has 7: it always reads behind the end of the vector.\<close>
theorem SaveToSql_out_of_range: "complete 7 d \<Longrightarrow> SaveToSql d = None"
  by (simp add: complete_def SaveToSql_def)

end
