(* ===== verification/Weather_1.thy ===== *)
theory Weather_1
  imports Weather_Spec
begin

text \<open>
  \<open>weather_1.cpp\<close>, the older version of the crawler: another host and a smaller buffer, keys made of the first six bytes of a
  name, and one city only, which it prints. The class \<open>data\<close> and \<open>wea_cmp\<close> are those of \<open>weather.cpp\<close>, word for word. The lemmas
  compare it with the newer version.
\<close>

section \<open>The functions\<close>

definition GetHttpResponse_1 ::
  "(string \<Rightarrow> int option) \<Rightarrow> string \<Rightarrow> string option \<Rightarrow> os \<Rightarrow> ((bool \<times> string option) \<times> os) option" where
  "GetHttpResponse_1 = http_get ''tianqi.911cha.com'' 1024"

text \<open>The test \<open>sizeof (buf[i]) >= 8\<close> always holds, and only six of the twenty strings are used.\<close>

definition kept_digits_1 :: "string \<Rightarrow> string" where
  "kept_digits_1 b = filter (\<lambda>c. c \<noteq> CHR ''f'' \<and> c \<noteq> NUL) (take 9 b)"

definition UncodeTostr_1 :: "string \<Rightarrow> char list \<Rightarrow> char list option" where
  "UncodeTostr_1 inp out =
     (if 20 < length inp then None else put_digits (concat (map (\<lambda>c. kept_digits_1 (hex_byte c)) (take 6 inp))) out)"

definition find_resource_1 :: "string option \<Rightarrow> (string \<times> string) list \<Rightarrow> (string \<times> string) list option" where
  "find_resource_1 = city_list UncodeTostr_1"

text \<open>The comparisons with 1000 and 2000 hold for no character.\<close>

definition deleSpace_1 :: "char list \<Rightarrow> char list option" where
  "deleSpace_1 buf = Option.bind (squeeze (\<lambda>c. uchar c \<notin> {9, 32, 20, 1000, 2000}) buf) cut_30"

definition Get_weather_info_1 :: "string option \<Rightarrow> data list \<Rightarrow> data list option" where
  "Get_weather_info_1 = add_city (city_page Some deleSpace_1 deleSpace_1)"

text \<open>A line of the page; the first elements of the four vectors are read without a test.\<close>

definition day_line :: "data \<Rightarrow> string option" where
  "day_line d =
     (case (date d, weather d, low_degree d, high_degree d) of
        (dt # _, we # _, lo # _, hi # _) \<Rightarrow>
          Some (''<p>'' @ dt @ '': '' @ name d @ '' '' @ we @ '' '' @ lo @ ''~'' @ hi @ ''</p>'' @ [LF])
      | _ \<Rightarrow> None)"

text \<open>\<open>main\<close>: the exit status, what it prints after the fixed head of the page, and the kernel. The first entry of the map is used
  without a test that there is one.\<close>

definition show_city :: "(string \<Rightarrow> int option) \<Rightarrow> string \<Rightarrow> string option \<Rightarrow> os \<Rightarrow> (int \<times> string list \<times> os) option" where
  "show_city gethostbyname url resp w = do {
     ((_, resp), w) \<leftarrow> GetHttpResponse_1 gethostbyname url resp w;
     weather_data \<leftarrow> Get_weather_info_1 resp [];
     out \<leftarrow> those (map day_line weather_data);
     Some (0, out @ [''</div> </div> <body> </html>'' @ [LF]], w)
   }"

definition weather_main_1 :: "(string \<Rightarrow> int option) \<Rightarrow> os \<Rightarrow> (int \<times> string list \<times> os) option" where
  "weather_main_1 gethostbyname w = do {
     ((_, resp), w) \<leftarrow> GetHttpResponse_1 gethostbyname ''/?/Index/quanguo'' None w;
     city_name_url \<leftarrow> find_resource_1 resp [];
     (case city_name_url of [] \<Rightarrow> None | e # _ \<Rightarrow> show_city gethostbyname (snd e) resp w)
   }"

section \<open>Properties\<close>

lemma kept_digits_1_high: "128 \<le> uchar c \<Longrightarrow> kept_digits_1 (hex_byte c) = kept_digits (hex_byte c)"
  by (simp add: kept_digits_def kept_digits_1_def hex_byte_high)

text \<open>The older version makes the key of a city of the first six bytes of its name, two Chinese characters, exactly as the newer
  version does of the whole name. So the two versions agree on names of at most six bytes, and in the older one all cities whose
  names begin with the same two characters get the same key.\<close>
theorem old_key_of_prefix:
  assumes "\<forall>c \<in> set nm. 128 \<le> uchar c" "length nm \<le> 20"
  shows "UncodeTostr_1 nm out = UncodeTostr (take 6 nm) out"
proof -
  have "map (\<lambda>c. kept_digits_1 (hex_byte c)) (take 6 nm) = map (\<lambda>c. kept_digits (hex_byte c)) (take 6 nm)"
    using assms(1) by (intro map_cong refl) (auto simp: kept_digits_1_high dest: in_set_takeD)
  then show ?thesis using assms(2) by (simp add: UncodeTostr_1_def UncodeTostr_def del: map_eq_conv)
qed

text \<open>Lianyungang: nine bytes.\<close>

theorem old_key_of_prefix_witness:
  "UncodeTostr_1 [CHR 0xE8, CHR 0xBF, CHR 0x9E, CHR 0xE4, CHR 0xBA, CHR 0x91, CHR 0xE6, CHR 0xB8, CHR 0xAF] (replicate 50 NUL) =
   UncodeTostr [CHR 0xE8, CHR 0xBF, CHR 0x9E, CHR 0xE4, CHR 0xBA, CHR 0x91] (replicate 50 NUL)"
proof -
  let ?nm = "[CHR 0xE8, CHR 0xBF, CHR 0x9E, CHR 0xE4, CHR 0xBA, CHR 0x91, CHR 0xE6, CHR 0xB8, CHR 0xAF]"
  have "\<forall>c \<in> set ?nm. 128 \<le> uchar c" by (simp add: uchar_def)
  from old_key_of_prefix [OF this, of "replicate 50 NUL"] show ?thesis by simp
qed

text \<open>The page is complete here too, although the buffer starts with 1024 bytes.\<close>
lemma page_complete_1:
  assumes "quiet w" "gethostbyname ''tianqi.911cha.com'' = Some a" "sock = sr_ret (ans w (tick w))" "int (length (inq w sock)) < 2 ^ 28"
  shows "\<exists>w' k. GetHttpResponse_1 gethostbyname resource p w = Some ((True, Some (inq w sock)), w') \<and>
    outq w' sock = outq w sock @ take k (request_text resource ''tianqi.911cha.com'') \<and> closed w' = sock # closed w"
  unfolding GetHttpResponse_1_def by (rule http_get_page [where gethostbyname = gethostbyname]) (use assms in simp_all)

lemma those_length: "those xs = Some ys \<Longrightarrow> length ys = length xs"
  by (induction xs arbitrary: ys) (auto split: option.splits)

text \<open>Whatever it finds, the program prints at most one city.\<close>
lemma prints_one_city:
  assumes "weather_main_1 gethostbyname w = Some (status, out, w')"
  shows "status = 0 \<and> length out \<le> 2"
proof -
  from assms obtain url p w1 where "show_city gethostbyname url p w1 = Some (status, out, w')"
    unfolding weather_main_1_def Option.bind_eq_Some_conv case_prod_beta by (elim exE conjE) (auto split: list.split_asm)
  then obtain wd out1 resp where r: "Get_weather_info_1 resp [] = Some wd" "those (map day_line wd) = Some out1"
    "status = 0" "length out = Suc (length out1)"
    by (auto simp: show_city_def Option.bind_eq_Some_conv)
  have "length wd \<le> 1" using r(1) by (auto simp: Get_weather_info_1_def add_city_def split: option.split_asm)
  with r those_length [OF r(2)] show ?thesis by simp
qed

text \<open>A page without the list of cities leaves the map empty, and its first entry is read all the same.\<close>
lemma no_list_fails:
  assumes "GetHttpResponse_1 gethostbyname ''/?/Index/quanguo'' None w = Some ((b, Some r), w')"
    "strstr (c_str r) ''inlandCity'' = None"
  shows "weather_main_1 gethostbyname w = None"
  using assms by (simp add: weather_main_1_def find_resource_1_def city_list_def)

end
