(* ===== verification/Test_Programs.thy ===== *)
theory Test_Programs
  imports Sql_Connect Mem_Cache
begin

text \<open>
  The small programs beside the components that try them by hand: \<open>htdocs/main.cpp\<close> and \<open>memcache/memcache.cpp\<close> use the classes of
  \<open>Sql_Connect\<close> and \<open>Mem_Cache\<close>, \<open>memcache/test.cpp\<close> calls the cache library directly, \<open>htdocs/cgi_bin/find_cgi.cpp\<close> is a page. Each
  is the lines it prints and the state it leaves behind; the exit status is 0.
\<close>

section \<open>The database class\<close>

definition sql_test_main :: "'m mysql_api \<Rightarrow> 'm \<Rightarrow> 'm option" where
  "sql_test_main api m = do {
     let (conn, m) = new_sql_connecter api ''127.0.0.1'' ''root'' ''WKyun123456'' ''test'' m;
     (_, m) \<leftarrow> begin_connect api conn m;
     let data = [CHR 0x27] @ ''xian'' @ [CHR 0x27] @ '','' @ [CHR 0x27] @ ''hello weikai'' @ [CHR 0x27];
     (_, m) \<leftarrow> delete_table api conn m;
     (_, m) \<leftarrow> creat_table api conn m;
     (_, m) \<leftarrow> insert_sql api data conn m;
     Some (destroy_sql_connecter api conn m)
   }"

text \<open>With a handle it sends exactly its three statements between opening and closing the connection, whatever the server answers;
  without one it fails.\<close>

lemma sql_test_main_statements:
  "sql_test_main api m =
     (case api_init api m of
        (False, _) \<Rightarrow> None
      | (True, m) \<Rightarrow> Some (api_close api (foldl (\<lambda>m q. snd (api_query api (c_str q) m))
          (snd (api_real_connect api ''127.0.0.1'' ''root'' ''WKyun123456'' ''test'' 3306 m))
          [drop_text, create_text,
           insert_text ([CHR 0x27] @ ''xian'' @ [CHR 0x27] @ '','' @ [CHR 0x27] @ ''hello weikai'' @ [CHR 0x27])])))"
  by (auto simp: sql_test_main_def new_sql_connecter_def begin_connect_def delete_table_def creat_table_def insert_sql_def query_def
      destroy_sql_connecter_def close_connect_def case_prod_beta split: prod.split bool.split)

section \<open>The cache class\<close>

definition memcache_key :: string where
  "memcache_key = ''%6E%B5%B7%E5%8F%A3''"

definition memcache_main :: "'c memcached_api \<Rightarrow> memcache \<Rightarrow> 'c \<Rightarrow> (string list \<times> 'c) option" where
  "memcache_main api junk c = do {
     let (mem, c) = new_memcache api junk c;
     (r, mem, c) \<leftarrow> MemcacheGet api memcache_key mem c;
     let result = (case r of None \<Rightarrow> [] | Some v \<Rightarrow> v);
     Some ([result @ [LF]], destroy_memcache api mem c)
   }"

text \<open>It prints an entry of the cache under its key, or an empty line.\<close>

lemma memcache_main_prints_entry:
  assumes "caches api held" "\<And>v. held c memcache_key = Some v \<Longrightarrow> v \<noteq> []"
    "\<And>v. held c memcache_key = Some v \<Longrightarrow> is_cstring v"
  shows "\<exists>v c'. memcache_main api junk c = Some ([v @ [LF]], c') \<and> (v = [] \<or> held c memcache_key = Some v)"
proof -
  define c1 where "c1 = api_create api ''localhost'' 11211 c"
  obtain ok ret len fl c2 where g: "api_get api memcache_key c1 = ((ok, ret, len, fl), c2)" by (metis prod.collapse)
  have le: "held c1 \<subseteq>\<^sub>m held c" using assms(1) by (simp add: caches_def c1_def)
  show ?thesis
  proof (cases ok)
    case True
    with g have g1: "api_get api memcache_key c1 = ((True, ret, len, fl), c2)" by simp
    have "ret \<noteq> None \<and> held c memcache_key = ret" by (rule caches_get [OF assms(1) g1 le assms(2)])
    then obtain v where v: "ret = Some v" "held c memcache_key = Some v" by (cases ret) simp_all
    with v g1 assms(3) [OF v(2)] show ?thesis by (simp add: memcache_main_def c1_def new_memcache_def MemcacheGet_def Let_def c_str_id)
  next
    case False
    with g show ?thesis by (simp add: memcache_main_def c1_def new_memcache_def MemcacheGet_def Let_def)
  qed
qed

section \<open>The cache library\<close>

text \<open>\<open>expiration\<close> and \<open>flags\<close> are passed without having been set. A success without a string prints a NULL pointer.\<close>

definition memcached_test_main :: "'c memcached_api \<Rightarrow> int \<Rightarrow> int \<Rightarrow> 'c \<Rightarrow> (string list \<times> 'c) option" where
  "memcached_test_main api expiration flags c =
     (let c = api_create api ''localhost'' 11211 c;
          key = ''key'';
          val = ''value''
      in case api_set api key val expiration flags c of (saved, c) \<Rightarrow>
         case api_get api key c of ((got, result, _, _), c) \<Rightarrow>
         case api_delete api key expiration c of (deleted, c) \<Rightarrow>
           if got \<and> result = None then None
           else Some ((if saved then [''Save data:'' @ val @ '' sucessful!'' @ [LF]] else []) @
                      (if got then [''Get value:'' @ c_str (the result) @ '' sucessful!'' @ [LF]] else []) @
                      (if deleted then [''Delete key:'' @ key @ '' sucessful!'' @ [LF]] else []),
                      api_free api c))"

text \<open>Unless the cache already had an entry under the key, the program gets back what it stored, or nothing.\<close>

lemma memcached_test_main_roundtrip:
  assumes "caches api held" "held c ''key'' = None"
  shows "\<exists>saved got deleted c'. memcached_test_main api expiration flags c =
    Some ((if saved then [''Save data:value sucessful!'' @ [LF]] else []) @
          (if got then [''Get value:value sucessful!'' @ [LF]] else []) @
          (if deleted then [''Delete key:key sucessful!'' @ [LF]] else []), c')"
proof -
  let ?c1 = "api_create api ''localhost'' 11211 c"
  obtain saved c2 where s: "api_set api ''key'' ''value'' expiration flags ?c1 = (saved, c2)" by fastforce
  obtain got ret len fl c3 where g: "api_get api ''key'' c2 = ((got, ret, len, fl), c3)" by (metis prod.collapse)
  obtain deleted c4 where d: "api_delete api ''key'' expiration c3 = (deleted, c4)" by fastforce
  have "held ?c1 \<subseteq>\<^sub>m held c" using assms(1) by (simp add: caches_def)
  then have "held ?c1 \<subseteq>\<^sub>m (held c)(''key'' \<mapsto> ''value'')" by (rule map_le_trans) (use assms(2) in \<open>auto simp: map_le_def\<close>)
  moreover from this have "(held ?c1)(''key'' \<mapsto> ''value'') \<subseteq>\<^sub>m (held c)(''key'' \<mapsto> ''value'')" by (auto simp: map_le_def)
  ultimately have le: "held c2 \<subseteq>\<^sub>m (held c)(''key'' \<mapsto> ''value'')" using caches_set [OF assms(1) s] map_le_trans by blast
  have "ret = Some ''value''" if got using caches_get [OF assms(1) _ le, of "''key''" ret len fl c3] g that by simp
  with s g d have "memcached_test_main api expiration flags c =
    Some ((if saved then [''Save data:value sucessful!'' @ [LF]] else []) @
          (if got then [''Get value:value sucessful!'' @ [LF]] else []) @
          (if deleted then [''Delete key:key sucessful!'' @ [LF]] else []), api_free api c4)"
    by (auto simp: memcached_test_main_def Let_def)
  then show ?thesis by blast
qed

section \<open>The page\<close>

definition hello_main :: "string list" where
  "hello_main = [''<html>'' @ [LF], ''hello'' @ [LF], ''</html>'' @ [LF]]"

end
