(* ===== verification/Http_Frame.thy ===== *)
theory Http_Frame
  imports Http_Request_Spec
begin

text \<open>
  What serving one request may touch. \<open>accept_request\<close> reads and writes its own connection and the
  descriptors it gets from the kernel for the file or the pipes, and it closes every one of those; the
  streams of every other descriptor are left as they were, whatever the kernel answers and whatever the
  client sent. This is what makes it sound to look at the requests of different connections one by one.
\<close>

section \<open>Frames\<close>

text \<open>A piece of the program that touches at most the streams of the descriptors in \<open>S\<close>.\<close>

definition within :: "int set \<Rightarrow> os \<Rightarrow> os \<Rightarrow> bool" where
  "within S w w' \<longleftrightarrow> ans w' = ans w \<and> tick w \<le> tick w' \<and>
     (\<forall>g. g \<notin> S \<longrightarrow> inq w' g = inq w g \<and> outq w' g = outq w g)"

text \<open>One that also leaves the list of closed descriptors alone.\<close>

definition keeps_open :: "int set \<Rightarrow> os \<Rightarrow> os \<Rightarrow> bool" where
  "keeps_open S w w' \<longleftrightarrow> within S w w' \<and> closed w' = closed w"

lemma within_refl [simp]: "within S w w"
  by (simp add: within_def)

lemma within_trans [trans]: "within S w w1 \<Longrightarrow> within S w1 w2 \<Longrightarrow> within S w w2"
  by (auto simp: within_def)

lemma within_mono: "within S w w' \<Longrightarrow> S \<subseteq> T \<Longrightarrow> within T w w'"
  by (auto simp: within_def)

lemma keeps_open_refl [simp]: "keeps_open S w w"
  by (simp add: keeps_open_def)

lemma keeps_open_trans [trans]: "keeps_open S w w1 \<Longrightarrow> keeps_open S w1 w2 \<Longrightarrow> keeps_open S w w2"
  by (auto simp: keeps_open_def intro: within_trans)

lemma keeps_open_mono: "keeps_open S w w' \<Longrightarrow> S \<subseteq> T \<Longrightarrow> keeps_open T w w'"
  by (auto simp: keeps_open_def intro: within_mono)

lemma keeps_open_calls:
  "sys_call w = (r, w') \<Longrightarrow> keeps_open S w w'"
  "sys_read fd n w = (r, d, w') \<Longrightarrow> fd \<in> S \<Longrightarrow> keeps_open S w w'"
  "sys_write fd d w = (r, w') \<Longrightarrow> fd \<in> S \<Longrightarrow> keeps_open S w w'"
  "sys_pipe w = (p, w') \<Longrightarrow> keeps_open S w w'"
proof -
  show c: "sys_call w = (r, w') \<Longrightarrow> keeps_open S w w'" for w r w'
    using sys_call_frame [of w r w'] by (auto simp: keeps_open_def within_def)
  show "sys_read fd n w = (r, d, w') \<Longrightarrow> fd \<in> S \<Longrightarrow> keeps_open S w w'"
    by (erule sys_read_cases) (auto simp: keeps_open_def within_def)
  show "sys_write fd d w = (r, w') \<Longrightarrow> fd \<in> S \<Longrightarrow> keeps_open S w w'"
    by (erule sys_write_cases) (auto simp: keeps_open_def within_def)
  show "sys_pipe w = (p, w') \<Longrightarrow> keeps_open S w w'"
    by (auto simp: sys_pipe_def split: prod.splits if_splits dest!: c intro: keeps_open_trans)
qed

lemma close_all_frame: "within S w (close_all fds w) \<and> closed (close_all fds w) = rev fds @ closed w"
proof (induction fds arbitrary: w)
  case (Cons fd fds)
  have "within S w (sys_close fd w)" by (simp add: sys_close_def within_def)
  with Cons [of "sys_close fd w"] show ?case by (auto simp: close_all_def sys_close_def intro: within_trans)
qed (simp add: close_all_def)

section \<open>Reading\<close>

text \<open>Reading a request only takes bytes from its own connection.\<close>

definition takes_only :: "int \<Rightarrow> os \<Rightarrow> os \<Rightarrow> bool" where
  "takes_only sock w w' \<longleftrightarrow> keeps_open {sock} w w' \<and> outq w' = outq w"

lemma takes_only_refl [simp]: "takes_only sock w w"
  by (simp add: takes_only_def)

lemma takes_only_trans: "takes_only sock w w1 \<Longrightarrow> takes_only sock w1 w2 \<Longrightarrow> takes_only sock w w2"
  by (auto simp: takes_only_def intro: keeps_open_trans)

lemma get_line_takes_only:
  assumes "get_line sock (Some buf) n w = Some (r, buf', w')" "n = length buf" "length buf = 1024"
  shows "takes_only sock w w' \<and> length buf' = 1024"
  using get_line_safe [of buf sock w] assms
  by (auto simp: takes_only_def keeps_open_def within_def reads_only_def)

lemma clear_header_loop_takes_only:
  assumes "clear_header_loop sock buf w = Some w'" "length buf = 1024"
  shows "takes_only sock w w'"
proof (rule clear_header_loop.raw_induct [where P = "\<lambda>sock buf w w'. length buf = 1024 \<longrightarrow> takes_only sock w w'",
      OF _ assms(1), THEN mp, OF _ assms(2)], goal_cases)
  case (1 loop sock buf w w')
  show ?case
  proof
    assume len: "length buf = 1024"
    obtain r buf1 w1 where g: "get_line sock (Some buf) (length buf) w = Some (r, buf1, w1)"
      using 1(2) by (auto split: option.splits)
    from get_line_takes_only [OF g refl len] 1(2) g show "takes_only sock w w'"
      by (auto split: if_splits dest!: 1(1) intro: takes_only_trans)
  qed
qed

lemma clear_header_takes_only: "clear_header sock w = Some w' \<Longrightarrow> takes_only sock w w'"
  using clear_header_loop_takes_only [of sock "replicate 1024 NUL"] by (simp add: clear_header_def)

lemma post_headers_takes_only:
  assumes "post_headers sock cl w = Some (cl', w')"
  shows "takes_only sock w w'"
proof -
  have "takes_only sock w (snd (cl', w'))"
  proof (rule post_headers.raw_induct [OF _ assms, where P = "\<lambda>sock cl w p. takes_only sock w (snd p)"], goal_cases)
    case (1 loop sock cl w p)
    obtain r buf1 w1 where g: "get_line sock (Some (replicate BUF_SIZE NUL)) BUF_SIZE w = Some (r, buf1, w1)"
      using 1(2) by (auto split: option.splits)
    have "takes_only sock w w1" using get_line_takes_only [OF g] by (simp add: BUF_SIZE_def)
    with 1(2) g show ?case by (auto simp: Let_def split: if_splits dest!: 1(1) intro: takes_only_trans)
  qed
  then show ?thesis by simp
qed

section \<open>Answering\<close>

lemma send_body_keeps_open: "sock \<in> S \<Longrightarrow> fd \<in> S \<Longrightarrow> keeps_open S w (send_body sock fd n c w)"
proof (induction n arbitrary: c w)
  case (Suc n)
  obtain r c1 w1 where rc: "recv_into sock c w = (r, c1, w1)" using prod_cases3 by blast
  obtain m w2 where wr: "sys_write fd [c1] w1 = (m, w2)" by force
  have "keeps_open S w w1"
    using rc Suc.prems(1) by (auto simp: recv_into_def split: prod.splits intro: keeps_open_calls(2))
  also have "keeps_open S w1 w2" using wr Suc.prems(2) by (rule keeps_open_calls(3))
  also have "keeps_open S w2 (send_body sock fd n c1 w2)" using Suc by blast
  finally show ?case using rc wr by simp
qed simp

lemma send_output_keeps_open: "sock \<in> S \<Longrightarrow> fd \<in> S \<Longrightarrow> keeps_open S w (send_output fd sock w)"
proof (induction fd sock w rule: send_output.induct)
  case (1 fd sock w)
  obtain n d w1 where rd: "sys_read fd 1 w = (n, d, w1)" using prod_cases3 by blast
  obtain m w2 where wr: "sys_write sock d w1 = (m, w2)" by force
  have k: "keeps_open S w w1" using rd "1.prems"(2) by (rule keeps_open_calls(2))
  show ?case
  proof (cases "n > 0")
    case True
    note k
    also have "keeps_open S w1 w2" using wr "1.prems"(1) by (rule keeps_open_calls(3))
    also have "keeps_open S w2 (send_output fd sock w2)" using "1.IH" rd wr True "1.prems" by auto
    finally show ?thesis using rd wr True by (subst send_output.simps) simp
  next
    case False
    with k rd show ?thesis by (subst send_output.simps) simp
  qed
qed

text \<open>The numbers the kernel may still give out.\<close>

definition given :: "os \<Rightarrow> int set" where
  "given w = {sr_ret (ans w k) | k. tick w \<le> k}"

lemma given_later: "within S w w' \<Longrightarrow> given w' \<subseteq> given w"
  unfolding given_def within_def by (auto intro: order_trans)

lemma given_call:
  assumes "sys_call w = (r, w')" "\<not> r < 0"
  shows "r \<in> given w"
proof -
  have "r = sr_ret (ans w (tick w))" using assms by (auto simp: sys_call_def Let_def split: if_splits)
  then show ?thesis unfolding given_def by blast
qed

lemma given_pipe: "sys_pipe w = (Some (a, b), w') \<Longrightarrow> {a, b} \<subseteq> given w"
  using given_later [of UNIV w] keeps_open_calls(1) [of w _ _ UNIV]
  by (auto simp: sys_pipe_def keeps_open_def split: prod.splits if_splits dest!: given_call)

text \<open>An answer: the streams of \<open>sock\<close> and of descriptors that were got from the kernel and closed again.\<close>

definition answers_with :: "int list \<Rightarrow> int \<Rightarrow> os \<Rightarrow> os \<Rightarrow> bool" where
  "answers_with fds sock w w' \<longleftrightarrow>
     within (insert sock (set fds)) w w' \<and> closed w' = fds @ closed w \<and> set fds \<subseteq> given w"

lemma keeps_open_answers: "keeps_open {sock} w w1 \<Longrightarrow> answers_with fds sock w1 w' \<Longrightarrow> answers_with fds sock w w'"
  unfolding answers_with_def keeps_open_def
  using within_trans within_mono given_later [of "{sock}" w w1] by (metis empty_subsetI insert_mono subset_trans)

lemma answers_closing:
  "keeps_open (insert sock (set fds)) w w1 \<Longrightarrow> set fds \<subseteq> given w \<Longrightarrow> answers_with (rev fds) sock w (close_all fds w1)"
  unfolding answers_with_def keeps_open_def using close_all_frame by (auto intro: within_trans)

lemma echo_html_answers: "\<exists>fds. answers_with fds sock w (echo_html fs sock (Some p) n w)"
proof -
  obtain fd w1 where op: "sys_call w = (fd, w1)" by force
  obtain r2 w2 where s2: "sys_write sock ok_header w1 = (r2, w2)" by force
  obtain r3 w3 where s3: "sys_write sock (take n (vfs_content fs p)) w2 = (r3, w3)" by force
  note k1 = keeps_open_calls(1) [OF op]
  show ?thesis
  proof (cases "fd < 0")
    case True
    have "answers_with [] sock w w1" using k1 by (simp add: answers_with_def keeps_open_def)
    with True op show ?thesis by (auto simp: echo_html_def)
  next
    case False
    have "keeps_open {sock, fd} w w3"
      using k1 keeps_open_calls(3) [OF s2] keeps_open_calls(3) [OF s3] by (meson insertI1 keeps_open_trans)
    then have "answers_with [fd] sock w (sys_close fd w3)"
      using answers_closing [of sock "[fd]" w w3] given_call [OF op False] by (simp add: close_all_def)
    with False op s2 s3 show ?thesis by (auto simp: echo_html_def sys_sendfile_def)
  qed
qed

lemma cgi_father_answers:
  assumes "keeps_open {sock} w0 w" "{i0, i1, o0, o1} \<subseteq> given w0"
  shows "\<exists>fds. answers_with fds sock w0 (cgi_father prog sock path m q cl (i0, i1) (o0, o1) w)"
proof -
  let ?S = "{sock, i0, i1, o0, o1}"
  define w1 where "w1 = close_all [i0, o1] w"
  define w2 where "w2 = (if strcasecmp ''POST'' m = 0 then send_body sock i1 (nat cl) NUL w1 else w1)"
  define w3 where "w3 = w2\<lparr>inq := (inq w2)(o0 := prog path (cgi_env m q) (outq w2 i1))\<rparr>"
  define w4 where "w4 = send_output o0 sock w3"
  have k2: "keeps_open ?S w1 w2" by (simp add: w2_def send_body_keeps_open)
  also have "keeps_open ?S w2 w3" by (simp add: w3_def keeps_open_def within_def)
  also have "keeps_open ?S w3 w4" by (simp add: w4_def send_output_keeps_open)
  finally have "keeps_open ?S w1 w4" .
  moreover have "keeps_open ?S w0 w" using assms(1) by (rule keeps_open_mono) simp
  ultimately have "within ?S w0 w4" "closed w4 = [o1, i0] @ closed w0"
    using close_all_frame [of ?S w "[i0, o1]"] by (auto simp: keeps_open_def w1_def intro: within_trans)
  then have "answers_with [o0, i1, o1, i0] sock w0 (close_all [i1, o0] w4)"
    using close_all_frame [of ?S w4 "[i1, o0]"] assms(2)
    by (auto simp: answers_with_def insert_commute intro: within_trans)
  moreover have "cgi_father prog sock path m q cl (i0, i1) (o0, o1) w = close_all [i1, o0] w4"
    by (simp add: cgi_father_def w1_def w2_def w3_def w4_def Let_def)
  ultimately show ?thesis by auto
qed

lemma cgi_spawn_answers: "\<exists>fds. answers_with fds sock w (cgi_spawn prog sock path m q cl w)"
proof -
  obtain r w3 where s: "sys_write sock ok_header w = (r, w3)" by force
  obtain pi w4 where p1: "sys_pipe w3 = (pi, w4)" by force
  obtain po w5 where p2: "sys_pipe w4 = (po, w5)" by force
  obtain pid w6 where f: "sys_call w5 = (pid, w6)" by force
  have k: "keeps_open S w w3" "keeps_open S w w4" "keeps_open S w w5" "keeps_open S w w6" if "sock \<in> S" for S
    using keeps_open_calls(3) [OF s that] keeps_open_calls(4) [OF p1] keeps_open_calls(4) [OF p2]
      keeps_open_calls(1) [OF f] by (meson keeps_open_trans)+
  have g: "given w3 \<subseteq> given w" "given w4 \<subseteq> given w"
    using k(1,2) [of UNIV] by (auto simp: keeps_open_def dest: given_later)
  note d = cgi_spawn_def s p1 p2 f
  show ?thesis
  proof (cases pi)
    case None
    then have "answers_with [] sock w (cgi_spawn prog sock path m q cl w)"
      using k(2) [of "{sock}"] by (simp add: d answers_with_def keeps_open_def)
    then show ?thesis ..
  next
    case (Some i)
    note i = this
    obtain i0 i1 where ii: "i = (i0, i1)" by force
    have gi: "{i0, i1} \<subseteq> given w" using given_pipe [of w3 i0 i1] p1 i ii g(1) by blast
    show ?thesis
    proof (cases po)
      case None
      have "answers_with (rev [i0, i1]) sock w (close_all [i0, i1] w5)"
        using gi by (intro answers_closing k(3)) auto
      then show ?thesis using None i ii by (auto simp: d)
    next
      case (Some oo)
      obtain o0 o1 where o: "oo = (o0, o1)" by force
      have go: "{i0, i1, o0, o1} \<subseteq> given w" using given_pipe [of w4 o0 o1] p2 Some o g(2) gi by blast
      have "answers_with (rev [i0, i1, o0, o1]) sock w (close_all [i0, i1, o0, o1] w6)"
        using go by (intro answers_closing k(4)) auto
      moreover obtain fds where "answers_with fds sock w (cgi_father prog sock path m q cl (i0, i1) (o0, o1) w6)"
        using cgi_father_answers [OF k(4) go] by blast
      ultimately show ?thesis using Some o i ii by (cases "pid < 0") (auto simp: d)
    qed
  qed
qed

lemma exe_cgi_answers:
  assumes "exe_cgi prog sock path m q w = Some w'"
  shows "\<exists>fds. answers_with fds sock w w'"
proof -
  obtain w1 where "(if strcasecmp m ''GET'' = 0 then clear_header sock w else Some w) = Some w1"
    using assms by (cases "if strcasecmp m ''GET'' = 0 then clear_header sock w else Some w") (auto simp: exe_cgi_def)
  note w1 = this
  obtain cl w2 where "(if strcasecmp m ''POST'' = 0 then post_headers sock 0 w1 else Some (0, w1)) = Some (cl, w2)"
    using assms w1 by (auto simp: exe_cgi_def split: option.splits)
  note w2 = this
  have h: "takes_only sock w w1" "takes_only sock w1 w2" "w' = w2 \<or> w' = cgi_spawn prog sock path m q cl w2"
    using assms w1 w2 by (auto simp: exe_cgi_def split: if_splits
        intro: clear_header_takes_only post_headers_takes_only)
  then have k: "keeps_open {sock} w w2" by (auto simp: takes_only_def intro: keeps_open_trans)
  from h(3) show ?thesis
  proof
    assume "w' = w2"
    then have "answers_with [] sock w w'" using k by (simp add: answers_with_def keeps_open_def)
    then show ?thesis ..
  qed (use cgi_spawn_answers keeps_open_answers [OF k] in blast)
qed

lemma serve_file_answers:
  assumes "serve_file fs prog sock m q cgi path st w = Some w'"
  shows "\<exists>w1 fds. answers_with fds sock w w1 \<and> w' = sys_close sock w1"
proof -
  obtain w1 where w1: "w' = sys_close sock w1"
    and "(\<exists>p. exe_cgi prog sock p m q w = Some w1) \<or>
      (\<exists>p n w2. clear_header sock w = Some w2 \<and> w1 = echo_html fs sock (Some p) n w2)"
    using assms by (auto simp: serve_file_def split: if_splits option.splits)
  then obtain fds where "answers_with fds sock w w1"
    using exe_cgi_answers echo_html_answers clear_header_takes_only keeps_open_answers
    unfolding takes_only_def by metis
  with w1 show ?thesis by blast
qed

text \<open>A request is either dropped, with nothing sent and nothing closed, or answered and closed.\<close>

lemma accept_request_cases:
  assumes "accept_request fs prog sock w = Some w'"
  obtains (dropped) "takes_only sock w w'" | (answered) fds w1 where "answers_with fds sock w w1" "w' = sys_close sock w1"
proof -
  obtain r buf w1 where g: "get_line sock (Some (replicate BUF_SIZE NUL)) BUF_SIZE w = Some (r, buf, w1)"
    using assms by (auto simp: accept_request_def split: option.splits)
  have t: "takes_only sock w w1" using get_line_takes_only [OF g] by (simp add: BUF_SIZE_def)
  have "takes_only sock w1 w' \<or> (\<exists>m q cgi path st. serve_file fs prog sock m q cgi path st w1 = Some w')"
    using assms g by (auto simp: accept_request_def split: if_splits option.splits prod.splits
        dest: clear_header_takes_only)
  then show ?thesis
    using t serve_file_answers keeps_open_answers dropped answered takes_only_trans
    unfolding takes_only_def by metis
qed

section \<open>Isolation\<close>

text \<open>C22: Serving a request touches nothing but its own connection: whatever the client sent and whatever the
  kernel answers, when \<open>accept_request\<close> returns it has either dropped the request, sending nothing and
  closing nothing, or closed the connection last, after closing descriptors that the kernel gave it during
  the call, and nothing else; and no bytes were taken from or sent to any other descriptor.\<close>

theorem accept_request_isolated:
  assumes "accept_request fs prog sock w = Some w'"
  shows "\<exists>fds. (fds = [] \<and> outq w' = outq w \<or> fds \<noteq> [] \<and> hd fds = sock) \<and> closed w' = fds @ closed w \<and>
    set (tl fds) \<subseteq> given w \<and> (\<forall>g. g \<noteq> sock \<and> g \<notin> set fds \<longrightarrow> inq w' g = inq w g \<and> outq w' g = outq w g)"
  using assms
proof (cases rule: accept_request_cases)
  case dropped
  then show ?thesis by (intro exI [of _ "[]"]) (auto simp: takes_only_def keeps_open_def within_def)
next
  case (answered fds w1)
  then show ?thesis by (intro exI [of _ "sock # fds"]) (auto simp: answers_with_def within_def sys_close_def)
qed

lemma head_page_answered:
  "\<exists>w'. accept_request site echo_prog 4 (os_with 5000 (request ''HEAD'' ''/a.html'' [''Host: h''] @ [])) = Some w' \<and>
    outq w' 4 \<noteq> []"
proof -
  let ?w = "os_with 5000 (request ''HEAD'' ''/a.html'' [''Host: h''] @ [])"
  have "\<exists>w'. accept_request site echo_prog 4 ?w = Some w' \<and>
      outq w' = (outq ?w)(4 := outq ?w 4 @ ok_header @ take 5 (vfs_content site ''htdocs/a.html'')) \<and>
      inq w' 4 = [] \<and> (\<exists>k \<ge> tick ?w. closed w' = 4 # sr_ret (ans ?w k) # closed ?w)"
    by (rule accept_request_plain [OF os_with_willing(1) _ example_requests(1),
            where st = "\<lparr>st_mode = 33188, st_size = 5\<rparr>"])
      (simp_all add: os_with_fields example_paths site_def length_ok_header strcasecmp_def tolower_def uchar_def)
  moreover have "ok_header \<noteq> []" using length_ok_header by auto
  ultimately show ?thesis by auto
qed

theorem accept_request_isolated_witness:
  "\<exists>w' fds. accept_request site echo_prog 4 (os_with 5000 (request ''HEAD'' ''/a.html'' [''Host: h''] @ [])) = Some w' \<and>
     closed w' = 4 # fds \<and> (7 \<in> set fds \<or> outq w' 7 = [])"
proof -
  let ?w = "os_with 5000 (request ''HEAD'' ''/a.html'' [''Host: h''] @ [])"
  obtain w' where w': "accept_request site echo_prog 4 ?w = Some w'" "outq w' 4 \<noteq> []"
    using head_page_answered by blast
  obtain fds where fds: "fds = [] \<and> outq w' = outq ?w \<or> fds \<noteq> [] \<and> hd fds = 4" "closed w' = fds @ closed ?w" "set (tl fds) \<subseteq> given ?w"
    "\<forall>g. g \<noteq> 4 \<and> g \<notin> set fds \<longrightarrow> inq w' g = inq ?w g \<and> outq w' g = outq ?w g"
    using accept_request_isolated [OF w'(1)] by blast
  then obtain rest where "fds = 4 # rest" using w'(2) by (cases fds) (auto simp: os_with_fields)
  with fds(2) fds(4) [rule_format, of 7] w'(1) show ?thesis by (auto simp: os_with_fields)
qed

end
