(* ===== verification/Http_Service.thy ===== *)
theory Http_Service
  imports Http_Server_Spec Http_Frame
begin

text \<open>
  The server at work on real requests: the event loop of \<open>httpd.c\<close>, its thread pool and
  \<open>accept_request\<close> as one system. \<open>Http_Server\<close> leaves open what a worker does with a connection and
  chooses every kernel answer anew; here one kernel goes through all steps, and a worker that was handed
  a connection runs \<open>accept_request\<close> on it.

  A request is one step of this system. Its system calls may interleave with those of other threads in
  the program, but by \<open>accept_request_cases\<close> they touch no descriptor another thread uses.
\<close>

section \<open>The composed system\<close>

text \<open>
  \<open>sent fd\<close> is what the peer now or next behind \<open>fd\<close> sends, \<open>answers\<close> the finished requests, last first:
  the connection, the bytes its peer sent and the bytes it was sent.
\<close>

record service =
  serv :: server
  kern :: os
  sent :: "int \<Rightarrow> string"
  answers :: "(int \<times> string \<times> string) list"

text \<open>A closed descriptor names nothing until the kernel hands it out again, for another stream.\<close>

definition renew :: "int list \<Rightarrow> (int \<Rightarrow> string) \<Rightarrow> service \<Rightarrow> service" where
  "renew fds str x = x\<lparr>
     kern := (kern x)\<lparr>inq := override_on (inq (kern x)) str (set fds),
                      outq := override_on (outq (kern x)) (\<lambda>_. []) (set fds)\<rparr>,
     sent := override_on (sent x) str (set fds)\<rparr>"

text \<open>A worker is done with a connection; it has closed it if it is among the closed descriptors.\<close>

definition finish_conn :: "int \<Rightarrow> int list \<Rightarrow> server \<Rightarrow> server" where
  "finish_conn fd fds s =
     (let s' = s\<lparr>running := remove1 fd (Http_Server.running s)\<rparr>
      in if fd \<in> set fds then close_conn fd s' else s')"

text \<open>
  The descriptors a request closes before its own connection are those \<open>open\<close> and \<open>pipe\<close> returned; the
  kernel never returns one that is in use.
\<close>

definition unused :: "int list \<Rightarrow> server \<Rightarrow> bool" where
  "unused fds s \<longleftrightarrow> set fds \<inter> insert (listenfd s) (opened s) = {}"

inductive service_step ::
  "vfs \<Rightarrow> (string \<Rightarrow> string list option \<Rightarrow> string \<Rightarrow> string) \<Rightarrow> service \<Rightarrow> service \<Rightarrow> bool"
  for fs prog where
  main_waits: "\<not> halted (serv x) \<Longrightarrow> events (serv x) = [] \<Longrightarrow>
    My_epoll_wait MAXEVENTS rdy (interest (serv x)) (kern x) = (n, evs, es, w') \<Longrightarrow> 0 \<le> n \<Longrightarrow>
    service_step fs prog x (x\<lparr>serv := (serv x)\<lparr>interest := es, events := evs\<rparr>, kern := w'\<rparr>)"
| main_stops: "\<not> halted (serv x) \<Longrightarrow> events (serv x) = [] \<Longrightarrow> pool_free (serv x) \<Longrightarrow>
    My_epoll_wait MAXEVENTS rdy (interest (serv x)) (kern x) = (n, evs, es, w1) \<Longrightarrow> n < 0 \<Longrightarrow>
    threadpool_destroy Main (tp (serv x)) False w1 = (r, pool, wk, w2) \<Longrightarrow>
    service_step fs prog x (x\<lparr>serv := (serv x)\<lparr>tp := pool, halted := True\<rparr>, kern := w2\<rparr>)"
| main_handles: "\<not> halted (serv x) \<Longrightarrow> events (serv x) = ev # evs \<Longrightarrow> for_pool ev (serv x) \<longrightarrow> pool_free (serv x) \<Longrightarrow>
    handle_event ev ((serv x)\<lparr>events := evs\<rparr>) (kern x) = (s', w') \<Longrightarrow> closed w' = fds @ closed (kern x) \<Longrightarrow>
    service_step fs prog x (renew fds str (x\<lparr>serv := s', kern := w'\<rparr>))"
| worker_takes: "tp (serv x) = Some p \<Longrightarrow> lock p = None \<Longrightarrow> worker_section p = (Run fd, p') \<Longrightarrow>
    service_step fs prog x (x\<lparr>serv := (serv x)\<lparr>tp := Some p', running := fd # Http_Server.running (serv x)\<rparr>\<rparr>)"
| worker_serves: "fd \<in> set (Http_Server.running (serv x)) \<Longrightarrow> accept_request fs prog fd (kern x) = Some w' \<Longrightarrow>
    closed w' = fds @ closed (kern x) \<Longrightarrow> unused (tl fds) (serv x) \<Longrightarrow>
    service_step fs prog x (renew fds str (x\<lparr>serv := finish_conn fd fds (serv x), kern := w',
      answers := (fd, sent x fd, outq w' fd) # answers x\<rparr>))"
| client_connects: "service_step fs prog x (x\<lparr>serv := (serv x)\<lparr>backlog := Suc (backlog (serv x))\<rparr>\<rparr>)"

inductive_cases service_stepE: "service_step fs prog x x'"

definition service_begin :: "service \<Rightarrow> bool" where
  "service_begin x \<longleftrightarrow>
     (\<exists>inet_addr argv n w. server_start inet_addr argv n w = Some (Inr (serv x, kern x))) \<and>
     sent x = inq (kern x) \<and> outq (kern x) = (\<lambda>_. []) \<and> answers x = []"

lemma renew_fields [simp]:
  "serv (renew fds str x) = serv x" "answers (renew fds str x) = answers x"
  "ans (kern (renew fds str x)) = ans (kern x)"
  "inq (kern (renew fds str x)) fd = (if fd \<in> set fds then str fd else inq (kern x) fd)"
  "outq (kern (renew fds str x)) fd = (if fd \<in> set fds then [] else outq (kern x) fd)"
  "sent (renew fds str x) fd = (if fd \<in> set fds then str fd else sent x fd)"
  by (simp_all add: renew_def override_on_def)

section \<open>It is the event loop\<close>

text \<open>Every step of the composed system is a step of the event loop on its own.\<close>

lemma finish_conn_step: "fd \<in> set (Http_Server.running s) \<Longrightarrow> server_step s (finish_conn fd fds s)"
  by (simp add: finish_conn_def Let_def server_step.closes server_step.abandons)

lemma service_step_server: "service_step fs prog x x' \<Longrightarrow> server_step (serv x) (serv x')"
  by (erule service_stepE) (auto intro: server_step.intros finish_conn_step)

interpretation sim: simulated_invariant service_begin "service_step fs prog" server_begin server_step serv server_inv
  for fs prog
  by unfold_locales (unfold service_begin_def server_begin_def, blast, rule service_step_server)

section \<open>The main thread touches no stream\<close>

text \<open>A call that may only change the clock, \<open>errno\<close>, the flags and the number of allocated blocks.\<close>

definition streams_kept :: "os \<Rightarrow> os \<Rightarrow> bool" where
  "streams_kept w w' \<longleftrightarrow> ans w' = ans w \<and> inq w' = inq w \<and> outq w' = outq w \<and> closed w' = closed w"

lemma streams_kept_refl [simp]: "streams_kept w w"
  by (simp add: streams_kept_def)

lemma streams_kept_trans: "streams_kept w w1 \<Longrightarrow> streams_kept w1 w2 \<Longrightarrow> streams_kept w w2"
  by (simp add: streams_kept_def)

lemma streams_kept_calls:
  "sys_call w = (r, w') \<Longrightarrow> streams_kept w w'" "sys_ok w = (b, w') \<Longrightarrow> streams_kept w w'"
  "sys_malloc w = (b, w') \<Longrightarrow> streams_kept w w'" "activate_nonblock fd w = (r, w') \<Longrightarrow> streams_kept w w'"
  by (auto simp: streams_kept_def sys_ok_def sys_malloc_def sys_call_def activate_nonblock_def
      sys_getfl_def sys_setfl_def Let_def split: prod.splits if_splits)

lemma My_epoll_kept:
  "My_epoll_wait n rdy es w = (r, evs, es', w') \<Longrightarrow> streams_kept w w'"
  "My_epoll_add fd ev es w = (es', w') \<Longrightarrow> streams_kept w w'"
  by (auto simp: My_epoll_wait_def My_epoll_add_def split: prod.splits if_splits dest: streams_kept_calls)

lemma threadpool_add_kept: "threadpool_add t p task w = (r, p', wk, w') \<Longrightarrow> streams_kept w w'"
  by (auto simp: threadpool_add_def add_section_def add_out_def split: option.splits prod.splits if_splits
      dest!: streams_kept_calls intro: streams_kept_trans)

lemma join_all_kept: "join_all n err w = (r, w') \<Longrightarrow> streams_kept w w'"
  by (induction n arbitrary: err w)
    (auto split: prod.splits dest!: streams_kept_calls intro: streams_kept_trans)

lemma threadpool_free_kept: "threadpool_free p w = (r, p', w') \<Longrightarrow> streams_kept w w'"
proof -
  have "streams_kept v ((sys_free ^^ n) v)" for n v
    by (induction n) (simp_all add: streams_kept_def sys_free_def)
  then show "threadpool_free p w = (r, p', w') \<Longrightarrow> streams_kept w w'"
    by (auto simp: threadpool_free_def streams_kept_def sys_free_def split: option.splits if_splits)
qed

lemma threadpool_destroy_kept: "threadpool_destroy t p g w = (r, p', wk, w') \<Longrightarrow> streams_kept w w'"
  by (auto simp: threadpool_destroy_def destroy_section_def destroy_finish_def Let_def
      dest!: streams_kept_calls join_all_kept threadpool_free_kept
      split: option.splits prod.splits if_splits; simp add: streams_kept_def)

lemma accept_loop_kept: "accept_loop s w = (s', w') \<Longrightarrow> streams_kept w w'"
proof (induction s w rule: accept_loop.induct)
  case (1 s w)
  obtain conn w1 where a: "accept_conn s w = (conn, w1)" by force
  have k1: "streams_kept w w1"
    using a by (auto simp: accept_conn_def split: prod.splits if_splits dest: streams_kept_calls)
  show ?case
  proof (cases "conn < 0")
    case True
    with a k1 "1.prems" show ?thesis by (subst (asm) accept_loop.simps) simp
  next
    case False
    obtain s1 w2 where r: "register_conn conn s w1 = (s1, w2)" by force
    have "streams_kept w1 w2"
      using r by (auto simp: register_conn_def split: prod.splits
          dest!: streams_kept_calls My_epoll_kept intro: streams_kept_trans)
    moreover have "streams_kept w2 w'"
      using "1.IH" [OF a [symmetric] False r [symmetric]] "1.prems" a False r
      by (subst (asm) (2) accept_loop.simps) simp
    ultimately show ?thesis using k1 by (blast intro: streams_kept_trans)
  qed
qed

text \<open>Handling an event closes a connection that is in error, and touches nothing else.\<close>

lemma handle_event_streams:
  assumes "handle_event ev s w = (s', w')"
  obtains (kept) "streams_kept w w'"
  | (closes) "w' = sys_close (ev_fd ev) w" "s' = close_conn (ev_fd ev) s"
  using assms
  by (auto simp: handle_event_def Let_def split: if_splits prod.splits dest: accept_loop_kept threadpool_add_kept)

section \<open>Requests arrive whole\<close>

text \<open>Nothing was taken from the stream of \<open>fd\<close> and nothing was sent to it.\<close>

definition whole :: "service \<Rightarrow> int \<Rightarrow> bool" where
  "whole x fd \<longleftrightarrow> inq (kern x) fd = sent x fd \<and> outq (kern x) fd = []"

lemma whole_kept: "whole x fd \<Longrightarrow> streams_kept (kern x) (kern x') \<Longrightarrow> sent x' = sent x \<Longrightarrow> whole x' fd"
  by (simp add: whole_def streams_kept_def)

lemma finish_conn_forgets:
  assumes "server_inv s" "fd \<in> set (Http_Server.running s)"
  shows "forgotten fd (finish_conn fd [] s)"
proof -
  have "distinct (busy s)" "fd \<in> opened s" "\<not> armed (interest s) fd"
    using assms by (auto simp: server_inv_def busy_def)
  with assms(2) show ?thesis
    by (auto simp: forgotten_def finish_conn_def busy_def queued_def reported_def)
qed

lemma serve_whole:
  assumes "server_inv (serv x)" "fd \<in> set (Http_Server.running (serv x))"
    and "accept_request fs prog fd (kern x) = Some w'" "closed w' = fds @ closed (kern x)"
    and "whole x g" "\<not> forgotten g (finish_conn fd fds (serv x))" "g \<notin> set fds"
  shows "inq w' g = sent x g \<and> outq w' g = []"
  using assms(3)
proof (cases rule: accept_request_cases)
  case dropped
  then have "fds = []" using assms(4) by (simp add: takes_only_def keeps_open_def)
  then have "g \<noteq> fd" using assms(6) finish_conn_forgets [OF assms(1,2)] by blast
  with dropped assms(5) show ?thesis by (simp add: takes_only_def keeps_open_def within_def whole_def)
next
  case (answered rest w1)
  then have "fds = fd # rest" using assms(4) by (simp add: answers_with_def sys_close_def)
  with answered assms(5,7) show ?thesis by (simp add: answers_with_def within_def whole_def sys_close_def)
qed

lemma service_step_whole:
  assumes "service_step fs prog x x'" "server_inv (serv x)" "whole x g" "\<not> forgotten g (serv x')"
  shows "whole x' g"
  using assms(1)
proof (cases rule: service_step.cases)
  case (main_waits rdy n evs es w')
  then show ?thesis using My_epoll_kept(1) [OF main_waits(4)] by (intro whole_kept [OF assms(3)]) simp_all
next
  case (main_stops rdy n evs es w1 r pool wk w2)
  then show ?thesis
    using streams_kept_trans [OF My_epoll_kept(1) threadpool_destroy_kept] by (intro whole_kept [OF assms(3)]) auto
next
  case (main_handles ev evs s' w' fds str)
  from main_handles(5) show ?thesis
  proof (cases rule: handle_event_streams)
    case kept
    then have "fds = []" using main_handles(6) by (simp add: streams_kept_def)
    with kept assms(3) show ?thesis by (simp add: main_handles(1) whole_def streams_kept_def)
  next
    case closes
    with assms(3) show ?thesis by (simp add: main_handles(1) whole_def sys_close_def)
  qed
next
  case (worker_serves fd w' fds str)
  from serve_whole [OF assms(2) worker_serves(2-4) assms(3)] assms(4) show ?thesis
    by (simp add: worker_serves(1) whole_def)
qed (use assms(3) in \<open>simp_all add: whole_def\<close>)

lemma service_step_ans: "service_step fs prog x x' \<Longrightarrow> ans (kern x') = ans (kern x)"
proof (erule service_stepE, goal_cases)
  case (3 ev evs s' w' fds str)
  from 3(5) show ?case
    by (cases rule: handle_event_streams) (simp_all add: 3(1) streams_kept_def sys_close_def)
next
  case (5 fd w' fds str)
  from 5(3) show ?case
    by (cases rule: accept_request_cases) (simp_all add: 5(1) takes_only_def keeps_open_def answers_with_def within_def sys_close_def)
qed (auto simp: streams_kept_def dest!: My_epoll_kept threadpool_destroy_kept)

text \<open>Every request on record was served by \<open>accept_request\<close> from the peer's first byte on, under the
  same kernel.\<close>

definition served :: "vfs \<Rightarrow> (string \<Rightarrow> string list option \<Rightarrow> string \<Rightarrow> string) \<Rightarrow> (nat \<Rightarrow> sysres) \<Rightarrow>
    int \<Rightarrow> string \<Rightarrow> string \<Rightarrow> bool" where
  "served fs prog oracle fd rq out \<longleftrightarrow>
     (\<exists>w w'. ans w = oracle \<and> inq w fd = rq \<and> outq w fd = [] \<and>
        accept_request fs prog fd w = Some w' \<and> outq w' fd = out)"

definition service_inv ::
  "vfs \<Rightarrow> (string \<Rightarrow> string list option \<Rightarrow> string \<Rightarrow> string) \<Rightarrow> service \<Rightarrow> bool" where
  "service_inv fs prog x \<longleftrightarrow> (\<forall>fd. \<not> forgotten fd (serv x) \<longrightarrow> whole x fd) \<and>
     (\<forall>(fd, rq, out) \<in> set (answers x). served fs prog (ans (kern x)) fd rq out)"

lemma service_step_answers:
  assumes "service_step fs prog x x'" "server_inv (serv x)" "service_inv fs prog x" "(fd, rq, out) \<in> set (answers x')"
  shows "served fs prog (ans (kern x)) fd rq out"
proof (cases "(fd, rq, out) \<in> set (answers x)")
  case True
  with assms(3) show ?thesis by (auto simp: service_inv_def)
next
  case False
  from assms(1) False assms(4) obtain w' where w': "fd \<in> set (Http_Server.running (serv x))"
    "accept_request fs prog fd (kern x) = Some w'" "rq = sent x fd" "out = outq w' fd"
    by (cases rule: service_step.cases) auto
  then have "\<not> forgotten fd (serv x)" by (simp add: forgotten_def busy_def)
  then have "whole x fd" using assms(3) by (simp add: service_inv_def)
  with w' show ?thesis by (auto simp: served_def whole_def)
qed

lemma service_inv_step:
  assumes "server_inv (serv x)" "service_inv fs prog x" "service_step fs prog x x'"
  shows "service_inv fs prog x'"
  unfolding service_inv_def
proof (intro conjI allI impI ballI)
  fix fd
  assume nf: "\<not> forgotten fd (serv x')"
  then have "\<not> forgotten fd (serv x)"
    using forgotten_step [OF assms(1) _ service_step_server [OF assms(3)]] by blast
  with assms(2) have "whole x fd" by (simp add: service_inv_def)
  from service_step_whole [OF assms(3,1) this nf] show "whole x' fd" .
next
  fix a
  assume "a \<in> set (answers x')"
  then show "case a of (fd, rq, out) \<Rightarrow> served fs prog (ans (kern x')) fd rq out"
    using service_step_answers [OF assms(3,1,2)] by (auto simp: service_step_ans [OF assms(3)])
qed

interpretation svc: relative_invariant service_begin "service_step fs prog" "\<lambda>x. server_inv (serv x)" "service_inv fs prog"
  for fs prog
proof unfold_locales
  show "service_begin x \<Longrightarrow> service_inv fs prog x" for x by (simp add: service_begin_def service_inv_def whole_def)
qed (rule service_inv_step)

text \<open>While a connection stays open, its peer stays the same.\<close>

lemma sent_stable:
  assumes "service_step fs prog x x'" "fd \<in> opened (serv x)" "fd \<in> opened (serv x')"
  shows "sent x' fd = sent x fd"
  using assms(1)
proof (cases rule: service_step.cases)
  case (main_handles ev evs s' w' fds str)
  from main_handles(5) show ?thesis
  proof (cases rule: handle_event_streams)
    case kept
    then have "fds = []" using main_handles(6) by (simp add: streams_kept_def)
    then show ?thesis by (simp add: main_handles(1))
  next
    case closes
    with assms(3) main_handles(6) show ?thesis by (auto simp: main_handles(1) sys_close_def)
  qed
next
  case (worker_serves g w' fds str)
  have "fds = [] \<or> hd fds = g"
    using worker_serves(3)
    by (cases rule: accept_request_cases) (use worker_serves(4) in \<open>auto simp: takes_only_def keeps_open_def answers_with_def sys_close_def\<close>)
  then have "fd \<notin> set fds"
    using worker_serves(5) assms(2,3)
    by (cases fds) (auto simp: worker_serves(1) unused_def finish_conn_def Let_def split: if_splits)
  then show ?thesis by (simp add: worker_serves(1))
qed simp_all

section \<open>Serving is always possible\<close>

text \<open>The kernel gives out only descriptors that no connection uses.\<close>

definition gives_unused :: "service \<Rightarrow> bool" where
  "gives_unused x \<longleftrightarrow> given (kern x) \<inter> insert (listenfd (serv x)) (opened (serv x)) = {}"

lemma serve_step:
  assumes "fd \<in> set (Http_Server.running (serv x))" "gives_unused x" "accept_request fs prog fd (kern x) = Some w'"
  obtains x' where "service_step fs prog x x'" "answers x' = (fd, sent x fd, outq w' fd) # answers x"
    "Http_Server.running (serv x') = remove1 fd (Http_Server.running (serv x))"
    "fd \<notin> opened (serv x') \<or> outq w' = outq (kern x)"
proof -
  obtain fds where fds: "closed w' = fds @ closed (kern x)" "unused (tl fds) (serv x)"
    "fd \<in> set fds \<or> outq w' = outq (kern x)"
    using assms(3)
  proof (cases rule: accept_request_cases)
    case dropped
    then show ?thesis by (intro that [of "[]"]) (simp_all add: takes_only_def keeps_open_def unused_def)
  next
    case (answered rest w1)
    then show ?thesis
      using assms(2) by (intro that [of "fd # rest"]) (auto simp: answers_with_def sys_close_def unused_def gives_unused_def)
  qed
  show ?thesis
    by (rule that [OF worker_serves [OF assms(1,3) fds(1,2)]]) (use fds(3) in \<open>auto simp: finish_conn_def Let_def\<close>)
qed

section \<open>Pages\<close>

text \<open>A request for a page, and a page the server sends as it is in writes of up to \<open>n\<close> bytes.\<close>

definition page_request :: "string \<Rightarrow> string \<Rightarrow> string list \<Rightarrow> bool" where
  "page_request m u hs \<longleftrightarrow>
     well_formed m u hs \<and> 0 \<le> strcasecmp m ''GET'' \<and> strcasecmp m ''POST'' \<noteq> 0 \<and> CHR ''?'' \<notin> set u"

definition plain_page :: "vfs \<Rightarrow> nat \<Rightarrow> string \<Rightarrow> bool" where
  "plain_page fs n u \<longleftrightarrow>
     (let content = vfs_content fs (doc_path u)
      in length ok_header \<le> n \<and> length content \<le> n \<and>
         (case vfs_stat fs (doc_path u) of
            None \<Rightarrow> False
          | Some st \<Rightarrow> \<not> S_ISDIR (st_mode st) \<and> \<not> any_exec (st_mode st) \<and> st_size st = int (length content) \<and>
              st_size st < 2 ^ 32))"

lemma accept_request_page:
  assumes "willing n w" "page_request m u hs" "plain_page fs n u" "inq w sock = request m u hs @ body"
  shows "\<exists>w'. accept_request fs prog sock w = Some w' \<and>
    outq w' sock = outq w sock @ ok_header @ vfs_content fs (doc_path u) \<and>
    (\<exists>k \<ge> tick w. closed w' = sock # sr_ret (ans w k) # closed w)"
proof -
  let ?c = "vfs_content fs (doc_path u)"
  obtain st where st: "vfs_stat fs (doc_path u) = Some st" "\<not> S_ISDIR (st_mode st)" "\<not> any_exec (st_mode st)"
    "st_size st = int (length ?c)" "st_size st < 2 ^ 32" and n: "length ok_header \<le> n" "length ?c \<le> n"
    using assms(3) by (auto simp: plain_page_def Let_def split: option.splits)
  have k: "length ?c = nat (take_bit 32 (st_size st))" using st(4,5) by (simp add: take_bit_int_eq_self)
  have m: "well_formed m u hs" "0 \<le> strcasecmp m ''GET''" "strcasecmp m ''POST'' \<noteq> 0" "CHR ''?'' \<notin> set u"
    using assms(2) by (auto simp: page_request_def)
  from accept_request_plain [OF assms(1) n(1) m(1) assms(4) m(2-4) st(1) _ k, of "doc_path u" prog] st(2,3) n(2)
  show ?thesis by auto
qed

text \<open>A connection in a worker's hands has the descriptors a program's pipes need.\<close>

lemma running_ready:
  assumes "service_inv fs prog x" "server_inv (serv x)" "fd \<in> set (Http_Server.running (serv x))" "gives_unused x"
  shows "inq (kern x) fd = sent x fd" "outq (kern x) fd = []" "fresh_fds fd (kern x)"
proof -
  have "whole x fd" using assms(1,3) by (auto simp: service_inv_def forgotten_def busy_def)
  then show "inq (kern x) fd = sent x fd" "outq (kern x) fd = []" by (simp_all add: whole_def)
  have g: "sr_ret (ans (kern x) k) \<notin> opened (serv x)" if "tick (kern x) \<le> k" for k
    using assms(4) that by (auto simp: gives_unused_def given_def)
  moreover have "fd \<in> opened (serv x)" using assms(2,3) by (simp add: server_inv_def busy_def)
  moreover have "outq (kern x) h = []" if "h \<notin> opened (serv x)" for h
    using assms(1) that by (auto simp: service_inv_def forgotten_def whole_def)
  ultimately show "fresh_fds fd (kern x)" unfolding fresh_fds_def by metis
qed

section \<open>An example run\<close>

text \<open>A kernel that answers its \<open>k\<close>-th call with \<open>5000 + k\<close>, and a peer that sends \<open>s\<close>.\<close>

definition ramp :: "string \<Rightarrow> os" where
  "ramp s = (os_with 0 s)\<lparr>ans := \<lambda>k. \<lparr>sr_ret = 5000 + int k, sr_errno = 0\<rparr>\<rparr>"

definition ramp_at :: "string \<Rightarrow> nat \<Rightarrow> os \<Rightarrow> bool" where
  "ramp_at s t w \<longleftrightarrow> ans w = ans (ramp s) \<and> tick w = t \<and> inq w = (\<lambda>_. s) \<and> outq w = (\<lambda>_. []) \<and> 0 \<le> flags w 5020 \<and> closed w = []"

lemma ramp_call:
  assumes "ramp_at s t w"
  shows "sys_call w = (5000 + int t, w\<lparr>tick := Suc t\<rparr>)" "ramp_at s (Suc t) (w\<lparr>tick := Suc t\<rparr>)"
  using assms by (simp_all add: ramp_at_def ramp_def sys_call_def)

text \<open>The server with one connection waiting, and after it was handed to a worker.\<close>

definition demo_listening :: server where
  "demo_listening = \<lparr>listenfd = 5000,
     interest = (\<lambda>_. None)(5000 \<mapsto> (\<lparr>ev_events = EPOLLIN OR EPOLLET, ev_fd = 5000\<rparr>, True)),
     events = [], tp = Some (new_pool\<lparr>thread_count := 5, start_size := 5\<rparr>), count = 0, running = [],
     halted = False, opened = {}, backlog = 1\<rparr>"

definition demo_accepted :: server where
  "demo_accepted = demo_listening\<lparr>count := 1, opened := {5020}, backlog := 0,
     interest := (interest demo_listening)(5020 \<mapsto> (conn_event 5020, True))\<rparr>"

definition demo_serving :: server where
  "demo_serving = demo_accepted\<lparr>running := [5020],
     interest := (interest demo_listening)(5020 \<mapsto> (conn_event 5020, False))\<rparr>"

lemma demo_start:
  "\<exists>w. server_start (\<lambda>_. 0) [''httpd'', ''0.0.0.0'', ''8080''] 1 (ramp s) = Some (Inr (demo_listening, w)) \<and> ramp_at s 19 w"
  by (simp add: server_start_def Server_init_def sys_call_def sys_bind_def os_with_def activate_nonblock_def
      sys_getfl_def sys_setfl_def My_epoll_create_def My_epoll_add_def sys_malloc_def threadpool_init_def sys_ok_def
      ramp_def new_pool_def demo_listening_def ramp_at_def eval_nat_numeral)

lemma demo_wait:
  assumes "ramp_at s t (kern x)" "\<not> halted (serv x)" "events (serv x) = []"
    "deliver [(fd, 1)] (interest (serv x)) = ([ev], es)"
  shows "\<exists>w. service_step fs prog x (x\<lparr>serv := (serv x)\<lparr>interest := es, events := [ev]\<rparr>, kern := w\<rparr>) \<and> ramp_at s (Suc t) w"
proof -
  have "My_epoll_wait MAXEVENTS [(fd, 1)] (interest (serv x)) (kern x) = (1, [ev], es, (kern x)\<lparr>tick := Suc t\<rparr>)"
    by (simp add: My_epoll_wait_def ramp_call [OF assms(1)] MAXEVENTS_def assms(4) del: deliver.simps)
  from main_waits [OF assms(2,3) this] ramp_call(2) [OF assms(1)] show ?thesis by auto
qed

lemma demo_accept:
  assumes "ramp_at s 20 w"
  shows "\<exists>w'. accept_loop demo_listening w = (demo_accepted, w') \<and> ramp_at s 25 w'"
proof -
  let ?w = "\<lambda>n. w\<lparr>flags := (flags w)(5020 := flags w 5020 OR 2048), tick := n\<rparr>"
  have "accept_loop demo_listening w = accept_loop demo_accepted (?w 24)"
    using assms
    by (subst accept_loop.simps)
      (simp add: accept_conn_def sys_call_def ramp_at_def ramp_def register_conn_def
        activate_nonblock_def sys_getfl_def sys_setfl_def My_epoll_add_def demo_listening_def demo_accepted_def)
  moreover have "accept_loop demo_accepted (?w 24) = (demo_accepted, ?w 25)"
    using assms
    by (subst accept_loop.simps) (simp add: accept_conn_def sys_call_def ramp_at_def ramp_def demo_accepted_def)
  ultimately show ?thesis using assms by (simp add: ramp_at_def)
qed

lemma demo_queue:
  assumes "ramp_at s 26 w" "tp demo = Some (new_pool\<lparr>thread_count := 5, start_size := 5\<rparr>)" "listenfd demo = 5000"
  shows "\<exists>w'. handle_event \<lparr>ev_events = 1, ev_fd = 5020\<rparr> demo w =
    (demo\<lparr>tp := Some (new_pool\<lparr>thread_count := 5, start_size := 5, head := [5020], queue_size := 1\<rparr>)\<rparr>, w') \<and> ramp_at s 30 w'"
  using assms
  by (simp add: handle_event_def is_error_event_def epoll_flags threadpool_add_def sys_ok_def sys_call_def ramp_at_def
      ramp_def add_section_def add_out_def new_pool_def sys_malloc_def)

lemma demo_serving_reach:
  "\<exists>x. reach service_begin (service_step fs prog) x \<and> serv x = demo_serving \<and> ramp_at s 30 (kern x) \<and>
     sent x = (\<lambda>_. s) \<and> answers x = []"
proof -
  let ?R = "reach service_begin (service_step fs prog)" and ?S = "service_step fs prog"
  let ?l = "\<lparr>ev_events = 1, ev_fd = 5000\<rparr>" and ?c = "\<lparr>ev_events = 1, ev_fd = 5020\<rparr>"
  define X where "X v w = \<lparr>serv = v, kern = w, sent = (\<lambda>_. s), answers = []\<rparr>" for v w
  have X: "serv (X v w) = v" "kern (X v w) = w" "(X v w)\<lparr>kern := w'\<rparr> = X v w'"
    "(X v w)\<lparr>serv := v'\<rparr> = X v' w" "renew [] str (X v w) = X v w" for v w v' w' str
    by (simp_all add: X_def renew_def)
  obtain w0 where st: "server_start (\<lambda>_. 0) [''httpd'', ''0.0.0.0'', ''8080''] 1 (ramp s) = Some (Inr (demo_listening, w0))"
    "ramp_at s 19 w0" using demo_start by blast
  then have b: "service_begin (X demo_listening w0)"
    unfolding service_begin_def X_def by (auto simp only: service.simps ramp_at_def)
  obtain w1 where w1: "?S (X demo_listening w0) (X (demo_listening\<lparr>events := [?l]\<rparr>) w1)" "ramp_at s 20 w1"
    using demo_wait [of s 19 "X demo_listening w0" 5000 ?l "interest demo_listening"] st(2)
    by (auto simp: X demo_listening_def epoll_flags)
  obtain w2 where w2: "accept_loop demo_listening w1 = (demo_accepted, w2)" "ramp_at s 25 w2"
    using demo_accept [OF w1(2)] by blast
  have s2: "?S (X (demo_listening\<lparr>events := [?l]\<rparr>) w1) (X demo_accepted w2)"
    using main_handles [of "X (demo_listening\<lparr>events := [?l]\<rparr>) w1" ?l "[]" demo_accepted w2 "[]"] w1(2) w2
    by (simp add: X handle_event_def for_pool_def ramp_at_def) (simp add: demo_listening_def)
  define q where "q = demo_serving\<lparr>running := []\<rparr>"
  obtain w3 where w3: "?S (X demo_accepted w2) (X (q\<lparr>events := [?c]\<rparr>) w3)" "ramp_at s 26 w3"
    using demo_wait [of s 25 "X demo_accepted w2" 5020 ?c "interest demo_serving"] w2(2)
    by (auto simp: X q_def demo_accepted_def demo_serving_def demo_listening_def epoll_flags conn_event_def)
  let ?p = "new_pool\<lparr>thread_count := 5, start_size := 5, head := [5020], queue_size := 1\<rparr>"
  obtain w4 where w4: "handle_event ?c q w3 = (q\<lparr>tp := Some ?p\<rparr>, w4)" "ramp_at s 30 w4"
    using demo_queue [OF w3(2), of q] by (auto simp: q_def demo_serving_def demo_accepted_def demo_listening_def)
  have s4: "?S (X (q\<lparr>events := [?c]\<rparr>) w3) (X (q\<lparr>tp := Some ?p\<rparr>) w4)"
    using main_handles [of "X (q\<lparr>events := [?c]\<rparr>) w3" ?c "[]" "q\<lparr>tp := Some ?p\<rparr>" w4 "[]"] w3(2) w4
    by (simp add: X ramp_at_def pool_free_def) (simp add: q_def demo_serving_def demo_accepted_def demo_listening_def new_pool_def)
  have s5: "?S (X (q\<lparr>tp := Some ?p\<rparr>) w4) (X demo_serving w4)"
    using worker_takes [of "X (q\<lparr>tp := Some ?p\<rparr>) w4" ?p 5020 "new_pool\<lparr>thread_count := 5, start_size := 5\<rparr>"]
    by (simp add: X q_def worker_section_def demo_serving_def demo_accepted_def demo_listening_def new_pool_def
        immediate_shutdown_def graceful_shutdown_def)
  have "?R (X demo_serving w4)"
    using reach_init [of service_begin, OF b] w1(1) s2 w3(1) s4 s5 by (meson reach_step)
  with w4(2) show ?thesis by (intro exI [of _ "X demo_serving w4"]) (simp add: X_def)
qed

text \<open>A worker that holds a connection whose peer sent a GET with a query for an existing file gets it done,
  whatever the rest of the server is doing, under a kernel that never fails and gives out unused
  descriptors: it can take the step that sends the header and what the program prints for the query, puts the
  request on record and closes the connection.\<close>

lemma service_query_served:
  assumes "reach service_begin (service_step fs prog) x" and "fd \<in> set (Http_Server.running (serv x))"
    and "willing n (kern x)" and "length ok_header \<le> n" and "gives_unused x"
    and "well_formed ''GET'' (p @ CHR ''?'' # q) hs" and "CHR ''?'' \<notin> set p" and "length q \<le> 88"
    and "sent x fd = request ''GET'' (p @ CHR ''?'' # q) hs @ body"
    and "vfs_stat fs (doc_path p) = Some st" and "\<not> S_ISDIR (st_mode st)"
  shows "\<exists>x'. service_step fs prog x x' \<and> fd \<notin> opened (serv x') \<and>
    answers x' = (fd, sent x fd, ok_header @
      prog (doc_path p) (Some [''REQUEST_METHOD=GET'', ''QUERY_STRING='' @ q]) []) # answers x"
proof -
  note ready = running_ready [OF svc.reach_rel [OF assms(1)] sim.conc.reach_inv [OF assms(1)] assms(2,5)]
  have "inq (kern x) fd = request ''GET'' (p @ CHR ''?'' # q) hs @ body" using ready(1) assms(9) by simp
  from cgi_get_answer [OF assms(3,4) ready(3) assms(6-8) this assms(10,11), of prog] ready(2)
  obtain w' where w': "accept_request fs prog fd (kern x) = Some w'" "outq w' fd = ok_header @
      prog (doc_path p) (Some [''REQUEST_METHOD=GET'', ''QUERY_STRING='' @ q]) []" by auto
  have "outq w' \<noteq> outq (kern x)" using w'(2) ready(2) length_ok_header by fastforce
  with serve_step [OF assms(2,5) w'(1)] w'(2) show ?thesis by metis
qed

section \<open>The properties of the service\<close>



text \<open>C5: However the main thread, the workers and the clients interleave and whatever the kernel answers, a
  connection that is queued, being served or reported has had none of its peer's bytes taken and nothing
  sent to it; every finished request was served by \<open>accept_request\<close> from the peer's first byte on, and what
  the peer was sent is exactly what that call sent; and an open connection never changes its peer.\<close>

theorem service_requests_whole:
  assumes "reach service_begin (service_step fs prog) x"
  shows "(\<forall>fd \<in> set (queued (serv x) @ Http_Server.running (serv x) @ reported (serv x)).
        inq (kern x) fd = sent x fd \<and> outq (kern x) fd = []) \<and>
      (\<forall>(fd, rq, out) \<in> set (answers x). \<exists>w w'. ans w = ans (kern x) \<and> inq w fd = rq \<and> outq w fd = [] \<and>
        accept_request fs prog fd w = Some w' \<and> outq w' fd = out) \<and>
      (\<forall>x' fd. service_step fs prog x x' \<and> fd \<in> opened (serv x) \<and> fd \<in> opened (serv x') \<longrightarrow>
        sent x' fd = sent x fd)"
proof -
  have inv: "service_inv fs prog x" using assms by (rule svc.reach_rel)
  then have "whole x fd" if "fd \<in> set (busy (serv x))" for fd
    using that by (simp add: service_inv_def forgotten_def)
  with inv show ?thesis
    using sent_stable [of fs prog x] by (auto simp: service_inv_def busy_def whole_def served_def)
qed

theorem service_requests_whole_witness:
  "\<exists>x :: service. serv x = demo_serving \<and> sent x 5020 = ''GET /'' \<and> inq (kern x) 5020 = ''GET /'' \<and> outq (kern x) 5020 = []"
proof -
  obtain x where x: "reach service_begin (service_step site echo_prog) x" "serv x = demo_serving"
    "sent x = (\<lambda>_. ''GET /'')" using demo_serving_reach by metis
  have "5020 \<in> set (queued (serv x) @ Http_Server.running (serv x) @ reported (serv x))"
    by (simp add: x(2) demo_serving_def)
  with service_requests_whole [OF x(1), THEN conjunct1]
  have "inq (kern x) 5020 = sent x 5020 \<and> outq (kern x) 5020 = []" by (rule bspec)
  with x(2,3) show ?thesis by (intro exI [of _ x]) simp
qed


lemma demo_page: "page_request ''HEAD'' ''/a.html'' [''Host: h'']" "plain_page site 5000 ''/a.html''"
  using example_requests(1)
  by (simp_all add: page_request_def plain_page_def strcasecmp_def tolower_def uchar_def example_paths site_def
      length_ok_header)

lemma demo_serving_ready:
  assumes "serv x = demo_serving" "ramp_at s 30 (kern x)"
  shows "5020 \<in> set (Http_Server.running (serv x))" "willing 5000 (kern x)" "\<forall>k. int 5000 \<le> sr_ret (ans (kern x) k)"
    "gives_unused x"
  using assms
  by (auto simp: demo_serving_def demo_accepted_def demo_listening_def ramp_at_def ramp_def willing_def
      gives_unused_def given_def)


end
