(* ===== verification/Spec2Isabelle.thy ===== *)
theory Spec2Isabelle
  imports Comm_Socket_Spec Http_Request_Spec Thread_Pool_Spec Http_Server_Spec Timers_Props Load_Spec Weather_1
    Test_Programs Http_Service
begin

text \<open>
  Verification of the weather query service (\<open>Real-time-weather-query-system\<close>) and of the load generator kept beside it.

  \<^bold>\<open>The program.\<close> \<open>httpd.c\<close> is a web server: \<open>main\<close> accepts connections, waits for them with \<open>epoll.c\<close>
  and hands each readable one to the thread pool of \<open>threadpool.c\<close>; a worker runs \<open>accept_request\<close>, which reads the request line by
  line, serves a file or runs a CGI program. \<open>commsocket.c\<close> has the socket helpers. The CGI program
  \<open>cgi_bin/find_cgi.cpp\<close> looks a city up in memcached (\<open>memcache/memcache.h\<close>) and then in MySQL
  (\<open>sql_connect/sql_connect.cpp\<close>). The crawler \<open>htdocs/weather.cpp\<close> fetches the pages of a weather service and fills the
  table. \<open>http_load/http_load.c\<close> with \<open>http_load/timers.c\<close> is the load generator used to test the server.

  \<^bold>\<open>Foundations.\<close>
  \<^item> \<open>C_Prelude\<close>: bytes, C strings, comparison, \<open>atoi\<close>, printing of numbers. \<open>C_Buffer\<close>: \<open>strcpy\<close>, scan sets and
    removal of characters in place. \<open>C_Float\<close>: \<open>float\<close> and \<open>double\<close> as rationals rounded to 24 and 53 bits (no overflow,
    no subnormal numbers).
  \<^item> \<open>Sys_Calls\<close>: the kernel as a state whose choices are an oracle; every theorem holds for every oracle unless it
    restricts it (\<open>quiet\<close>: no call fails; fairness for the retry loops).
  \<^item> \<open>Transition\<close>: the locales \<open>inductive_invariant\<close>, \<open>relative_invariant\<close>, \<open>simulation\<close>, \<open>simulated_invariant\<close> and
    \<open>bounded_run\<close> for step relations, interpreted on the pool, the event loop and the server as a whole.
  A result \<open>None\<close> stands for undefined behaviour: leaving an array, following an invalid pointer, signed overflow of a number
  from outside. Loops that need not end are \<open>partial_function (option)\<close>; then \<open>None\<close> also stands for not returning, and the
  theorems that claim a result prove it.

  \<^bold>\<open>Components.\<close>
  \<^item> \<open>Comm_Socket\<close>, \<open>Comm_Socket_Spec\<close> (\<open>commsocket.c\<close>): the retry loops under the locale \<open>eintr_retry\<close>, interpreted on
    \<open>select_loop\<close>, \<open>readn_loop\<close>, \<open>writen_loop\<close> and \<open>recv_peek\<close>; exact reads and writes; a message sent is received unchanged; the
    error results.
  \<^item> \<open>Http_Line\<close> (\<open>get_line\<close>, \<open>clear_header\<close>): memory safety, refinement of the line discipline \<open>next_line\<close>, consumption of a
    header block, divergence at an early end of file.
  \<^item> \<open>Http_Request\<close>, \<open>Http_Request_Spec\<close> (\<open>accept_request\<close>, \<open>exe_cgi\<close>, \<open>echo_html\<close>): the answers to requests for files,
    directories and programs, and the requests that are not answered. File system and program are parameters.
  \<^item> \<open>Thread_Pool\<close>, \<open>Thread_Pool_Run\<close>, \<open>Thread_Pool_Spec\<close> (\<open>threadpool.c\<close>): the critical sections as functions, their
    interleavings as the step relation \<open>pool_step\<close> with mutex and condition variable; mutual exclusion, no task lost or run
    twice, no lost wake-up, graceful shutdown, termination of a shutdown, the error paths.
  \<^item> \<open>Http_Server\<close>, \<open>Http_Server_Spec\<close> (\<open>main\<close> of \<open>httpd.c\<close>, \<open>epoll.c\<close>): the event loop as a step relation; no connection is
    in two hands; connections that are never closed.
  \<^item> \<open>Http_Frame\<close>: what one request may touch, under every kernel and input. \<open>Http_Service\<close>: the event loop, the pool and
    \<open>accept_request\<close> on one kernel as the step relation \<open>service_step\<close>. It simulates the event loop (\<open>simulated_invariant\<close>), every request
    reaches its worker whole, and every answer on record is the one \<open>accept_request\<close> gives to that request alone. A request is one
    step of this relation, which \<open>Http_Frame\<close> justifies; a request that does not return (\<open>None\<close>) keeps its worker and takes
    no step.
  \<^item> \<open>Timers\<close>, \<open>Timers_Rep\<close>, \<open>Timers_Spec\<close>, \<open>Timers_Run\<close>, \<open>Timers_Calls\<close>, \<open>Timers_Props\<close> (\<open>timers.c\<close>): linked lists on a heap; the locale
    \<open>timer_store\<close> states the contract of a finite map from timers to schedules, interpreted on \<open>tmr_create\<close>, \<open>tmr_cancel\<close>
    and \<open>tmr_reset\<close>; timeout, running, destruction; a callback that cancels the next timer. The locale
    \<open>orderly_calls\<close> states what a callback promises (it leaves the schedule alone and keeps an invariant, or ends the process) and proves
    that \<open>tmr_run\<close> then ends with its lists and the invariant intact; it is interpreted on a logging callback and on the procedures
    of \<open>http_load.c\<close>.
  \<^item> \<open>Load_Data\<close>, \<open>Load_Args\<close>, \<open>Load_Urls\<close>, \<open>Load_Header\<close>, \<open>Load_Conn\<close>, \<open>Load_Main\<close> (\<open>http_load.c\<close>): the state
    extends that of the timer package; one definition per function, the large ones split at their comments. \<open>Load_Inv\<close>,
    \<open>Load_Safe\<close>, \<open>Load_Start\<close>: the invariant that every slot in use owns its timers (through the contract \<open>timer_store\<close>) and its
    preservation. \<open>Load_Keep\<close>, \<open>Load_Run\<close>, \<open>Load_Setup\<close>: the run as a whole. \<open>Load_Keep\<close> has what the operations leave alone,
    \<open>Load_Run\<close> discharges the contract \<open>orderly_calls\<close> for the timer procedures and carries the invariant through the rounds of the
    main loop, \<open>Load_Setup\<close> establishes it from the command line and the two files; together they give \<open>http_load_safe\<close>.
    \<open>Load_Header_Spec\<close>, \<open>Load_Request\<close>, \<open>Load_Spec\<close>: the header machine, buffers, checksum, connections, URLs and
    the end of a run. \<open>Load_Demo\<close>: concrete states.
  \<^item> \<open>Sql_Connect\<close>, \<open>Mem_Cache\<close>, \<open>Find_Cgi\<close>, \<open>Find_Cgi_Spec\<close>: the two store classes and the CGI program. The look-up is
    written over the operations of the stores; the locale \<open>city_stores\<close> states their contract and proves the answer, and is
    interpreted on the operations of the two classes. The MySQL client and libmemcached are parameters; \<open>serves_table\<close> and \<open>caches\<close> are the hypotheses on them: the documented result of the
    statement the class sends, and a cache that may forget but not invent entries.
  \<^item> \<open>Weather\<close>, \<open>Weather_Spec\<close>: the crawler; the complete page, the keys it makes compared with the keys the CGI program
    looks up, the data it collects. \<open>Weather_1\<close>: its older version \<open>weather_1.cpp\<close>, compared with it.
  \<^item> \<open>Test_Programs\<close>: \<open>htdocs/main.cpp\<close>, \<open>memcache/memcache.cpp\<close>, \<open>memcache/test.cpp\<close> and \<open>htdocs/cgi_bin/find_cgi.cpp\<close>, which try
    the classes by hand.
  \<^item> This theory: a query through \<open>httpd\<close>, the CGI program, the cache and the database, alone and in the running server.

  \<^bold>\<open>Bounds and fuel.\<close> Buffer sizes are those of the source. The receive loop of the crawler and the loops over lines terminate by the
  length of what is left to read; the step relations are unbounded. \<open>main_loop\<close> takes one answer of \<open>select\<close> per round.
  \<open>page_complete\<close> bounds the page by \<open>2 ^ 28\<close> bytes, below the overflow of the buffer size. \<open>http_load_safe\<close> assumes memory for
  two timers at the start and ten in each round (a round starts at most ten connections) and lines below \<open>MAX_LINE\<close> bytes, so that
  a request fits in its buffer; it covers \<open>-parallel\<close> without throttling, and names by \<open>stuck\<close> the two events that end it: a
  descriptor that does not fit in a descriptor set, and a number in a header that overflows.

  \<^bold>\<open>Not modelled.\<close> Console output of the server and of the crawler, and the fixed page the crawler prints; the SSL branches and the
  branch without IPv6 of \<open>http_load.c\<close>, which are compiled out; the signal handler of \<open>weather.cpp\<close>, which only ends the
  process; the portability header of \<open>http_load\<close>, which has no operations; \<open>memorypool.c\<close>, which is empty; the shell scripts; and
  the vendored libraries under \<open>lib\<close> and \<open>sql_connect/mysql_lib\<close>.
\<close>

section \<open>A query from the socket to the database\<close>

text \<open>The environment that \<open>httpd\<close> sets for the program, as \<open>getenv\<close> reads it.\<close>

fun env_value :: "string list \<Rightarrow> string \<Rightarrow> string option" where
  "env_value [] x = None"
| "env_value (e # es) x =
     (if take (Suc (length x)) e = x @ ''='' then Some (drop (Suc (length x)) e) else env_value es x)"

text \<open>The CGI program as \<open>httpd\<close> runs it: the output for a path, an environment and an input; \<open>w\<close> is the kernel of the
  new process. An environment that \<open>httpd\<close> did not set up, and a program that crashes, give no output.\<close>

definition cgi_program ::
  "'m mysql_api \<Rightarrow> 'c memcached_api \<Rightarrow> memcache \<Rightarrow> string \<Rightarrow> os \<Rightarrow> 'm \<Rightarrow> 'c \<Rightarrow> string \<Rightarrow> string list option \<Rightarrow> string \<Rightarrow> string" where
  "cgi_program api mapi junk title w m c path env inp =
     (case env of
        None \<Rightarrow> []
      | Some e \<Rightarrow>
          (case cgi_main api mapi junk (env_value e) title (w\<lparr>inq := (inq w)(0 := inp)\<rparr>) m c of
             None \<Rightarrow> []
           | Some (_, out, _) \<Rightarrow> out))"

text \<open>What the program prints for a query of at most 32 bytes.\<close>

lemma cgi_program_answers:
  assumes "is_cstring (par @ CHR ''='' # v)" "CHR ''='' \<notin> set par" "length par \<le> 50" "length v < STR_SIZE"
    "serves_table api same rows up" "caches mapi held" "texts_ok rows" "plain (filter (\<lambda>c. c \<noteq> CHR ''%'') v)"
    "api_init api m = (True, m1)" "api_real_connect api ''127.0.0.1'' ''root'' ''WKyun123456'' ''test'' 3306 m1 = (ok, m2)" "up m2"
    "coherent (in_table same rows) (held c)"
  shows "\<exists>out. cgi_program api mapi junk title w0 m c path
      (Some [''REQUEST_METHOD=GET'', ''QUERY_STRING='' @ par @ CHR ''='' # v]) [] = page_head title @ out @ page_tail \<and>
    right_answer same rows (filter (\<lambda>c. c \<noteq> CHR ''%'') v) out"
proof -
  let ?env = "[''REQUEST_METHOD=GET'', ''QUERY_STRING='' @ par @ CHR ''='' # v]"
  have "gets (env_value ?env) par v" using assms(1-4) by (simp add: gets_def STR_SIZE_def)
  from cgi_answer_ok [OF assms(5-7) this assms(4,8-12), of junk title "w0\<lparr>inq := (inq w0)(0 := [])\<rparr>"] show ?thesis
    by (auto simp: cgi_program_def simp del: env_value.simps)
qed

lemma query_cstring:
  "well_formed m (p @ CHR ''?'' # par @ CHR ''='' # v) hs \<Longrightarrow> is_cstring (par @ CHR ''='' # v)"
  by (simp add: well_formed_def request_token_def)

lemma weather_request:
  "well_formed ''GET'' (''/find'' @ CHR ''?'' # ''cityname'' @ CHR ''='' # ''%E8%A5'') [''Host: h'']"
  by (simp add: well_formed_def request_token_def isspace_def header_line_def)

text \<open>C1: A well-formed request \<open>GET /cgi_bin/find_cgi?name=value\<close> for a value of at most 32 bytes is answered by the whole
  service, from the socket of \<open>httpd\<close> through the CGI program to the cache and the database and back: the client gets the
  success header and the page with the table's entry for the city, or with \<open>not find\<close> exactly when the table has none, and
  the connection is closed.\<close>
theorem weather_query_answered:
  assumes "willing n w" "length ok_header \<le> n" "fresh_fds sock w"
    "well_formed ''GET'' (p @ CHR ''?'' # par @ CHR ''='' # v) hs" "CHR ''?'' \<notin> set p" "CHR ''='' \<notin> set par"
    "inq w sock = request ''GET'' (p @ CHR ''?'' # par @ CHR ''='' # v) hs @ body" "length par \<le> 50" "length v < STR_SIZE"
    "vfs_stat fs (doc_path p) = Some st" "\<not> S_ISDIR (st_mode st)"
    "serves_table api same rows up" "caches mapi held" "texts_ok rows" "plain (filter (\<lambda>c. c \<noteq> CHR ''%'') v)"
    "api_init api m = (True, m1)" "api_real_connect api ''127.0.0.1'' ''root'' ''WKyun123456'' ''test'' 3306 m1 = (ok, m2)" "up m2"
    "coherent (in_table same rows) (held c)"
  shows "\<exists>w' out. accept_request fs (cgi_program api mapi junk title w0 m c) sock w = Some w' \<and>
    outq w' sock = outq w sock @ ok_header @ page_head title @ out @ page_tail \<and>
    right_answer same rows (filter (\<lambda>c. c \<noteq> CHR ''%'') v) out \<and> hd (os.closed w') = sock"
proof -
  let ?q = "par @ CHR ''='' # v"
  have l: "length ?q \<le> 88" using assms(8,9) by (simp add: STR_SIZE_def)
  from cgi_program_answers [OF query_cstring [OF assms(4)] assms(6,8,9,12-19), of junk title w0 "doc_path p"]
    cgi_get_answer [OF assms(1-5) l assms(7,10,11), of "cgi_program api mapi junk title w0 m c"]
  show ?thesis by auto
qed

theorem weather_query_answered_witness:
  "\<exists>w'. accept_request site (cgi_program some_mysql some_memcached undefined ''w'' (os_with 1 []) [] Map.empty) 4
       (os_with 5000 (request ''GET'' (''/find'' @ CHR ''?'' # ''cityname'' @ CHR ''='' # ''%E8%A5'') [''Host: h''] @ [])) = Some w' \<and>
     outq w' 4 = ok_header @ page_head ''w'' @ ''sunny</br>'' @ [LF] @ ''warm'' @ page_tail"
proof -
  let ?w = "os_with 5000 (request ''GET'' (''/find'' @ CHR ''?'' # ''cityname'' @ CHR ''='' # ''%E8%A5'') [''Host: h''] @ [])"
  have f: "filter (\<lambda>c. c \<noteq> CHR ''%'') ''%E8%A5'' = ''E8A5''" by simp
  have t: "texts_ok some_rows" by (simp add: texts_ok_def some_rows_def)
  have "\<exists>w' out. accept_request site (cgi_program some_mysql some_memcached undefined ''w'' (os_with 1 []) [] Map.empty) 4 ?w = Some w' \<and>
      outq w' 4 = outq ?w 4 @ ok_header @ page_head ''w'' @ out @ page_tail \<and>
      right_answer (=) some_rows (filter (\<lambda>c. c \<noteq> CHR ''%'') ''%E8%A5'') out \<and> hd (os.closed w') = 4"
    by (rule weather_query_answered [OF os_with_willing(1) _ os_with_willing(2) weather_request,
          where st = "\<lparr>st_mode = 33261, st_size = 9\<rparr>" and up = "\<lambda>m. True" and held = id,
          OF _ _ _ _ _ _ _ _ some_mysql_serves some_memcached_caches t])
      (simp_all add: os_with_fields example_paths site_def length_ok_header STR_SIZE_def plain_def some_mysql_def coherent_def)
  then obtain w' out where o: "accept_request site (cgi_program some_mysql some_memcached undefined ''w'' (os_with 1 []) [] Map.empty) 4 ?w = Some w'"
    "outq w' 4 = outq ?w 4 @ ok_header @ page_head ''w'' @ out @ page_tail" "right_answer (=) some_rows ''E8A5'' out"
    unfolding f by blast
  have "out = ''sunny</br>'' @ [LF] @ ''warm''" by (rule some_answer [OF o(3)])
  with o(1,2) show ?thesis by (simp add: os_with_fields)
qed

text \<open>C3: The whole service answers while it is serving others: in every state the server reaches, a worker that holds a
  connection whose peer sent a well-formed weather query can take the step that sends the success header and the page with the
  table's entry for the city (or \<open>not find\<close> exactly when the table has none), puts the request on record and closes the
  connection, whatever else is queued, running or arriving; the stores are those of the query's process.\<close>
theorem weather_query_served:
  assumes "reach service_begin (service_step fs (cgi_program api mapi junk title w0 m c)) x"
    "fd \<in> set (Http_Server.running (serv x))" "willing n (kern x)" "length ok_header \<le> n" "gives_unused x"
    "well_formed ''GET'' (p @ CHR ''?'' # par @ CHR ''='' # v) hs" "CHR ''?'' \<notin> set p" "CHR ''='' \<notin> set par"
    "sent x fd = request ''GET'' (p @ CHR ''?'' # par @ CHR ''='' # v) hs @ body" "length par \<le> 50" "length v < STR_SIZE"
    "vfs_stat fs (doc_path p) = Some st" "\<not> S_ISDIR (st_mode st)"
    "serves_table api same rows up" "caches mapi held" "texts_ok rows" "plain (filter (\<lambda>c. c \<noteq> CHR ''%'') v)"
    "api_init api m = (True, m1)" "api_real_connect api ''127.0.0.1'' ''root'' ''WKyun123456'' ''test'' 3306 m1 = (ok, m2)" "up m2"
    "coherent (in_table same rows) (held c)"
  shows "\<exists>x' out. service_step fs (cgi_program api mapi junk title w0 m c) x x' \<and> fd \<notin> opened (serv x') \<and>
    answers x' = (fd, sent x fd, ok_header @ page_head title @ out @ page_tail) # answers x \<and>
    right_answer same rows (filter (\<lambda>c. c \<noteq> CHR ''%'') v) out"
proof -
  have l: "length (par @ CHR ''='' # v) \<le> 88" using assms(10,11) by (simp add: STR_SIZE_def)
  from cgi_program_answers [OF query_cstring [OF assms(6)] assms(8,10,11,14-21), of junk title w0 "doc_path p"]
    service_query_served [OF assms(1-7) l assms(9,12,13)]
  show ?thesis by auto
qed

theorem weather_query_served_witness:
  "\<exists>x x'. serv x = demo_serving \<and>
     service_step site (cgi_program some_mysql some_memcached undefined ''w'' (os_with 1 []) [] Map.empty) x x' \<and>
     answers x' = [(5020, request ''GET'' (''/find'' @ CHR ''?'' # ''cityname'' @ CHR ''='' # ''%E8%A5'') [''Host: h''] @ [],
       ok_header @ page_head ''w'' @ ''sunny</br>'' @ [LF] @ ''warm'' @ page_tail)]"
proof -
  define prog where "prog = cgi_program some_mysql some_memcached undefined ''w'' (os_with 1 []) [] Map.empty"
  define rq where "rq = request ''GET'' (''/find'' @ CHR ''?'' # ''cityname'' @ CHR ''='' # ''%E8%A5'') [''Host: h''] @ []"
  obtain x where x: "reach service_begin (service_step site prog) x" "serv x = demo_serving"
    "ramp_at rq 30 (kern x)" "sent x = (\<lambda>_. rq)" "answers x = []" using demo_serving_reach by metis
  note ready = demo_serving_ready [OF x(2,3)]
  have f: "filter (\<lambda>c. c \<noteq> CHR ''%'') ''%E8%A5'' = ''E8A5''" by simp
  have t: "texts_ok some_rows" by (simp add: texts_ok_def some_rows_def)
  have sx: "sent x 5020 = request ''GET'' (''/find'' @ CHR ''?'' # ''cityname'' @ CHR ''='' # ''%E8%A5'') [''Host: h''] @ []"
    by (simp add: x(4) rq_def)
  have "\<exists>x' out. service_step site prog x x' \<and> 5020 \<notin> opened (serv x') \<and>
      answers x' = (5020, sent x 5020, ok_header @ page_head ''w'' @ out @ page_tail) # answers x \<and>
      right_answer (=) some_rows (filter (\<lambda>c. c \<noteq> CHR ''%'') ''%E8%A5'') out"
    unfolding prog_def
    by (rule weather_query_served [OF x(1) [unfolded prog_def] ready(1,2) _ ready(4) weather_request _ _ sx,
          where st = "\<lparr>st_mode = 33261, st_size = 9\<rparr>" and up = "\<lambda>m. True" and held = id,
          OF _ _ _ _ _ _ _ some_mysql_serves some_memcached_caches t])
      (simp_all add: example_paths site_def length_ok_header STR_SIZE_def plain_def some_mysql_def coherent_def)
  then obtain x' out where o: "service_step site prog x x'" "right_answer (=) some_rows ''E8A5'' out"
    "answers x' = (5020, sent x 5020, ok_header @ page_head ''w'' @ out @ page_tail) # answers x"
    unfolding f by blast
  have "out = ''sunny</br>'' @ [LF] @ ''warm''" by (rule some_answer [OF o(2)])
  with o(1,3) x(2,4,5) show ?thesis unfolding prog_def rq_def by auto
qed

end
